(* ===== verification/Prelude.thy ===== *)
theory Prelude
  imports Main "HOL-Library.Word" "HOL-Library.Monad_Syntax"
begin

text \<open>
  Shared vocabulary of the development: machine integers (fixed-width words for bit-level
  code, \<open>int\<close> with explicit two's complement wrap for arithmetic code), the error codes of
  libavutil/error.h, bounds-checked memory copies, byte serialisation, and the lemma
  collections the component theories use.

  Conventions. A C function that may run into undefined behaviour (a copy outside an object)
  or may not return is an \<open>option\<close>, with \<open>None\<close> for that outcome. An \<open>int\<close> return code is an
  \<open>int\<close>, negative for an error, as in the code.
\<close>

unbundle bit_operations_syntax

named_theorems mem_simps \<open>bounds-checked copies\<close>
named_theorems cint_simps \<open>two's complement wrap of in-range values\<close>
named_theorems byte_simps \<open>serialisation of words into bytes\<close>

section \<open>Machine integers\<close>

type_synonym u8 = "8 word"
type_synonym u16 = "16 word"
type_synonym u32 = "32 word"
type_synonym u64 = "64 word"

abbreviation INT_MAX :: int where "INT_MAX \<equiv> 2147483647"
abbreviation INT_MIN :: int where "INT_MIN \<equiv> - 2147483648"
abbreviation UINT_MAX :: int where "UINT_MAX \<equiv> 4294967295"
abbreviation INT64_MAX :: int where "INT64_MAX \<equiv> 9223372036854775807"
abbreviation INT64_MIN :: int where "INT64_MIN \<equiv> - 9223372036854775808"

text \<open>Conversion to \<open>int32_t\<close>, \<open>int64_t\<close>, \<open>uint32_t\<close> and \<open>uint64_t\<close>.\<close>

definition s32 :: "int \<Rightarrow> int" where
  "s32 x = (x + 2147483648) mod 4294967296 - 2147483648"

definition s64 :: "int \<Rightarrow> int" where
  "s64 x = (x + 9223372036854775808) mod 18446744073709551616 - 9223372036854775808"

definition u32_of :: "int \<Rightarrow> int" where
  "u32_of x = x mod 4294967296"

definition u64_of :: "int \<Rightarrow> int" where
  "u64_of x = x mod 18446744073709551616"

definition in_s32 :: "int \<Rightarrow> bool" where
  "in_s32 x \<longleftrightarrow> INT_MIN \<le> x \<and> x \<le> INT_MAX"

definition in_s64 :: "int \<Rightarrow> bool" where
  "in_s64 x \<longleftrightarrow> INT64_MIN \<le> x \<and> x \<le> INT64_MAX"

lemma s32_id [cint_simps]: "in_s32 x \<Longrightarrow> s32 x = x"
  unfolding s32_def in_s32_def by (subst mod_pos_pos_trivial) auto

lemma s64_id [cint_simps]: "in_s64 x \<Longrightarrow> s64 x = x"
  unfolding s64_def in_s64_def by (subst mod_pos_pos_trivial) auto

lemma u64_of_id [cint_simps]: "0 \<le> x \<Longrightarrow> x < 18446744073709551616 \<Longrightarrow> u64_of x = x"
  unfolding u64_of_def by (subst mod_pos_pos_trivial) auto

lemma u32_of_id [cint_simps]: "0 \<le> x \<Longrightarrow> x < 4294967296 \<Longrightarrow> u32_of x = x"
  unfolding u32_of_def by (subst mod_pos_pos_trivial) auto

lemma s32_range: "in_s32 (s32 x)"
proof -
  have "0 \<le> (x + 2147483648) mod 4294967296" "(x + 2147483648) mod 4294967296 < 4294967296"
    by simp_all
  then show ?thesis unfolding in_s32_def s32_def by linarith
qed

lemma s64_range: "in_s64 (s64 x)"
proof -
  have "0 \<le> (x + 9223372036854775808) mod 18446744073709551616"
    "(x + 9223372036854775808) mod 18446744073709551616 < 18446744073709551616"
    by simp_all
  then show ?thesis unfolding in_s64_def s64_def by linarith
qed

text \<open>C division and remainder of signed integers truncate towards zero.\<close>

definition cdiv :: "int \<Rightarrow> int \<Rightarrow> int" where
  "cdiv a b = sgn a * sgn b * (\<bar>a\<bar> div \<bar>b\<bar>)"

definition cmod :: "int \<Rightarrow> int \<Rightarrow> int" where
  "cmod a b = a - cdiv a b * b"

lemma cdiv_nonneg [simp]: "0 \<le> a \<Longrightarrow> 0 < b \<Longrightarrow> cdiv a b = a div b"
  by (cases "a = 0") (simp_all add: cdiv_def)

lemma cmod_nonneg [simp]: "0 \<le> a \<Longrightarrow> 0 < b \<Longrightarrow> cmod a b = a mod b"
  by (simp add: cmod_def minus_div_mult_eq_mod)

section \<open>Error codes (libavutil/error.h)\<close>

definition FFERRTAG :: "int \<Rightarrow> int \<Rightarrow> int \<Rightarrow> int \<Rightarrow> int" where
  "FFERRTAG a b c d = - s32 (a + b * 2 ^ 8 + c * 2 ^ 16 + d * 2 ^ 24)"

definition EAGAIN :: int where "EAGAIN = - 11"
definition ENOMEM :: int where "ENOMEM = - 12"
definition EINVAL :: int where "EINVAL = - 22"

definition AVERROR_BUG :: int where
  "AVERROR_BUG = FFERRTAG 0x42 0x55 0x47 0x21"

definition AVERROR_EOF :: int where
  "AVERROR_EOF = FFERRTAG 0x45 0x4F 0x46 0x20"

definition AVERROR_EXTERNAL :: int where
  "AVERROR_EXTERNAL = FFERRTAG 0x45 0x58 0x54 0x20"

definition AVERROR_INVALIDDATA :: int where
  "AVERROR_INVALIDDATA = FFERRTAG 0x49 0x4E 0x44 0x41"

lemmas error_defs =
  EAGAIN_def ENOMEM_def EINVAL_def AVERROR_BUG_def AVERROR_EOF_def AVERROR_EXTERNAL_def
  AVERROR_INVALIDDATA_def FFERRTAG_def s32_def

lemma error_values [simp]:
  "EAGAIN = - 11" "ENOMEM = - 12" "EINVAL = - 22" "AVERROR_BUG = - 558323010"
  "AVERROR_EOF = - 541478725" "AVERROR_EXTERNAL = - 542398533"
  "AVERROR_INVALIDDATA = - 1094995529"
  by (simp_all add: error_defs)

section \<open>Constants (libavutil/avutil.h, libavcodec/codec_id.h)\<close>

definition AV_NOPTS_VALUE :: int where "AV_NOPTS_VALUE = INT64_MIN"

definition AV_CODEC_ID_H264 :: int where "AV_CODEC_ID_H264 = 27"
definition AV_CODEC_ID_HEVC :: int where "AV_CODEC_ID_HEVC = 173"

lemma codec_ids_distinct [simp]: "AV_CODEC_ID_H264 \<noteq> AV_CODEC_ID_HEVC" "AV_CODEC_ID_HEVC \<noteq> AV_CODEC_ID_H264"
  by (simp_all add: AV_CODEC_ID_H264_def AV_CODEC_ID_HEVC_def)

section \<open>The conversion \<open>%d\<close> of \<open>sscanf\<close>\<close>

text \<open>White space, a sign and at least one digit; the value and what follows it.\<close>

definition is_digit :: "char \<Rightarrow> bool" where
  "is_digit c \<longleftrightarrow> c \<in> set ''0123456789''"

definition digits_value :: "string \<Rightarrow> int" where
  "digits_value ds = foldl (\<lambda>acc c. acc * 10 + int (of_char c - 48)) 0 ds"

definition scan_int :: "string \<Rightarrow> (int \<times> string) option" where
  "scan_int s =
     (let s = dropWhile (\<lambda>c. c \<in> set [CHR '' '', CHR 0x09, CHR 0x0A, CHR 0x0B, CHR 0x0C, CHR 0x0D]) s;
          neg = (s \<noteq> [] \<and> hd s = CHR ''-'');
          s = (if s \<noteq> [] \<and> (hd s = CHR ''-'' \<or> hd s = CHR ''+'') then tl s else s);
          ds = takeWhile is_digit s
      in if ds = [] then None
         else Some (if neg then - digits_value ds else digits_value ds, dropWhile is_digit s))"

section \<open>Bounds-checked memory\<close>

text \<open>\<open>load src at n\<close> reads \<open>n\<close> cells at offset \<open>at\<close>; \<open>store dst at bs\<close> writes the cells
  \<open>bs\<close> there; outside the object both are \<open>None\<close>.\<close>

definition load :: "'a list \<Rightarrow> nat \<Rightarrow> nat \<Rightarrow> 'a list option" where
  "load src at n = (if at + n \<le> length src then Some (take n (drop at src)) else None)"

definition store :: "'a list \<Rightarrow> nat \<Rightarrow> 'a list \<Rightarrow> 'a list option" where
  "store dst at bs =
     (if at + length bs \<le> length dst
      then Some (take at dst @ bs @ drop (at + length bs) dst) else None)"

lemma load_eq_Some [mem_simps]:
  "load src at n = Some bs \<longleftrightarrow> at + n \<le> length src \<and> bs = take n (drop at src)"
  by (auto simp: load_def)

lemma store_eq_Some [mem_simps]:
  "store dst at bs = Some dst' \<longleftrightarrow>
     at + length bs \<le> length dst \<and> dst' = take at dst @ bs @ drop (at + length bs) dst"
  by (auto simp: store_def)

lemma load_length: "load src at n = Some bs \<Longrightarrow> length bs = n"
  by (auto simp: load_def split: if_splits)

lemma store_length: "store dst at bs = Some dst' \<Longrightarrow> length dst' = length dst"
  by (auto simp: store_def split: if_splits)

lemma store_nth:
  "store dst at bs = Some dst' \<Longrightarrow> i < length dst \<Longrightarrow>
     dst' ! i = (if at \<le> i \<and> i < at + length bs then bs ! (i - at) else dst ! i)"
  by (auto simp: store_eq_Some nth_append min_def)

lemma mod_in_bounds: "p < N \<Longrightarrow> q mod N < (N::nat)"
  by simp

lemma mod_once: "N \<le> z \<Longrightarrow> z < 2 * N \<Longrightarrow> z mod N = z - (N::int)"
  using minus_mod_self2[of z N] mod_pos_pos_trivial[of "z - N" N] by simp

section \<open>Allocation (libavutil/mem.c)\<close>

text \<open>
  \<open>malloc n\<close> is the C library's allocator: the initial contents of a fresh object of \<open>n\<close>
  cells, or \<open>None\<close>. \<open>av_malloc\<close> refuses more than \<open>max_alloc_size\<close> (\<open>INT_MAX\<close> unless the
  application changes it) and retries a refused empty object with one byte;
  \<open>av_malloc_array\<close> also refuses a product that overflows \<open>size_t\<close>.
\<close>

definition max_alloc_size :: nat where
  "max_alloc_size = 2147483647"

definition av_malloc :: "(nat \<Rightarrow> 'a list option) \<Rightarrow> nat \<Rightarrow> 'a list option" where
  "av_malloc malloc n =
     (if n > max_alloc_size then None
      else case malloc n of
             None \<Rightarrow> if n = 0 then map_option (\<lambda>_. []) (malloc 1) else None
           | Some obj \<Rightarrow> Some obj)"

definition av_malloc_array :: "(nat \<Rightarrow> 'a list option) \<Rightarrow> nat \<Rightarrow> nat \<Rightarrow> 'a list option" where
  "av_malloc_array malloc nmemb n =
     (if nmemb * n < 2 ^ 64 then av_malloc malloc (nmemb * n) else None)"

text \<open>The documented behaviour of the allocator: an object has the size asked for.\<close>

definition malloc_ok :: "(nat \<Rightarrow> 'a list option) \<Rightarrow> bool" where
  "malloc_ok malloc \<longleftrightarrow> (\<forall>n obj. malloc n = Some obj \<longrightarrow> length obj = n)"

lemma av_malloc_SomeD:
  assumes "malloc_ok malloc" "av_malloc malloc n = Some obj"
  shows "length obj = n \<and> n \<le> max_alloc_size"
  using assms by (auto simp: av_malloc_def malloc_ok_def split: if_splits option.splits)

lemma bind_eq_SomeD:
  "Option.bind m f = Some y \<Longrightarrow> \<exists>x. m = Some x \<and> f x = Some y"
  by (cases m) auto

end
