(* ===== verification/Frames.thy ===== *)
theory Frames
  imports Prelude
begin

text \<open>
  What the two Thinkforce wrappers use of \<open>AVFrame\<close> (libavutil/frame.h): format, dimensions, the
  planes and their strides, the timestamp. A plane is the object its \<open>data\<close> pointer points to,
  \<open>None\<close> for a null pointer. Row copies are the \<open>memcpy\<close> loops of the wrappers, checked against
  the bounds of both objects.
\<close>

definition AV_PIX_FMT_YUV420P :: int where "AV_PIX_FMT_YUV420P = 0"
definition AV_PIX_FMT_NV12 :: int where "AV_PIX_FMT_NV12 = 23"

lemma pix_fmt_distinct [simp]: "AV_PIX_FMT_YUV420P \<noteq> AV_PIX_FMT_NV12" "AV_PIX_FMT_NV12 \<noteq> AV_PIX_FMT_YUV420P"
  by (simp_all add: AV_PIX_FMT_YUV420P_def AV_PIX_FMT_NV12_def)

record AVFrame =
  format :: int
  width :: nat
  height :: nat
  data :: "u8 list option list"
  linesize :: "nat list"
  pts :: int
  key_frame :: bool

definition plane :: "AVFrame \<Rightarrow> nat \<Rightarrow> u8 list option" where
  "plane f i = (if i < length (data f) then data f ! i else None)"

definition stride :: "AVFrame \<Rightarrow> nat \<Rightarrow> nat" where
  "stride f i = (if i < length (linesize f) then linesize f ! i else 0)"

text \<open>\<open>n\<close> times \<open>memcpy(dst, src, w); dst += dstep; src += sstep\<close>.\<close>

fun copy_rows ::
    "u8 list \<Rightarrow> nat \<Rightarrow> nat \<Rightarrow> u8 list \<Rightarrow> nat \<Rightarrow> nat \<Rightarrow> nat \<Rightarrow> nat \<Rightarrow> u8 list option" where
  "copy_rows dst d dstep src s sstep w 0 = Some dst"
| "copy_rows dst d dstep src s sstep w (Suc n) =
     Option.bind (load src s w) (\<lambda>row.
     Option.bind (store dst d row) (\<lambda>dst'.
       copy_rows dst' (d + dstep) dstep src (s + sstep) sstep w n))"

text \<open>The rows of \<open>w\<close> visible bytes of a plane of \<open>n\<close> lines.\<close>

definition rows :: "u8 list \<Rightarrow> nat \<Rightarrow> nat \<Rightarrow> nat \<Rightarrow> u8 list list" where
  "rows src sstep w n = map (\<lambda>y. take w (drop (y * sstep) src)) [0..<n]"

lemma rows_0 [simp]: "rows src sstep w 0 = []"
  by (simp add: rows_def)

lemma rows_Suc: "rows src sstep w (Suc n) = take w src # rows (drop sstep src) sstep w n"
  unfolding rows_def
  by (simp add: upt_conv_Cons map_Suc_upt[symmetric] add.commute del: upt_Suc)

lemma length_concat_rows:
  "n = 0 \<or> (n - 1) * sstep + w \<le> length src \<Longrightarrow> length (concat (rows src sstep w n)) = n * w"
proof (induction n)
  case (Suc n)
  have "n = 0 \<or> (n - 1) * sstep + w \<le> length src"
    using Suc.prems by (cases n) (auto simp: algebra_simps)
  then have "length (concat (rows src sstep w n)) = n * w" by (rule Suc.IH)
  moreover have "length (take w (drop (n * sstep) src)) = w" using Suc.prems by simp
  ultimately show ?case by (simp add: rows_def)
qed simp

text \<open>Copying a plane into a packed destination (\<open>dstep = w\<close>): the visible rows one after the
  other, the rest of the destination unchanged.\<close>

lemma copy_rows_packed:
  assumes "n = 0 \<or> s + (n - 1) * sstep + w \<le> length src" "d + n * w \<le> length dst"
  shows "copy_rows dst d w src s sstep w n =
     Some (take d dst @ concat (rows (drop s src) sstep w n) @ drop (d + n * w) dst)"
  using assms
proof (induction n arbitrary: dst d s)
  case 0
  then show ?case by simp
next
  case (Suc n)
  have ld: "load src s w = Some (take w (drop s src))" using Suc.prems by (simp add: load_def)
  have lw: "length (take w (drop s src)) = w" using Suc.prems by auto
  define dst' where "dst' = take d dst @ take w (drop s src) @ drop (d + w) dst"
  have st: "store dst d (take w (drop s src)) = Some dst'"
    using Suc.prems lw by (simp add: store_def dst'_def)
  have l': "length dst' = length dst" using st by (rule store_length)
  have IH: "copy_rows dst' (d + w) w src (s + sstep) sstep w n =
      Some (take (d + w) dst' @ concat (rows (drop (s + sstep) src) sstep w n) @ drop (d + w + n * w) dst')"
    using Suc.prems l' by (intro Suc.IH) (cases n; auto simp: algebra_simps)+
  have t: "take (d + w) dst' = take d dst @ take w (drop s src)"
    using Suc.prems lw by (simp add: dst'_def)
  have r: "drop (d + w + n * w) dst' = drop (d + Suc n * w) dst"
    using Suc.prems lw by (simp add: dst'_def ac_simps)
  have rw: "rows (drop s src) sstep w (Suc n) = take w (drop s src) # rows (drop (s + sstep) src) sstep w n"
    by (simp add: rows_Suc add.commute)
  have "copy_rows dst d w src s sstep w (Suc n) = copy_rows dst' (d + w) w src (s + sstep) sstep w n"
    by (simp add: ld st)
  then show ?case by (simp only: IH t r rw concat.simps append_assoc)
qed

lemma copy_rows_overflow:
  assumes "0 < n" "0 < w" "length dst < d + (n - 1) * dstep + w"
  shows "copy_rows dst d dstep src s sstep w n = None"
  using assms
proof (induction n arbitrary: dst d s)
  case (Suc n)
  show ?case
  proof (cases "load src s w")
    case (Some row)
    show ?thesis
    proof (cases "store dst d row")
      case None
      then show ?thesis by (simp add: Some)
    next
      case st: (Some dst')
      have "d + w \<le> length dst" "length dst' = length dst"
        using st store_length[OF st] load_length[OF Some] by (auto simp: store_eq_Some)
      then have "0 < n" using Suc.prems by (cases n) auto
      then have "copy_rows dst' (d + dstep) dstep src (s + sstep) sstep w n = None"
        using Suc.prems \<open>length dst' = length dst\<close> by (intro Suc.IH) (cases n; auto)+
      then show ?thesis by (simp add: Some st)
    qed
  qed simp
qed simp

end
