(* ===== verification/Queues.thy ===== *)
theory Queues
  imports Prelude
begin

text \<open>
  The interface between the circular buffer of libavutil/fifo.c and its clients. The locale
  \<open>byte_queue\<close> is the contract of the buffer: what a write and a read do to the list of unread
  cells. Clients keep whole objects in it (\<open>av_fifo_generic_write(q, &x, sizeof(x), NULL)\<close>);
  the locale \<open>record_queue\<close> derives from the contract what such a client sees.

  An object of \<open>n\<close> bytes in memory is the list of its \<open>n\<close> fragments, the pairs of the object and
  the position of a byte in it, so that an object is read back only if all its bytes are read, in
  order; a torn read gives \<open>None\<close>.
\<close>

section \<open>Objects as bytes\<close>

definition frag :: "nat \<Rightarrow> 'r \<Rightarrow> ('r \<times> nat) list" where
  "frag n r = map (\<lambda>k. (r, k)) [0..<n]"

definition unfrag :: "nat \<Rightarrow> ('r \<times> nat) list \<Rightarrow> 'r option" where
  "unfrag n bs = (case bs of [] \<Rightarrow> None | (r, _) # _ \<Rightarrow> if bs = frag n r then Some r else None)"

lemma length_frag [simp]: "length (frag n r) = n"
  by (simp add: frag_def)

lemma unfrag_frag [simp]: "0 < n \<Longrightarrow> unfrag n (frag n r) = Some r"
  by (simp add: unfrag_def frag_def upt_conv_Cons)

definition frags :: "nat \<Rightarrow> 'r list \<Rightarrow> ('r \<times> nat) list" where
  "frags n rs = concat (map (frag n) rs)"

lemma frags_simps [simp]:
  "frags n [] = []" "frags n (r # rs) = frag n r @ frags n rs"
  "frags n (rs @ ss) = frags n rs @ frags n ss"
  by (simp_all add: frags_def)

lemma length_frags [simp]: "length (frags n rs) = length rs * n"
  by (induction rs) auto

section \<open>The contract\<close>

locale byte_queue =
  fixes invar :: "'q \<Rightarrow> bool"
    and items :: "'q \<Rightarrow> 'a list"
    and cap :: "'q \<Rightarrow> nat"
    and enq :: "'q \<Rightarrow> 'a list \<Rightarrow> nat \<Rightarrow> (nat \<times> 'q) option"
    and deq :: "'q \<Rightarrow> nat \<Rightarrow> ('a list \<times> 'q) option"
    and level :: "'q \<Rightarrow> int"
    and clear :: "'q \<Rightarrow> 'q"
  assumes bounded: "invar q \<Longrightarrow> length (items q) \<le> cap q"
    and level: "invar q \<Longrightarrow> level q = int (length (items q))"
    and enq: "invar q \<Longrightarrow> n \<le> length bs \<Longrightarrow> length (items q) + n \<le> cap q \<Longrightarrow>
      \<exists>q'. enq q bs n = Some (n, q') \<and> invar q' \<and> items q' = items q @ take n bs \<and> cap q' = cap q"
    and deq: "invar q \<Longrightarrow> n \<le> length (items q) \<Longrightarrow>
      \<exists>q'. deq q n = Some (take n (items q), q') \<and> invar q' \<and> items q' = drop n (items q) \<and> cap q' = cap q"
    and clear: "invar q \<Longrightarrow> invar (clear q) \<and> items (clear q) = [] \<and> cap (clear q) = cap q"

locale record_queue = byte_queue invar items cap enq deq level clear
  for invar :: "'q \<Rightarrow> bool"
    and items :: "'q \<Rightarrow> ('r \<times> nat) list"
    and cap :: "'q \<Rightarrow> nat"
    and enq :: "'q \<Rightarrow> ('r \<times> nat) list \<Rightarrow> nat \<Rightarrow> (nat \<times> 'q) option"
    and deq :: "'q \<Rightarrow> nat \<Rightarrow> (('r \<times> nat) list \<times> 'q) option"
    and level :: "'q \<Rightarrow> int"
    and clear :: "'q \<Rightarrow> 'q" +
  fixes sz :: nat
  assumes sz_pos: "0 < sz"
begin

lemma put:
  assumes "invar q" "items q = frags sz rs" "(length rs + 1) * sz \<le> cap q"
  shows "\<exists>q'. enq q (frag sz r) sz = Some (sz, q') \<and> invar q' \<and>
     items q' = frags sz (rs @ [r]) \<and> cap q' = cap q"
  using enq[OF assms(1), of sz "frag sz r"] assms(2,3) by auto

lemma get:
  assumes "invar q" "items q = frags sz (r # rs)"
  shows "\<exists>q'. deq q sz = Some (frag sz r, q') \<and> unfrag sz (frag sz r) = Some r \<and> invar q' \<and>
     items q' = frags sz rs \<and> cap q' = cap q"
  using deq[OF assms(1), of sz] assms(2) sz_pos by auto

lemma count:
  assumes "invar q" "items q = frags sz rs"
  shows "level q div int sz = int (length rs)"
  using level[OF assms(1)] assms(2) sz_pos by simp

lemma none_left:
  assumes "invar q" "items q = frags sz rs"
  shows "level q > 0 \<longleftrightarrow> rs \<noteq> []"
  using level[OF assms(1)] assms(2) sz_pos by auto

lemma fits:
  assumes "invar q" "items q = frags sz rs"
  shows "length rs * sz \<le> cap q"
  using bounded[OF assms(1)] assms(2) by simp

end

end
