(* ===== verification/Fifo.thy ===== *)
theory Fifo
  imports Queues
begin

text \<open>
  The circular byte buffer of libavutil/fifo.c: the struct \<open>AVFifoBuffer\<close>, every operation of
  the file, its invariant, and the refinement of the pointer-level code to a list of the bytes
  still unread. Pointers into the buffer are offsets, the pointer \<open>end\<close> is the length of the
  buffer, and the two running indices are 32-bit words that wrap as in the code.
  \<open>None\<close> is a copy outside the buffer or a loop that does not end. The memory the allocator
  hands out is a parameter \<open>malloc\<close>: its initial contents are unknown, \<open>None\<close> is a failed
  allocation. The asserts of level 2 are compiled out in a default build and are not modelled.
\<close>

section \<open>State\<close>

record 'a AVFifoBuffer =
  buffer :: "'a list"
  rptr :: nat
  wptr :: nat
  rndx :: u32
  wndx :: u32

abbreviation fend :: "'a AVFifoBuffer \<Rightarrow> nat" where
  "fend f \<equiv> length (buffer f)"

section \<open>Operations\<close>

definition av_fifo_reset :: "'a AVFifoBuffer \<Rightarrow> 'a AVFifoBuffer" where
  "av_fifo_reset f = f\<lparr>wptr := 0, rptr := 0, wndx := 0, rndx := 0\<rparr>"

definition fifo_alloc_common :: "'a list option \<Rightarrow> bool \<Rightarrow> 'a AVFifoBuffer option" where
  "fifo_alloc_common buf struct_ok =
     (case buf of
        None \<Rightarrow> None
      | Some b \<Rightarrow>
          if \<not> struct_ok then None
          else Some (av_fifo_reset \<lparr>buffer = b, rptr = 0, wptr = 0, rndx = 0, wndx = 0\<rparr>))"

definition av_fifo_alloc :: "(nat \<Rightarrow> 'a list option) \<Rightarrow> bool \<Rightarrow> nat \<Rightarrow> 'a AVFifoBuffer option" where
  "av_fifo_alloc malloc struct_ok sz = fifo_alloc_common (av_malloc malloc sz) struct_ok"

definition av_fifo_alloc_array ::
    "(nat \<Rightarrow> 'a list option) \<Rightarrow> bool \<Rightarrow> nat \<Rightarrow> nat \<Rightarrow> 'a AVFifoBuffer option" where
  "av_fifo_alloc_array malloc struct_ok nmemb sz =
     fifo_alloc_common (av_malloc_array malloc nmemb sz) struct_ok"

text \<open>Through \<open>av_fifo_freep\<close> the caller's pointer becomes \<open>NULL\<close>.\<close>

definition av_fifo_freep :: "'a AVFifoBuffer option \<Rightarrow> 'a AVFifoBuffer option" where
  "av_fifo_freep f = None"

definition av_fifo_size :: "'a AVFifoBuffer \<Rightarrow> int" where
  "av_fifo_size f = sint (wndx f - rndx f)"

definition av_fifo_space :: "'a AVFifoBuffer \<Rightarrow> int" where
  "av_fifo_space f = s32 (int (fend f) - av_fifo_size f)"

definition av_fifo_drain :: "'a AVFifoBuffer \<Rightarrow> nat \<Rightarrow> 'a AVFifoBuffer" where
  "av_fifo_drain f sz =
     (let p = rptr f + sz;
          p = (if p \<ge> fend f then p - fend f else p)
      in f\<lparr>rptr := p, rndx := rndx f + of_nat sz\<rparr>)"

text \<open>The write loop with \<open>func == NULL\<close> (a \<open>memcpy\<close> from \<open>src\<close>).\<close>

partial_function (option) write_loop ::
    "'a list \<Rightarrow> nat \<Rightarrow> u32 \<Rightarrow> 'a list \<Rightarrow> nat \<Rightarrow> ('a list \<times> nat \<times> u32 \<times> nat) option" where
  "write_loop buf wp wn src sz =
     (let len = min (length buf - wp) sz in
      Option.bind (load src 0 len) (\<lambda>chunk.
      Option.bind (store buf wp chunk) (\<lambda>buf'.
        (let wp' = (if wp + len \<ge> length buf then 0 else wp + len);
             wn' = wn + of_nat len;
             sz' = sz - len
         in if sz' > 0 then write_loop buf' wp' wn' (drop len src) sz'
            else Some (buf', wp', wn', sz')))))"

definition av_fifo_generic_write ::
    "'a AVFifoBuffer \<Rightarrow> 'a list \<Rightarrow> nat \<Rightarrow> (nat \<times> 'a AVFifoBuffer) option" where
  "av_fifo_generic_write f src sz =
     Option.bind (write_loop (buffer f) (wptr f) (wndx f) src sz) (\<lambda>(buf, wp, wn, rest).
       Some (sz - rest, f\<lparr>buffer := buf, wptr := wp, wndx := wn\<rparr>))"

text \<open>
  The same loop with a producer: \<open>func src len\<close> returns its updated context, the bytes it put
  at the write pointer, and its return code; a code that is not positive leaves the loop.
\<close>

partial_function (option) write_loop_func ::
    "('s \<Rightarrow> nat \<Rightarrow> 's \<times> 'a list \<times> int) \<Rightarrow> 'a list \<Rightarrow> nat \<Rightarrow> u32 \<Rightarrow> 's \<Rightarrow> nat
       \<Rightarrow> ('a list \<times> nat \<times> u32 \<times> 's \<times> nat) option" where
  "write_loop_func func buf wp wn src sz =
     (let len = min (length buf - wp) sz;
          (src', chunk, ret) = func src len
      in Option.bind (store buf wp chunk) (\<lambda>buf'.
         if ret \<le> 0 then Some (buf', wp, wn, src', sz)
         else
           (let wp' = (if wp + nat ret \<ge> length buf then 0 else wp + nat ret);
                wn' = wn + of_nat (nat ret);
                sz' = sz - nat ret
            in if sz' > 0 then write_loop_func func buf' wp' wn' src' sz'
               else Some (buf', wp', wn', src', sz'))))"

definition av_fifo_generic_write_func ::
    "('s \<Rightarrow> nat \<Rightarrow> 's \<times> 'a list \<times> int) \<Rightarrow> 'a AVFifoBuffer \<Rightarrow> 's \<Rightarrow> nat
       \<Rightarrow> (nat \<times> 's \<times> 'a AVFifoBuffer) option" where
  "av_fifo_generic_write_func func f src sz =
     Option.bind (write_loop_func func (buffer f) (wptr f) (wndx f) src sz)
       (\<lambda>(buf, wp, wn, src', rest).
         Some (sz - rest, src', f\<lparr>buffer := buf, wptr := wp, wndx := wn\<rparr>))"

text \<open>
  The readers hand each chunk to \<open>func\<close>, a consumer with its own context \<open>dest\<close>;
  \<open>func == NULL\<close> is the consumer \<open>memcpy_dest\<close>, which appends the chunk to the
  destination and advances it.
\<close>

definition memcpy_dest :: "'a list \<Rightarrow> 'a list \<Rightarrow> 'a list" where
  "memcpy_dest dest chunk = dest @ chunk"

partial_function (option) peek_at_loop ::
    "('s \<Rightarrow> 'a list \<Rightarrow> 's) \<Rightarrow> 'a list \<Rightarrow> nat \<Rightarrow> 's \<Rightarrow> nat \<Rightarrow> 's option" where
  "peek_at_loop func buf rp dest buf_size =
     (if buf_size > 0 then
        (let rp0 = (if rp \<ge> length buf then rp - length buf else rp);
             len = min (length buf - rp0) buf_size
         in Option.bind (load buf rp0 len) (\<lambda>chunk.
              peek_at_loop func buf (rp0 + len) (func dest chunk) (buf_size - len)))
      else Some dest)"

definition av_fifo_generic_peek_at ::
    "('s \<Rightarrow> 'a list \<Rightarrow> 's) \<Rightarrow> 'a AVFifoBuffer \<Rightarrow> 's \<Rightarrow> nat \<Rightarrow> nat \<Rightarrow> 's option" where
  "av_fifo_generic_peek_at func f dest offset buf_size =
     (let rp = (if offset \<ge> fend f - rptr f then rptr f + offset - fend f
                else rptr f + offset)
      in peek_at_loop func (buffer f) rp dest buf_size)"

partial_function (option) peek_loop ::
    "('s \<Rightarrow> 'a list \<Rightarrow> 's) \<Rightarrow> 'a list \<Rightarrow> nat \<Rightarrow> 's \<Rightarrow> nat \<Rightarrow> 's option" where
  "peek_loop func buf rp dest buf_size =
     (let len = min (length buf - rp) buf_size in
      Option.bind (load buf rp len) (\<lambda>chunk.
        (let dest' = func dest chunk;
             rp' = (if rp + len \<ge> length buf then rp + len - length buf else rp + len);
             sz' = buf_size - len
         in if sz' > 0 then peek_loop func buf rp' dest' sz' else Some dest')))"

definition av_fifo_generic_peek ::
    "('s \<Rightarrow> 'a list \<Rightarrow> 's) \<Rightarrow> 'a AVFifoBuffer \<Rightarrow> 's \<Rightarrow> nat \<Rightarrow> 's option" where
  "av_fifo_generic_peek func f dest buf_size =
     peek_loop func (buffer f) (rptr f) dest buf_size"

partial_function (option) av_fifo_generic_read ::
    "('s \<Rightarrow> 'a list \<Rightarrow> 's) \<Rightarrow> 'a AVFifoBuffer \<Rightarrow> 's \<Rightarrow> nat \<Rightarrow> ('s \<times> 'a AVFifoBuffer) option" where
  "av_fifo_generic_read func f dest buf_size =
     (let len = min (fend f - rptr f) buf_size in
      Option.bind (load (buffer f) (rptr f) len) (\<lambda>chunk.
        (let dest' = func dest chunk;
             f' = av_fifo_drain f len;
             sz' = buf_size - len
         in if sz' > 0 then av_fifo_generic_read func f' dest' sz' else Some (dest', f'))))"

text \<open>\<open>av_fifo_peek2\<close> (libavutil/fifo.h): the offset of the byte \<open>offs\<close> places after the read
  pointer, also for a negative \<open>offs\<close>.\<close>

definition av_fifo_peek2 :: "'a AVFifoBuffer \<Rightarrow> int \<Rightarrow> int" where
  "av_fifo_peek2 f offs =
     (let ptr = int (rptr f) + offs in
      if ptr \<ge> int (fend f) then ptr - int (fend f)
      else if ptr < 0 then int (fend f) - (0 - ptr)
      else ptr)"

definition av_fifo_realloc2 ::
    "(nat \<Rightarrow> 'a list option) \<Rightarrow> bool \<Rightarrow> 'a AVFifoBuffer \<Rightarrow> nat \<Rightarrow> (int \<times> 'a AVFifoBuffer) option" where
  "av_fifo_realloc2 malloc struct_ok f new_size =
     (let old_size = fend f in
      if old_size < new_size then
        (let len = nat (av_fifo_size f) in
         case av_fifo_alloc malloc struct_ok new_size of
           None \<Rightarrow> Some (ENOMEM, f)
         | Some f2 \<Rightarrow>
             Option.bind (av_fifo_generic_read memcpy_dest f [] len) (\<lambda>(dest, _).
             Option.bind (store (buffer f2) 0 dest) (\<lambda>b2.
               Some (0, f2\<lparr>buffer := b2, wptr := wptr f2 + len, wndx := wndx f2 + of_nat len\<rparr>))))
      else Some (0, f))"

definition av_fifo_grow ::
    "(nat \<Rightarrow> 'a list option) \<Rightarrow> bool \<Rightarrow> 'a AVFifoBuffer \<Rightarrow> nat \<Rightarrow> (int \<times> 'a AVFifoBuffer) option" where
  "av_fifo_grow malloc struct_ok f sz =
     (let old_size = fend f;
          used = nat (u32_of (av_fifo_size f))
      in if (sz + used) mod 2 ^ 32 < sz then Some (EINVAL, f)
         else
           (let sz' = (sz + used) mod 2 ^ 32 in
            if old_size < sz'
            then av_fifo_realloc2 malloc struct_ok f (max sz' ((2 * old_size) mod 2 ^ 32))
            else Some (0, f)))"

section \<open>The ring as a list\<close>

definition fifo_used :: "'a AVFifoBuffer \<Rightarrow> nat" where
  "fifo_used f = unat (wndx f - rndx f)"

definition ring :: "'a list \<Rightarrow> nat \<Rightarrow> nat \<Rightarrow> 'a list" where
  "ring buf p n = map (\<lambda>i. buf ! ((p + i) mod length buf)) [0..<n]"

text \<open>The bytes written and not yet read, oldest first.\<close>

definition contents :: "'a AVFifoBuffer \<Rightarrow> 'a list" where
  "contents f = ring (buffer f) (rptr f) (fifo_used f)"

text \<open>The pointers and indices agree; the level may exceed the size after an overrun.\<close>

definition ring_ok :: "'a AVFifoBuffer \<Rightarrow> bool" where
  "ring_ok f \<longleftrightarrow>
     0 < fend f \<and> fend f \<le> max_alloc_size \<and> rptr f < fend f \<and> wptr f < fend f \<and>
     wptr f = (rptr f + fifo_used f) mod fend f"

definition fifo_ok :: "'a AVFifoBuffer \<Rightarrow> bool" where
  "fifo_ok f \<longleftrightarrow>
     0 < fend f \<and> fend f \<le> max_alloc_size \<and> rptr f < fend f \<and> wptr f < fend f \<and>
     fifo_used f \<le> fend f \<and> wptr f = (rptr f + fifo_used f) mod fend f"

lemma fifo_ok_ring: "fifo_ok f \<longleftrightarrow> ring_ok f \<and> fifo_used f \<le> fend f"
  by (auto simp: fifo_ok_def ring_ok_def)

lemma length_ring [simp]: "length (ring buf p n) = n"
  by (simp add: ring_def)

lemma ring_0 [simp]: "ring buf p 0 = []"
  by (simp add: ring_def)

lemma ring_nth [simp]: "i < n \<Longrightarrow> ring buf p n ! i = buf ! ((p + i) mod length buf)"
  by (simp add: ring_def)

lemma ring_mod [simp]: "ring buf (p mod length buf) n = ring buf p n"
  by (simp add: ring_def mod_simps)

lemma ring_add: "ring buf p (m + n) = ring buf p m @ ring buf (p + m) n"
  by (rule nth_equalityI) (auto simp: nth_append algebra_simps)

lemma ring_take: "m \<le> n \<Longrightarrow> take m (ring buf p n) = ring buf p m"
  by (rule nth_equalityI) auto

lemma ring_drop: "m \<le> n \<Longrightarrow> drop m (ring buf p n) = ring buf (p + m) (n - m)"
  by (rule nth_equalityI) (auto simp: algebra_simps)

lemma ring_linear: "p + n \<le> length buf \<Longrightarrow> take n (drop p buf) = ring buf p n"
  by (rule nth_equalityI) auto

lemma length_contents [simp]: "length (contents f) = fifo_used f"
  by (simp add: contents_def)

lemma ptr_wrap:
  assumes "p < N" "n \<le> N - p"
  shows "(if p + n \<ge> N then 0 else p + n) = (p + n) mod (N::nat)"
    and "(if p + n \<ge> N then p + n - N else p + n) = (p + n) mod N"
  using assms by (cases "p + n = N"; simp)+

lemma fifo_size_used:
  assumes "fifo_used f < 2147483648"
  shows "av_fifo_size f = int (fifo_used f)"
proof -
  have u: "uint (wndx f - rndx f) = int (fifo_used f)"
    by (simp only: fifo_used_def unat_eq_nat_uint) simp
  have "sint (wndx f - rndx f) = signed_take_bit 31 (int (fifo_used f))"
    by (simp add: sint_uint u)
  also have "\<dots> = int (fifo_used f)"
    using assms by (intro signed_take_bit_int_eq_self) auto
  finally show ?thesis by (simp add: av_fifo_size_def)
qed

lemma fifo_ok_size: "fifo_ok f \<Longrightarrow> av_fifo_size f = int (fifo_used f)"
  by (rule fifo_size_used) (auto simp: fifo_ok_def max_alloc_size_def)

lemma used_advance:
  fixes w r :: u32
  assumes "unat (w - r) + n < 2 ^ 32"
  shows "unat (w + of_nat n - r) = unat (w - r) + n"
proof -
  have "w + of_nat n - r = (w - r) + of_nat n" by simp
  also have "unat \<dots> = (unat (w - r) + unat (of_nat n :: u32)) mod 2 ^ 32"
    by (simp only: unat_word_ariths) simp
  also have "unat (of_nat n :: u32) = n"
    using assms by (simp add: unat_of_nat)
  finally show ?thesis using assms by simp
qed

lemma used_retreat:
  fixes w r :: u32
  assumes "n \<le> unat (w - r)"
  shows "unat (w - (r + of_nat n)) = unat (w - r) - n"
proof -
  have "unat (w - r) < 2 ^ 32" using unsigned_less[of "w - r"] by simp
  then have n: "unat (of_nat n :: u32) = n" using assms by (simp add: unat_of_nat)
  have "w - (r + of_nat n) = (w - r) - of_nat n" by simp
  moreover have "of_nat n \<le> w - r" using assms n by (simp add: word_le_nat_alt)
  ultimately show ?thesis using n unat_sub[of "of_nat n" "w - r"] by presburger
qed

section \<open>The loops\<close>

definition overwritten :: "'a list \<Rightarrow> nat \<Rightarrow> 'a list \<Rightarrow> nat \<Rightarrow> 'a list \<Rightarrow> bool" where
  "overwritten buf p src n buf' \<longleftrightarrow>
     length buf' = length buf \<and>
     (\<forall>i < length buf. buf' ! ((p + i) mod length buf) =
        (if i < n then src ! i else buf ! ((p + i) mod length buf)))"

lemma store_overwritten:
  assumes "store buf p (take n src) = Some buf'" "n \<le> length src" "p < length buf"
    "p + n \<le> length buf"
  shows "overwritten buf p src n buf'"
  unfolding overwritten_def
proof (intro conjI allI impI)
  show "length buf' = length buf" using assms(1) by (rule store_length)
  fix i assume i: "i < length buf"
  let ?q = "(p + i) mod length buf"
  have q: "?q < length buf" using assms(3) by (rule mod_in_bounds)
  have nth: "buf' ! ?q = (if p \<le> ?q \<and> ?q < p + n then (take n src) ! (?q - p) else buf ! ?q)"
    using store_nth[OF assms(1) q] assms(2) by simp
  show "buf' ! ?q = (if i < n then src ! i else buf ! ?q)"
  proof (cases "p + i < length buf")
    case True
    then show ?thesis using nth assms by simp
  next
    case False
    then have "?q = p + i - length buf" using i assms by (simp add: mod_if)
    moreover have "p + i - length buf < p" using i assms False by linarith
    ultimately have "\<not> p \<le> ?q" by simp
    moreover have "\<not> i < n" using False assms by simp
    ultimately show ?thesis using nth by simp
  qed
qed

lemma overwritten_append:
  assumes "overwritten buf p src m b" "overwritten b ((p + m) mod length buf) (drop m src) k c"
    "m + k \<le> length buf" "m + k \<le> length src"
  shows "overwritten buf p src (m + k) c"
  unfolding overwritten_def
proof (intro conjI allI impI)
  let ?N = "length buf"
  have b: "length b = ?N" "\<And>i. i < ?N \<Longrightarrow> b ! ((p + i) mod ?N) =
      (if i < m then src ! i else buf ! ((p + i) mod ?N))"
    using assms(1) by (auto simp: overwritten_def)
  have c: "length c = ?N" "\<And>j. j < ?N \<Longrightarrow> c ! ((p + m + j) mod ?N) =
      (if j < k then src ! (m + j) else b ! ((p + m + j) mod ?N))"
    using assms(2-) b(1) by (auto simp: overwritten_def mod_add_left_eq)
  show "length c = ?N" by (fact c(1))
  fix i assume i: "i < ?N"
  show "c ! ((p + i) mod ?N) = (if i < m + k then src ! i else buf ! ((p + i) mod ?N))"
  proof (cases "i < m")
    case True
    have "p + m + (?N - m + i) = p + i + ?N" using assms(3) by simp
    then have e: "(p + m + (?N - m + i)) mod ?N = (p + i) mod ?N" by (metis mod_add_self2)
    have lt: "?N - m + i < ?N" "\<not> ?N - m + i < k" using True assms(3) by auto
    have "c ! ((p + i) mod ?N) = b ! ((p + i) mod ?N)"
      using c(2)[OF lt(1)] lt(2) by (simp only: e if_False)
    then show ?thesis using b(2)[OF i] True by simp
  next
    case False
    then show ?thesis using c(2)[of "i - m"] b(2)[OF i] i by auto
  qed
qed

section \<open>The loops\<close>

text \<open>The loop ends on every buffer that is not empty, whatever the size, and moves the write
  pointer and the write index by exactly that size.\<close>

lemma write_loop_total:
  assumes "wp < length buf" "n \<le> length src"
  shows "\<exists>buf'. write_loop buf wp wn src n =
     Some (buf', (wp + n) mod length buf, wn + of_nat n, 0) \<and> length buf' = length buf"
  using assms
proof (induction n arbitrary: buf wp wn src rule: less_induct)
  case (less n)
  define len where "len = min (length buf - wp) n"
  have len: "len \<le> n" "len \<le> length buf - wp" "wp + len \<le> length buf"
    using less.prems by (auto simp: len_def)
  obtain b where b: "store buf wp (take len src) = Some b"
    using len less.prems by (simp add: store_def)
  have lb: "length b = length buf" using b by (rule store_length)
  have wrap: "(if wp + len \<ge> length buf then 0 else wp + len) = (wp + len) mod length buf"
    using less.prems len by (intro ptr_wrap)
  have ld: "load src 0 len = Some (take len src)"
    using less.prems len by (simp add: load_def)
  have unf: "write_loop buf wp wn src n =
     (if n - len > 0 then write_loop b ((wp + len) mod length buf) (wn + of_nat len) (drop len src) (n - len)
      else Some (b, (wp + len) mod length buf, wn + of_nat len, n - len))"
    by (subst write_loop.simps) (simp add: Let_def ld b wrap flip: len_def)
  show ?case
  proof (cases "n - len > 0")
    case False
    then show ?thesis using unf lb len by (auto simp: lb)
  next
    case True
    then have "len > 0" using less.prems by (auto simp: len_def min_def split: if_splits)
    then have "\<exists>buf'. write_loop b ((wp + len) mod length buf) (wn + of_nat len) (drop len src) (n - len) =
       Some (buf', ((wp + len) mod length buf + (n - len)) mod length b,
             wn + of_nat len + of_nat (n - len), 0) \<and> length buf' = length b"
      using less.prems True lb
      by (intro less.IH) (auto intro: mod_in_bounds)
    moreover have "((wp + len) mod length buf + (n - len)) mod length buf = (wp + n) mod length buf"
      using len by (simp only: mod_add_left_eq) simp
    moreover have "of_nat len + of_nat (n - len) = (of_nat n :: u32)"
      using len by (simp flip: of_nat_add)
    ultimately show ?thesis using unf True lb by (auto simp: add.assoc)
  qed
qed

text \<open>With no more than a buffer's worth of bytes, the source lands at the write pointer and on,
  and every other cell keeps its byte.\<close>

lemma write_loop_overwritten:
  assumes "write_loop buf wp wn src n = Some (buf', wp', wn', rest)"
    "wp < length buf" "n \<le> length src" "n \<le> length buf"
  shows "overwritten buf wp src n buf'"
  using assms
proof (induction n arbitrary: buf wp wn src rule: less_induct)
  case (less n)
  define len where "len = min (length buf - wp) n"
  have len: "len \<le> n" "wp + len \<le> length buf" "len \<le> length src"
    using less.prems by (auto simp: len_def)
  obtain b where b: "store buf wp (take len src) = Some b"
    using len by (simp add: store_def)
  have lb: "length b = length buf" using b by (rule store_length)
  have wrap: "(if wp + len \<ge> length buf then 0 else wp + len) = (wp + len) mod length buf"
    using less.prems len by (intro ptr_wrap) (auto simp: len_def)
  have ov: "overwritten buf wp src len b"
    using b len less.prems by (intro store_overwritten) auto
  have unf: "write_loop buf wp wn src n =
     (if n - len > 0 then write_loop b ((wp + len) mod length buf) (wn + of_nat len) (drop len src) (n - len)
      else Some (b, (wp + len) mod length buf, wn + of_nat len, n - len))"
    using len by (subst write_loop.simps) (simp add: Let_def load_def b wrap flip: len_def)
  show ?case
  proof (cases "n - len > 0")
    case False
    then have "buf' = b" "n = len" using unf less.prems len by auto
    then show ?thesis using ov by simp
  next
    case True
    then have "len > 0" using less.prems by (auto simp: len_def min_def split: if_splits)
    then have "overwritten b ((wp + len) mod length buf) (drop len src) (n - len) buf'"
      using less.prems True lb unf by (intro less.IH) (auto intro: mod_in_bounds)
    from overwritten_append[OF ov this] show ?thesis using len less.prems by simp
  qed
qed

lemma ring_overwritten:
  assumes ov: "overwritten buf w src n buf'" and w: "w = (r + u) mod length buf"
    and "u + n \<le> length buf" "n \<le> length src" "0 < length buf"
  shows "ring buf' r (u + n) = ring buf r u @ take n src"
proof (rule nth_equalityI)
  let ?N = "length buf"
  show "length (ring buf' r (u + n)) = length (ring buf r u @ take n src)"
    using assms by simp
  fix i assume "i < length (ring buf' r (u + n))"
  then have i: "i < u + n" by simp
  have len: "length buf' = ?N" using ov by (simp add: overwritten_def)
  have ovD: "buf' ! ((w + j) mod ?N) = (if j < n then src ! j else buf ! ((w + j) mod ?N))"
    if "j < ?N" for j using ov that by (simp add: overwritten_def)
  show "ring buf' r (u + n) ! i = (ring buf r u @ take n src) ! i"
  proof (cases "i < u")
    case True
    have "(w + (?N - u + i)) mod ?N = (r + u + (?N - u + i)) mod ?N"
      by (simp only: w mod_add_left_eq)
    also have "\<dots> = (r + i + ?N) mod ?N" using assms(3) by (simp add: ac_simps)
    finally have e: "(w + (?N - u + i)) mod ?N = (r + i) mod ?N" by simp
    have lt: "?N - u + i < ?N" "\<not> ?N - u + i < n" using True assms(3) by auto
    have "buf' ! ((r + i) mod ?N) = buf ! ((r + i) mod ?N)"
      using ovD[OF lt(1)] lt(2) by (simp only: e if_False)
    then show ?thesis using True i len by (simp add: nth_append)
  next
    case False
    have "(w + (i - u)) mod ?N = (r + u + (i - u)) mod ?N"
      by (simp only: w mod_add_left_eq)
    then have e: "(w + (i - u)) mod ?N = (r + i) mod ?N" using False by simp
    have lt: "i - u < ?N" "i - u < n" using False i assms(3) by auto
    have "buf' ! ((r + i) mod ?N) = src ! (i - u)"
      using ovD[OF lt(1)] lt(2) by (simp only: e if_True)
    then show ?thesis using False i len lt assms(4) by (simp add: nth_append)
  qed
qed

text \<open>The peeking loops hand on the ring from the read pointer, in at most a few chunks.\<close>

lemma peek_loop_chunks:
  assumes "rp < length buf"
  shows "\<exists>chunks. concat chunks = ring buf rp n \<and>
     peek_loop func buf rp dest n = Some (foldl func dest chunks)"
  using assms
proof (induction n arbitrary: rp dest rule: less_induct)
  case (less n)
  define len where "len = min (length buf - rp) n"
  have len: "len \<le> n" "rp + len \<le> length buf" using less.prems by (auto simp: len_def)
  have wrap: "(if rp + len \<ge> length buf then rp + len - length buf else rp + len)
      = (rp + len) mod length buf"
    using less.prems len by (intro ptr_wrap) (auto simp: len_def)
  have ld: "load buf rp len = Some (ring buf rp len)"
    using len by (simp add: load_def ring_linear)
  have unf: "peek_loop func buf rp dest n =
      (if n - len > 0 then peek_loop func buf ((rp + len) mod length buf) (func dest (ring buf rp len)) (n - len)
       else Some (func dest (ring buf rp len)))"
    by (subst peek_loop.simps) (simp add: Let_def ld wrap flip: len_def)
  show ?case
  proof (cases "n - len > 0")
    case False
    then show ?thesis using unf len by (intro exI[of _ "[ring buf rp len]"]) simp
  next
    case True
    then have "len > 0" using less.prems by (auto simp: len_def min_def split: if_splits)
    then obtain chunks where "concat chunks = ring buf ((rp + len) mod length buf) (n - len)"
      "peek_loop func buf ((rp + len) mod length buf) (func dest (ring buf rp len)) (n - len)
        = Some (foldl func (func dest (ring buf rp len)) chunks)"
      using less.IH[of "n - len" "(rp + len) mod length buf" "func dest (ring buf rp len)"]
        True mod_in_bounds[OF less.prems] by auto
    then show ?thesis
      using unf True len ring_add[of buf rp len "n - len"]
      by (intro exI[of _ "ring buf rp len # chunks"]) simp
  qed
qed

lemma peek_at_loop_chunks:
  assumes "rp \<le> length buf" "0 < length buf"
  shows "\<exists>chunks. concat chunks = ring buf rp n \<and>
     peek_at_loop func buf rp dest n = Some (foldl func dest chunks)"
  using assms
proof (induction n arbitrary: rp dest rule: less_induct)
  case (less n)
  define rp0 where "rp0 = (if rp \<ge> length buf then rp - length buf else rp)"
  define len where "len = min (length buf - rp0) n"
  have rp0: "rp0 < length buf" "rp0 = rp mod length buf"
    using less.prems by (auto simp: rp0_def le_less)
  have len: "len \<le> n" "rp0 + len \<le> length buf" using rp0 by (auto simp: len_def)
  have r: "ring buf rp m = ring buf rp0 m" for m using rp0(2) by simp
  have ld: "load buf rp0 len = Some (ring buf rp len)"
    using len r by (simp add: load_def ring_linear)
  have unf: "peek_at_loop func buf rp dest n =
      (if n > 0 then peek_at_loop func buf (rp0 + len) (func dest (ring buf rp len)) (n - len)
       else Some dest)"
    by (subst peek_at_loop.simps) (simp add: Let_def ld flip: rp0_def len_def)
  show ?case
  proof (cases "n > 0")
    case False
    then show ?thesis using unf by (intro exI[of _ "[]"]) simp
  next
    case True
    then have "len > 0" using rp0 by (auto simp: len_def)
    then obtain chunks where "concat chunks = ring buf (rp0 + len) (n - len)"
      "peek_at_loop func buf (rp0 + len) (func dest (ring buf rp len)) (n - len)
        = Some (foldl func (func dest (ring buf rp len)) chunks)"
      using less.IH[of "n - len" "rp0 + len" "func dest (ring buf rp len)"] True len less.prems
      by auto
    then show ?thesis
      using unf True len r ring_add[of buf rp0 len "n - len"]
      by (intro exI[of _ "ring buf rp len # chunks"]) simp
  qed
qed

lemma foldl_memcpy_dest [simp]: "foldl memcpy_dest d chunks = d @ concat chunks"
  by (induction chunks arbitrary: d) (simp_all add: memcpy_dest_def)

lemma foldl_memcpy_dest' [simp]: "foldl (\<lambda>d c. d @ c) d chunks = d @ concat chunks"
  by (induction chunks arbitrary: d) simp_all

section \<open>Refinement of the operations to the list of unread bytes\<close>

lemma fifo_alloc_ok:
  assumes "malloc_ok malloc" "0 < n" "av_fifo_alloc malloc ok n = Some f"
  shows "fifo_ok f \<and> contents f = [] \<and> fend f = n \<and> rptr f = 0 \<and> wptr f = 0 \<and> wndx f = 0 \<and> rndx f = 0"
  using assms av_malloc_SomeD[of malloc n]
  by (auto simp: av_fifo_alloc_def fifo_alloc_common_def av_fifo_reset_def fifo_ok_def
      fifo_used_def contents_def split: option.splits if_splits)

lemma fifo_write_refines:
  assumes ok: "fifo_ok f" and n: "n \<le> length src" "fifo_used f + n \<le> fend f"
  shows "\<exists>f'. av_fifo_generic_write f src n = Some (n, f') \<and> fifo_ok f' \<and>
     contents f' = contents f @ take n src \<and> fend f' = fend f"
proof -
  obtain buf' where w: "write_loop (buffer f) (wptr f) (wndx f) src n =
      Some (buf', (wptr f + n) mod fend f, wndx f + of_nat n, 0)" and l: "length buf' = fend f"
    using write_loop_total[of "wptr f" "buffer f" n src "wndx f"] ok n by (auto simp: fifo_ok_def)
  define f' where "f' = f\<lparr>buffer := buf', wptr := (wptr f + n) mod fend f, wndx := wndx f + of_nat n\<rparr>"
  have used: "fifo_used f' = fifo_used f + n"
    using n ok by (simp add: f'_def fifo_used_def fifo_ok_def max_alloc_size_def used_advance)
  have "overwritten (buffer f) (wptr f) src n buf'"
    using write_loop_overwritten[OF w] ok n by (simp add: fifo_ok_def)
  then have "ring buf' (rptr f) (fifo_used f + n) = ring (buffer f) (rptr f) (fifo_used f) @ take n src"
    using ok n by (intro ring_overwritten) (auto simp: fifo_ok_def)
  then have c: "contents f' = contents f @ take n src"
    unfolding contents_def used by (simp add: f'_def)
  have "fifo_ok f'"
    unfolding fifo_ok_def used using ok n l
    by (auto simp: f'_def fifo_ok_def mod_simps ac_simps intro: mod_in_bounds)
  moreover have "av_fifo_generic_write f src n = Some (n, f')"
    by (simp add: av_fifo_generic_write_def w f'_def)
  ultimately show ?thesis using c l by (auto simp: f'_def)
qed

text \<open>Without the space check, which the function leaves to its caller, the running index and
  the capacity disagree afterwards: the reader will be handed overwritten bytes.\<close>

lemma fifo_write_overflow:
  assumes ok: "fifo_ok f" and n: "n \<le> length src" "n \<le> max_alloc_size" "fend f < fifo_used f + n"
  shows "\<exists>f'. av_fifo_generic_write f src n = Some (n, f') \<and> fend f' = fend f \<and>
     fifo_used f' = fifo_used f + n \<and> \<not> fifo_ok f'"
proof -
  obtain buf' where w: "write_loop (buffer f) (wptr f) (wndx f) src n =
      Some (buf', (wptr f + n) mod fend f, wndx f + of_nat n, 0)" and l: "length buf' = fend f"
    using write_loop_total[of "wptr f" "buffer f" n src "wndx f"] ok n by (auto simp: fifo_ok_def)
  define f' where "f' = f\<lparr>buffer := buf', wptr := (wptr f + n) mod fend f, wndx := wndx f + of_nat n\<rparr>"
  have used: "fifo_used f' = fifo_used f + n"
    using n ok by (simp add: f'_def fifo_used_def fifo_ok_def max_alloc_size_def used_advance)
  have "av_fifo_generic_write f src n = Some (n, f')"
    by (simp add: av_fifo_generic_write_def w f'_def)
  moreover have "fend f' = fend f" by (simp add: f'_def l)
  moreover have "\<not> fifo_ok f'" using used n(3) \<open>fend f' = fend f\<close> by (simp add: fifo_ok_def)
  ultimately show ?thesis using used by blast
qed

text \<open>A write into a full buffer: the oldest bytes are replaced by the new ones, which the reader
  meets twice.\<close>

lemma fifo_write_full:
  assumes ok: "fifo_ok f" "fifo_used f = fend f" and n: "n \<le> length src" "n \<le> fend f"
  shows "\<exists>f'. av_fifo_generic_write f src n = Some (n, f') \<and> ring_ok f' \<and> fend f' = fend f \<and>
     contents f' = take n src @ drop n (contents f) @ take n src"
proof -
  let ?r = "rptr f" and ?N = "fend f"
  have w: "wptr f = ?r" and r: "?r < ?N" "?N \<le> max_alloc_size" using ok by (auto simp: fifo_ok_def)
  obtain buf' where wl: "write_loop (buffer f) ?r (wndx f) src n =
      Some (buf', (?r + n) mod ?N, wndx f + of_nat n, 0)" and l: "length buf' = ?N"
    using write_loop_total[OF r(1) n(1), of "wndx f"] by auto
  define f' where "f' = f\<lparr>buffer := buf', wptr := (?r + n) mod ?N, wndx := wndx f + of_nat n\<rparr>"
  have used: "fifo_used f' = ?N + n"
    using n r ok(2) by (simp add: f'_def fifo_used_def max_alloc_size_def used_advance)
  have ov: "overwritten (buffer f) ?r src n buf'" using write_loop_overwritten[OF wl r(1) n] .
  have N: "ring buf' ?r ?N = take n src @ drop n (contents f)"
    using ov n l ok(2) by (intro nth_equalityI) (auto simp: overwritten_def nth_append contents_def)
  have "ring buf' ?r (?N + n) = ring buf' ?r ?N @ ring buf' ((?r + ?N) mod length buf') n"
    by (simp add: ring_add)
  also have "ring buf' ((?r + ?N) mod length buf') n = take n (ring buf' ?r ?N)"
    using n r l by (simp add: ring_take)
  also have "\<dots> = take n src" using n by (simp add: N)
  finally have c: "contents f' = take n src @ drop n (contents f) @ take n src"
    unfolding contents_def used by (simp add: f'_def N contents_def)
  have "(?r + (?N + n)) mod ?N = (?r + n + ?N) mod ?N" by (simp only: ac_simps)
  then have "(?r + (?N + n)) mod ?N = (?r + n) mod ?N" by simp
  moreover have "0 < ?N" "(?r + n) mod ?N < ?N" using r(1) by (auto intro: mod_in_bounds)
  ultimately have "ring_ok f'" using r l used unfolding ring_ok_def used by (simp add: f'_def)
  then show ?thesis using c l
    by (intro exI[of _ f']) (simp add: av_fifo_generic_write_def w wl, simp add: f'_def)
qed

lemma ring_drain:
  assumes ok: "ring_ok f" and n: "n \<le> fifo_used f" "n \<le> fend f"
  shows "ring_ok (av_fifo_drain f n) \<and> contents (av_fifo_drain f n) = drop n (contents f) \<and>
     fend (av_fifo_drain f n) = fend f \<and> buffer (av_fifo_drain f n) = buffer f \<and>
     fifo_used (av_fifo_drain f n) = fifo_used f - n"
proof -
  have p: "(if rptr f + n \<ge> fend f then rptr f + n - fend f else rptr f + n) = (rptr f + n) mod fend f"
    using ok n by (auto simp: ring_ok_def mod_if)
  have f': "av_fifo_drain f n = f\<lparr>rptr := (rptr f + n) mod fend f, rndx := rndx f + of_nat n\<rparr>"
    unfolding av_fifo_drain_def Let_def p ..
  have used: "fifo_used (av_fifo_drain f n) = fifo_used f - n"
    unfolding f' using n by (simp add: fifo_used_def used_retreat)
  have "((rptr f + n) mod fend f + (fifo_used f - n)) mod fend f = (rptr f + fifo_used f) mod fend f"
    using n by (simp only: mod_add_left_eq) simp
  then have "ring_ok (av_fifo_drain f n)"
    using ok n used unfolding ring_ok_def used unfolding f' by (auto intro: mod_in_bounds)
  moreover have "contents (av_fifo_drain f n) = drop n (contents f)"
    unfolding contents_def used using n by (simp add: f' ring_drop)
  ultimately show ?thesis using used by (simp add: f')
qed

lemma fifo_drain_refines:
  assumes "fifo_ok f" "n \<le> fifo_used f"
  shows "fifo_ok (av_fifo_drain f n) \<and> contents (av_fifo_drain f n) = drop n (contents f) \<and>
     fend (av_fifo_drain f n) = fend f \<and> buffer (av_fifo_drain f n) = buffer f \<and>
     fifo_used (av_fifo_drain f n) = fifo_used f - n"
  using ring_drain[of f n] assms by (auto simp: fifo_ok_ring)

lemma fifo_peek_refines:
  assumes "fifo_ok f"
  shows "av_fifo_generic_peek memcpy_dest f d n = Some (d @ ring (buffer f) (rptr f) n)"
  using peek_loop_chunks[where rp = "rptr f" and buf = "buffer f" and n = n and func = memcpy_dest and dest = d] assms
  by (auto simp: av_fifo_generic_peek_def fifo_ok_def)

lemma fifo_peek_at_refines:
  assumes ok: "fifo_ok f" and "off + n \<le> fifo_used f"
  shows "av_fifo_generic_peek_at memcpy_dest f d off n = Some (d @ take n (drop off (contents f)))"
proof -
  define rp where "rp = (if off \<ge> fend f - rptr f then rptr f + off - fend f else rptr f + off)"
  have rp: "rp \<le> fend f" "rp mod fend f = (rptr f + off) mod fend f"
    using assms by (auto simp: rp_def fifo_ok_def mod_if)
  then have "ring (buffer f) rp n = ring (buffer f) (rptr f + off) n"
    using ring_mod[of "buffer f" rp n] ring_mod[of "buffer f" "rptr f + off" n] by simp
  moreover have "ring (buffer f) (rptr f + off) n = take n (drop off (contents f))"
    using assms by (simp add: contents_def ring_drop ring_take)
  ultimately show ?thesis
    using peek_at_loop_chunks[where rp = rp and buf = "buffer f" and n = n and func = memcpy_dest and dest = d] rp ok
    by (auto simp: av_fifo_generic_peek_at_def fifo_ok_def simp flip: rp_def)
qed

lemma ring_read_chunks:
  assumes "ring_ok f" "n \<le> fifo_used f"
  shows "\<exists>chunks f'. concat chunks = take n (contents f) \<and>
     av_fifo_generic_read func f dest n = Some (foldl func dest chunks, f') \<and>
     ring_ok f' \<and> contents f' = drop n (contents f) \<and> fend f' = fend f"
  using assms
proof (induction n arbitrary: f dest rule: less_induct)
  case (less n)
  define len where "len = min (fend f - rptr f) n"
  have len: "len \<le> n" "len \<le> fifo_used f" "rptr f + len \<le> fend f" "len \<le> fend f"
    using less.prems by (auto simp: len_def ring_ok_def)
  have dr: "ring_ok (av_fifo_drain f len)" "contents (av_fifo_drain f len) = drop len (contents f)"
    "fend (av_fifo_drain f len) = fend f" "fifo_used (av_fifo_drain f len) = fifo_used f - len"
    using ring_drain[OF less.prems(1) len(2) len(4)] by auto
  have ld: "load (buffer f) (rptr f) len = Some (take len (contents f))"
    using len by (simp add: load_def ring_linear contents_def ring_take)
  have unf: "av_fifo_generic_read func f dest n =
      (if n - len > 0
       then av_fifo_generic_read func (av_fifo_drain f len) (func dest (take len (contents f))) (n - len)
       else Some (func dest (take len (contents f)), av_fifo_drain f len))"
    by (subst av_fifo_generic_read.simps) (simp add: Let_def ld flip: len_def)
  show ?case
  proof (cases "n - len > 0")
    case False
    then show ?thesis
      using unf len dr
      by (intro exI[of _ "[take len (contents f)]"] exI[of _ "av_fifo_drain f len"]) simp
  next
    case True
    then have "len > 0" using less.prems by (auto simp: len_def ring_ok_def)
    then obtain chunks f' where IH: "concat chunks = take (n - len) (drop len (contents f))"
      "av_fifo_generic_read func (av_fifo_drain f len) (func dest (take len (contents f))) (n - len)
         = Some (foldl func (func dest (take len (contents f))) chunks, f')"
      "ring_ok f'" "contents f' = drop (n - len) (drop len (contents f))" "fend f' = fend f"
      using less.IH[of "n - len" "av_fifo_drain f len" "func dest (take len (contents f))"]
        True less.prems dr diff_le_mono[OF less.prems(2), of len] by auto
    then show ?thesis
      using unf True len take_add[of len "n - len" "contents f"]
      by (intro exI[of _ "take len (contents f) # chunks"] exI[of _ f']) simp
  qed
qed

lemma fifo_read_chunks:
  assumes "fifo_ok f" "n \<le> fifo_used f"
  shows "\<exists>chunks f'. concat chunks = take n (contents f) \<and>
     av_fifo_generic_read func f dest n = Some (foldl func dest chunks, f') \<and>
     fifo_ok f' \<and> contents f' = drop n (contents f) \<and> fend f' = fend f"
proof -
  have r: "ring_ok f" "fifo_used f \<le> fend f" using assms(1) by (simp_all add: fifo_ok_ring)
  obtain chunks f' where 1: "concat chunks = take n (contents f)"
    "av_fifo_generic_read func f dest n = Some (foldl func dest chunks, f')"
    "ring_ok f'" "contents f' = drop n (contents f)" "fend f' = fend f"
    using ring_read_chunks[OF r(1) assms(2), of func dest] by blast
  have "fifo_used f' = fifo_used f - n" using arg_cong[OF 1(4), of length] by simp
  then show ?thesis using 1 r by (intro exI[of _ chunks] exI[of _ f']) (simp add: fifo_ok_ring)
qed

lemma ring_read:
  assumes "ring_ok f" "n \<le> fifo_used f"
  shows "\<exists>f'. av_fifo_generic_read memcpy_dest f d n = Some (d @ take n (contents f), f') \<and>
     ring_ok f' \<and> contents f' = drop n (contents f) \<and> fend f' = fend f"
  using ring_read_chunks[OF assms, of memcpy_dest d] by auto

lemma fifo_read_refines:
  assumes "fifo_ok f" "n \<le> fifo_used f"
  shows "\<exists>f'. av_fifo_generic_read memcpy_dest f d n = Some (d @ take n (contents f), f') \<and>
     fifo_ok f' \<and> contents f' = drop n (contents f) \<and> fend f' = fend f"
  using fifo_read_chunks[OF assms, of memcpy_dest d] by auto

lemma fifo_realloc_refines:
  assumes ok: "fifo_ok f" and m: "malloc_ok malloc"
  shows "\<exists>r f'. av_fifo_realloc2 malloc sok f n = Some (r, f') \<and> fifo_ok f' \<and>
     contents f' = contents f \<and> (r = 0 \<longrightarrow> fend f' = max (fend f) n) \<and>
     (r \<noteq> 0 \<longrightarrow> r = ENOMEM \<and> f' = f)"
proof (cases "fend f < n")
  case False
  then show ?thesis using ok by (auto simp: av_fifo_realloc2_def)
next
  case True
  show ?thesis
  proof (cases "av_fifo_alloc malloc sok n")
    case None
    then show ?thesis using True ok by (auto simp: av_fifo_realloc2_def Let_def)
  next
    case (Some f2)
    have f2: "fifo_ok f2" "fend f2 = n" "rptr f2 = 0" "wptr f2 = 0" "wndx f2 = 0" "rndx f2 = 0"
      using fifo_alloc_ok[OF m _ Some] True by auto
    have len: "nat (av_fifo_size f) = fifo_used f" using ok by (simp add: fifo_ok_size)
    obtain f3 where rd: "av_fifo_generic_read memcpy_dest f [] (fifo_used f) = Some (contents f, f3)"
      using fifo_read_refines[OF ok, of "fifo_used f" "[]"] by auto
    have u: "fifo_used f < n" using ok True by (simp add: fifo_ok_def)
    then obtain b2 where b2: "store (buffer f2) 0 (contents f) = Some b2"
      using f2 by (simp add: store_def)
    then have b2': "b2 = contents f @ drop (fifo_used f) (buffer f2)" "length b2 = n"
      using f2 by (auto simp: store_eq_Some)
    define f' where "f' = f2\<lparr>buffer := b2, wptr := fifo_used f, wndx := of_nat (fifo_used f)\<rparr>"
    have used: "fifo_used f' = fifo_used f"
      using ok by (simp add: f'_def fifo_used_def f2)
    have "contents f' = contents f"
      unfolding contents_def used
      using u b2' f2 ring_linear[of 0 "fifo_used f" b2] by (simp add: f'_def contents_def)
    moreover have "fifo_ok f'"
      using f2 u b2' unfolding fifo_ok_def used by (simp add: f'_def fifo_ok_def)
    moreover have "av_fifo_realloc2 malloc sok f n = Some (0, f')"
      using True by (simp add: av_fifo_realloc2_def Let_def Some len rd b2 f2 f'_def)
    ultimately show ?thesis using True b2' by (simp add: f'_def)
  qed
qed

lemma fifo_grow_refines:
  assumes ok: "fifo_ok f" and m: "malloc_ok malloc" and n: "n < 2 ^ 32"
  shows "\<exists>r f'. av_fifo_grow malloc sok f n = Some (r, f') \<and> fifo_ok f' \<and>
     contents f' = contents f \<and> (r = 0 \<longrightarrow> fifo_used f + n \<le> fend f' \<and> fend f \<le> fend f') \<and>
     (r \<noteq> 0 \<longrightarrow> (r = ENOMEM \<or> r = EINVAL \<and> 2 ^ 32 \<le> fifo_used f + n) \<and> f' = f)"
proof -
  have u: "nat (u32_of (av_fifo_size f)) = fifo_used f" "fifo_used f < 2 ^ 32"
    using ok by (simp_all add: fifo_ok_size u32_of_id fifo_ok_def max_alloc_size_def)
  show ?thesis
  proof (cases "2 ^ 32 \<le> n + fifo_used f")
    case True
    then have "(n + fifo_used f) mod 2 ^ 32 = n + fifo_used f - 2 ^ 32"
      using n u(2) by (simp add: mod_if)
    then have "(n + fifo_used f) mod 2 ^ 32 < n" using True u(2) n by linarith
    then show ?thesis using True ok by (simp add: av_fifo_grow_def u)
  next
    case False
    then have e: "(n + fifo_used f) mod 2 ^ 32 = n + fifo_used f" by simp
    show ?thesis
    proof (cases "fend f < n + fifo_used f")
      case True
      obtain r f' where "av_fifo_realloc2 malloc sok f
            (max (n + fifo_used f) ((2 * fend f) mod 2 ^ 32)) = Some (r, f')"
        "fifo_ok f'" "contents f' = contents f"
        "r = 0 \<Longrightarrow> fend f' = max (fend f) (max (n + fifo_used f) ((2 * fend f) mod 2 ^ 32))"
        "r \<noteq> 0 \<Longrightarrow> r = ENOMEM \<and> f' = f"
        using fifo_realloc_refines[OF ok m] by blast
      then show ?thesis
        using True unfolding av_fifo_grow_def u(1) Let_def e by (auto simp: add.commute)
    next
      case F: False
      then show ?thesis
        using ok unfolding av_fifo_grow_def u(1) Let_def e by simp
    qed
  qed
qed

lemma fifo_peek2_refines:
  assumes ok: "fifo_ok f" and i: "- int (fend f) \<le> i" "i < int (fend f)"
  shows "av_fifo_peek2 f i = (int (rptr f) + i) mod int (fend f)"
proof -
  let ?N = "int (fend f)" and ?x = "int (rptr f) + i"
  have r: "int (rptr f) < ?N" "0 < ?N" using ok by (simp_all add: fifo_ok_def)
  consider "?N \<le> ?x" | "?x < 0" | "0 \<le> ?x" "?x < ?N" by linarith
  then show ?thesis
  proof cases
    case 1
    have "?x mod ?N = (?x - ?N) mod ?N" by simp
    also have "\<dots> = ?x - ?N" using 1 r i by (intro mod_pos_pos_trivial) linarith+
    finally show ?thesis using 1 by (simp add: av_fifo_peek2_def Let_def)
  next
    case 2
    have "?x mod ?N = (?x + ?N) mod ?N" by simp
    also have "\<dots> = ?x + ?N" using 2 r i by (intro mod_pos_pos_trivial) linarith+
    finally show ?thesis using 2 r by (simp add: av_fifo_peek2_def Let_def)
  next
    case 3
    then show ?thesis by (simp add: av_fifo_peek2_def Let_def)
  qed
qed

lemma fifo_reset_refines:
  assumes "fifo_ok f"
  shows "fifo_ok (av_fifo_reset f) \<and> contents (av_fifo_reset f) = [] \<and> fend (av_fifo_reset f) = fend f"
  using assms by (auto simp: av_fifo_reset_def fifo_ok_def fifo_used_def contents_def)

text \<open>The buffer meets the contract its clients are verified against.\<close>

interpretation fifo: byte_queue fifo_ok contents "\<lambda>f. fend f" av_fifo_generic_write
  "\<lambda>f n. av_fifo_generic_read memcpy_dest f [] n" av_fifo_size av_fifo_reset
proof unfold_locales
  fix f :: "'a AVFifoBuffer" and n and bs :: "'a list"
  assume ok: "fifo_ok f"
  show "length (contents f) \<le> fend f" using ok by (simp add: fifo_ok_def)
  show "av_fifo_size f = int (length (contents f))" using ok by (simp add: fifo_ok_size)
  show "fifo_ok (av_fifo_reset f) \<and> contents (av_fifo_reset f) = [] \<and> fend (av_fifo_reset f) = fend f"
    using ok by (rule fifo_reset_refines)
  show "\<exists>q'. av_fifo_generic_write f bs n = Some (n, q') \<and> fifo_ok q' \<and>
      contents q' = contents f @ take n bs \<and> fend q' = fend f"
    if "n \<le> length bs" "length (contents f) + n \<le> fend f"
    using fifo_write_refines[OF ok that(1)] that(2) by simp
  show "\<exists>q'. av_fifo_generic_read memcpy_dest f [] n = Some (take n (contents f), q') \<and> fifo_ok q' \<and>
      contents q' = drop n (contents f) \<and> fend q' = fend f"
    if "n \<le> length (contents f)"
    using fifo_read_refines[OF ok, of n "[]"] that by simp
qed

section \<open>A caller that checks space and size\<close>

datatype 'a fifo_op = Write "'a list" | Read nat | Peek nat nat | Drain nat | Reset

fun fifo_do :: "'a AVFifoBuffer \<Rightarrow> 'a fifo_op \<Rightarrow> ('a list \<times> 'a AVFifoBuffer) option" where
  "fifo_do f (Write bs) =
     (if int (length bs) \<le> av_fifo_space f
      then map_option (\<lambda>(_, f'). ([], f')) (av_fifo_generic_write f bs (length bs))
      else Some ([], f))"
| "fifo_do f (Read n) =
     (if int n \<le> av_fifo_size f then av_fifo_generic_read memcpy_dest f [] n else Some ([], f))"
| "fifo_do f (Peek off n) =
     (if int (off + n) \<le> av_fifo_size f
      then map_option (\<lambda>bs. (bs, f)) (av_fifo_generic_peek_at memcpy_dest f [] off n)
      else Some ([], f))"
| "fifo_do f (Drain n) =
     (if int n \<le> av_fifo_size f then Some ([], av_fifo_drain f n) else Some ([], f))"
| "fifo_do f Reset = Some ([], av_fifo_reset f)"

fun queue_do :: "nat \<Rightarrow> 'a list \<Rightarrow> 'a fifo_op \<Rightarrow> 'a list \<times> 'a list" where
  "queue_do c q (Write bs) = (if length q + length bs \<le> c then ([], q @ bs) else ([], q))"
| "queue_do c q (Read n) = (if n \<le> length q then (take n q, drop n q) else ([], q))"
| "queue_do c q (Peek off n) = (if off + n \<le> length q then (take n (drop off q), q) else ([], q))"
| "queue_do c q (Drain n) = (if n \<le> length q then ([], drop n q) else ([], q))"
| "queue_do c q Reset = ([], [])"

fun fifo_run :: "'a AVFifoBuffer \<Rightarrow> 'a fifo_op list \<Rightarrow> ('a list list \<times> 'a AVFifoBuffer) option" where
  "fifo_run f [] = Some ([], f)"
| "fifo_run f (x # xs) =
     Option.bind (fifo_do f x) (\<lambda>(out, f').
       map_option (\<lambda>(outs, f''). (out # outs, f'')) (fifo_run f' xs))"

fun queue_run :: "nat \<Rightarrow> 'a list \<Rightarrow> 'a fifo_op list \<Rightarrow> 'a list list \<times> 'a list" where
  "queue_run c q [] = ([], q)"
| "queue_run c q (x # xs) =
     (let (out, q') = queue_do c q x; (outs, q'') = queue_run c q' xs in (out # outs, q''))"

lemma fifo_space_ok:
  assumes "fifo_ok f" shows "av_fifo_space f = int (fend f - fifo_used f)"
proof -
  have "in_s32 (int (fend f) - int (fifo_used f))"
    using assms by (auto simp: in_s32_def fifo_ok_def max_alloc_size_def)
  then show ?thesis
    using assms by (simp add: av_fifo_space_def fifo_ok_size s32_id fifo_ok_def of_nat_diff)
qed

lemma fifo_do_refines:
  assumes "fifo_ok f"
  shows "\<exists>f'. fifo_do f x = Some (fst (queue_do (fend f) (contents f) x), f') \<and> fifo_ok f' \<and>
     contents f' = snd (queue_do (fend f) (contents f) x) \<and> fend f' = fend f"
proof (cases x)
  case (Write bs)
  have "int (length bs) \<le> av_fifo_space f \<longleftrightarrow> fifo_used f + length bs \<le> fend f"
    using assms by (auto simp: fifo_space_ok fifo_ok_def)
  then show ?thesis
    using Write assms fifo_write_refines[OF assms, of "length bs" bs] by auto
next
  case (Read n)
  then show ?thesis
    using assms fifo_read_refines[OF assms, of n "[]"] by (auto simp: fifo_ok_size)
next
  case (Peek off n)
  then show ?thesis
    using assms fifo_peek_at_refines[OF assms, of off n "[]"] by (auto simp: fifo_ok_size)
next
  case (Drain n)
  then show ?thesis
    using assms fifo_drain_refines[OF assms, of n] by (auto simp: fifo_ok_size)
next
  case Reset
  then show ?thesis using fifo_reset_refines[OF assms] by simp
qed

text \<open>A wrapped buffer of three cells holding 9 and 7, its running indices across the 32-bit wrap.\<close>

definition sample_fifo :: "int AVFifoBuffer" where
  "sample_fifo = \<lparr>buffer = [7, 8, 9], rptr = 2, wptr = 1, rndx = - 1, wndx = 1\<rparr>"

lemma sample_fifo:
  "fifo_ok sample_fifo" "contents sample_fifo = [9, 7]" "fend sample_fifo = 3"
  "fifo_used sample_fifo = 2"
  by (simp_all add: sample_fifo_def fifo_ok_def fifo_used_def max_alloc_size_def contents_def
      ring_def upt_rec)

text \<open>C3: a caller that asks \<open>av_fifo_space\<close> before it writes and \<open>av_fifo_size\<close> before it reads,
  peeks or drains cannot tell the circular buffer from a bounded list of bytes: for every
  sequence of operations the pointer-level code terminates without touching memory outside the
  buffer, hands out the bytes the list hands out, keeps its invariant and ends with the list's
  contents.\<close>

theorem fifo_simulates_queue:
  assumes "fifo_ok f"
  shows "\<exists>f'. fifo_run f ops = Some (fst (queue_run (fend f) (contents f) ops), f') \<and> fifo_ok f' \<and>
     contents f' = snd (queue_run (fend f) (contents f) ops) \<and> fend f' = fend f"
  using assms
proof (induction ops arbitrary: f)
  case Nil
  then show ?case by simp
next
  case (Cons x xs)
  obtain f1 where f1: "fifo_do f x = Some (fst (queue_do (fend f) (contents f) x), f1)" "fifo_ok f1"
    "contents f1 = snd (queue_do (fend f) (contents f) x)" "fend f1 = fend f"
    using fifo_do_refines[OF Cons.prems] by blast
  then show ?case using Cons.IH[OF f1(2)] by (auto simp: split_beta Let_def)
qed

theorem fifo_simulates_queue_witness:
  "\<exists>f'. fifo_run sample_fifo [Write [5], Read 2, Write [1, 2, 3], Write [4], Peek 1 1]
     = Some ([[], [9, 7], [], [], [4]], f')"
proof -
  have "queue_run 3 [9, 7 :: int] [Write [5], Read 2, Write [1, 2, 3], Write [4], Peek 1 1]
      = ([[], [9, 7], [], [], [4]], [5, 4])"
    by (simp add: numeral_2_eq_2)
  then show ?thesis
    using fifo_simulates_queue[OF sample_fifo(1), of "[Write [5], Read 2, Write [1, 2, 3], Write [4], Peek 1 1]"]
    unfolding sample_fifo(2,3) by (metis fst_conv)
qed

text \<open>\<open>av_fifo_grow\<close> keeps every unread byte in order; on success there is room for the bytes
  asked for, on failure (out of memory, or a total that does not fit an \<open>unsigned\<close>) the buffer
  is unchanged.\<close>

theorem fifo_grow_keeps_contents:
  assumes "fifo_ok f" "malloc_ok malloc" "n < 2 ^ 32"
  shows "\<exists>r f'. av_fifo_grow malloc struct_ok f n = Some (r, f') \<and> fifo_ok f' \<and>
     contents f' = contents f \<and> (r = 0 \<longrightarrow> fifo_used f + n \<le> fend f' \<and> fend f \<le> fend f') \<and>
     (r \<noteq> 0 \<longrightarrow> (r = ENOMEM \<or> r = EINVAL \<and> 2 ^ 32 \<le> fifo_used f + n) \<and> f' = f)"
  using assms by (rule fifo_grow_refines)

theorem fifo_grow_keeps_contents_witness:
  "\<exists>r f'. av_fifo_grow (\<lambda>n. Some (replicate n 0)) True sample_fifo 5 = Some (r, f') \<and>
      fifo_ok f' \<and> contents f' = [9, 7]"
proof -
  have m: "malloc_ok (\<lambda>n. Some (replicate n (0::int)))" by (simp add: malloc_ok_def)
  show ?thesis
    using fifo_grow_keeps_contents[OF sample_fifo(1) m, of 5 True] unfolding sample_fifo(2) by auto
qed

text \<open>\<open>av_fifo_generic_write\<close> does not check for space. Writing more than the free space
  returns the full size as if it had succeeded, and leaves more bytes counted as unread than the
  buffer has: the invariant that readers rely on is lost.\<close>

theorem fifo_write_unchecked:
  assumes "fifo_ok f" "n \<le> length src" "n \<le> max_alloc_size" "fend f < fifo_used f + n"
  shows "\<exists>f'. av_fifo_generic_write f src n = Some (n, f') \<and> fend f' = fend f \<and>
     fifo_used f' = fifo_used f + n \<and> \<not> fifo_ok f'"
  using assms by (rule fifo_write_overflow)

theorem fifo_write_unchecked_witness:
  "\<exists>f'. av_fifo_generic_write sample_fifo [1, 2, 3] 3 = Some (3, f') \<and> fend f' = 3 \<and>
     fifo_used f' = 5 \<and> \<not> fifo_ok f'"
  using fifo_write_unchecked[OF sample_fifo(1), of 3 "[1, 2, 3]"]
  unfolding sample_fifo(3,4) by (simp add: max_alloc_size_def)

end
