(* ===== verification/TfCodec.thy ===== *)
theory TfCodec
  imports Prelude
begin

text \<open>
  The key frame detection of the Thinkforce codecs, libavcodec/tfcodec.c: the Annex B start code
  test and the two scanners that look for an IDR slice (H.264) or an IDR picture (HEVC). A scan
  is given an object and the number of bytes to look at; a read outside the object is \<open>None\<close>.
  Reference: the list of NAL unit headers of the scanned bytes, and a fold over their types.
\<close>

section \<open>The code\<close>

definition rd :: "'a list \<Rightarrow> nat \<Rightarrow> 'a option" where
  "rd d i = (if i < length d then Some (d ! i) else None)"

definition h2645_start_code :: "u8 list \<Rightarrow> nat \<Rightarrow> nat \<Rightarrow> nat option" where
  "h2645_start_code data off len =
     (if len \<ge> 3 then do {
        b0 \<leftarrow> rd data off;
        if b0 = 0 then do {
          b1 \<leftarrow> rd data (off + 1);
          if b1 = 0 then do {
            b2 \<leftarrow> rd data (off + 2);
            if b2 = 1 then Some 3
            else if b2 = 0 then
              (if len \<ge> 4 then do { b3 \<leftarrow> rd data (off + 3); Some (if b3 = 1 then 4 else 0) }
               else Some 0)
            else Some 0 }
          else Some 0 }
        else Some 0 }
      else Some 0)"

function h265_loop :: "u8 list \<Rightarrow> nat \<Rightarrow> nat \<Rightarrow> u8 option" where
  "h265_loop data len i =
     (if i < len then
        Option.bind (h2645_start_code data i (len - i)) (\<lambda>startLen.
        if startLen \<noteq> 0 \<and> startLen < len then
          (let i' = i + startLen in
           Option.bind (rd data i') (\<lambda>b.
             let flag = drop_bit 1 b AND 0x3f in
             if flag = 19 \<or> flag = 20 then Some flag else h265_loop data len (i' + 1)))
        else h265_loop data len (i + 1))
      else Some 0)"
  by pat_completeness auto
termination by (relation "measure (\<lambda>(d, len, i). len - i)") auto

definition analyzeh265Frame :: "u8 list \<Rightarrow> nat \<Rightarrow> u8 option" where
  "analyzeh265Frame data len = h265_loop data len 0"

function h264_loop :: "u8 list \<Rightarrow> nat \<Rightarrow> nat \<Rightarrow> u8 option" where
  "h264_loop data len i =
     (if i < len then
        Option.bind (h2645_start_code data i (len - i)) (\<lambda>startLen.
        if startLen \<noteq> 0 \<and> startLen < len then
          (let i' = i + startLen in
           Option.bind (rd data i') (\<lambda>b.
             let flag = b AND 0x1f in
             if flag = 9 then h264_loop data len (i' + 1)
             else if flag = 7 then h264_loop data len (i' + 1)
             else if flag = 8 then h264_loop data len (i' + 1)
             else if flag = 6 then h264_loop data len (i' + 1)
             else if flag = 5 then Some flag
             else if flag = 1 then Some 0
             else h264_loop data len (i' + 1)))
        else h264_loop data len (i + 1))
      else Some 0)"
  by pat_completeness auto
termination by (relation "measure (\<lambda>(d, len, i). len - i)") auto

definition analyzeh264Frame :: "u8 list \<Rightarrow> nat \<Rightarrow> u8 option" where
  "analyzeh264Frame data len = h264_loop data len 0"

declare h264_loop.simps [simp del] h265_loop.simps [simp del]

section \<open>Reference: NAL unit headers\<close>

text \<open>The header byte after each start code of the scanned bytes \<open>xs\<close>; \<open>ext\<close> is the cell just
  after them, \<open>None\<close> if the object ends there.\<close>

fun start_code_at :: "u8 list \<Rightarrow> nat" where
  "start_code_at xs =
     (if take 3 xs = [0, 0, 1] then 3 else if take 4 xs = [0, 0, 0, 1] then 4 else 0)"

function nal_headers :: "u8 list \<Rightarrow> u8 option \<Rightarrow> u8 option list" where
  "nal_headers xs ext =
     (if xs = [] then []
      else if start_code_at xs \<noteq> 0
      then (case drop (start_code_at xs) xs of
              [] \<Rightarrow> [ext]
            | h # rest \<Rightarrow> Some h # nal_headers rest ext)
      else nal_headers (tl xs) ext)"
  by pat_completeness auto
termination
proof (relation "measure (\<lambda>(xs, ext). length xs)", goal_cases)
  case (2 xs ext h rest)
  then have "length (h # rest) \<le> length xs" by (metis length_drop diff_le_self)
  then show ?case by simp
qed auto

declare start_code_at.simps [simp del] nal_headers.simps [simp del]

fun first_idr264 :: "u8 option list \<Rightarrow> u8 option" where
  "first_idr264 [] = Some 0"
| "first_idr264 (None # _) = None"
| "first_idr264 (Some h # hs) =
     (let t = h AND 0x1f in if t = 5 then Some 5 else if t = 1 then Some 0 else first_idr264 hs)"

fun first_idr265 :: "u8 option list \<Rightarrow> u8 option" where
  "first_idr265 [] = Some 0"
| "first_idr265 (None # _) = None"
| "first_idr265 (Some h # hs) =
     (let t = drop_bit 1 h AND 0x3f in if t = 19 \<or> t = 20 then Some t else first_idr265 hs)"

section \<open>The scanners compute the reference\<close>

lemma take_Suc_nth: "n < length xs \<Longrightarrow> take (Suc n) xs = take n xs @ [xs ! n]"
  by (rule take_Suc_conv_app_nth)

lemma start_code_in_bounds:
  assumes "i < len" "len \<le> length d"
  shows "h2645_start_code d i (len - i) = Some (start_code_at (drop i (take len d)))"
proof -
  define xs where "xs = drop i (take len d)"
  have xs: "length xs = len - i" "\<And>k. k < len - i \<Longrightarrow> d ! (i + k) = xs ! k"
    using assms by (auto simp: xs_def)
  have rd: "rd d (i + k) = Some (xs ! k)" if "k < len - i" for k
    using that xs assms by (simp add: rd_def)
  have t3: "take 3 xs = [xs ! 0, xs ! 1, xs ! 2]" if "3 \<le> len - i"
    using that xs(1) by (intro nth_equalityI) (auto simp: nth_Cons' less_Suc_eq numeral_3_eq_3 numeral_2_eq_2)
  have t4: "take 4 xs = [xs ! 0, xs ! 1, xs ! 2, xs ! 3]" if "4 \<le> len - i"
    using that xs(1) by (intro nth_equalityI) (auto simp: nth_Cons' less_Suc_eq eval_nat_numeral)
  have s3: "take 3 xs \<noteq> [0, 0, 1]" if "\<not> 3 \<le> len - i"
    using that xs(1) arg_cong[of "take 3 xs" "[0, 0, 1]" length] by auto
  have s4: "take 4 xs \<noteq> [0, 0, 0, 1]" if "\<not> 4 \<le> len - i"
    using that xs(1) arg_cong[of "take 4 xs" "[0, 0, 0, 1]" length] by auto
  show ?thesis
    unfolding xs_def[symmetric]
    using rd[of 0] rd[of 1] rd[of 2] rd[of 3] t3 t4 s3 s4
    by (cases "4 \<le> len - i"; cases "3 \<le> len - i")
      (auto simp: h2645_start_code_def start_code_at.simps)
qed

abbreviation scanned :: "u8 list \<Rightarrow> nat \<Rightarrow> nat \<Rightarrow> u8 list" where
  "scanned d len i \<equiv> drop i (take len d)"

lemma start_code_le: "start_code_at xs \<le> length xs"
proof (rule ccontr)
  assume "\<not> start_code_at xs \<le> length xs"
  then have "take 3 xs = [0, 0, 1] \<and> length xs < 3 \<or> take 4 xs = [0, 0, 0, 1] \<and> length xs < 4"
    by (auto simp: start_code_at.simps split: if_splits)
  then show False
    using arg_cong[of "take 3 xs" "[0, 0, 1]" length] arg_cong[of "take 4 xs" "[0, 0, 0, 1]" length]
    by auto
qed

lemma headers_nil [simp]: "nal_headers [] ext = []"
  by (simp add: nal_headers.simps)

lemma headers_skip:
  assumes "i < len" "len \<le> length d" "start_code_at (scanned d len i) = 0"
  shows "nal_headers (scanned d len i) ext = nal_headers (scanned d len (i + 1)) ext"
  using assms by (subst nal_headers.simps) (simp add: drop_Suc tl_drop)

lemma headers_hit:
  assumes "i < len" "len \<le> length d" "start_code_at (scanned d len i) = s" "s \<noteq> 0"
  shows "nal_headers (scanned d len i) (rd d len)
       = rd d (i + s) # nal_headers (scanned d len (i + s + 1)) (rd d len)"
proof -
  have le: "i + s \<le> len" using start_code_le[of "scanned d len i"] assms by simp
  have unf: "nal_headers (scanned d len i) (rd d len) =
      (case scanned d len (i + s) of [] \<Rightarrow> [rd d len] | h # rest \<Rightarrow> Some h # nal_headers rest (rd d len))"
    using assms by (subst nal_headers.simps) (simp add: drop_drop add.commute)
  show ?thesis
  proof (cases "i + s = len")
    case True
    then have "scanned d len (i + s) = []" "scanned d len (i + s + 1) = []" by simp_all
    then show ?thesis using unf True by simp
  next
    case False
    then have "scanned d len (i + s) = d ! (i + s) # scanned d len (i + s + 1)"
      using le assms by (simp add: Cons_nth_drop_Suc[symmetric])
    then show ?thesis using unf False le assms by (simp add: rd_def)
  qed
qed

text \<open>A start code as long as the whole input: it has no following byte inside the input.\<close>

lemma start_code_whole:
  assumes "i < len" "len \<le> length d" "take len d \<noteq> [0, 0, 1]"
    and s: "start_code_at (scanned d len i) = s" "s \<noteq> 0" "\<not> s < len"
  shows "nal_headers (scanned d len (i + 1)) (rd d len) = nal_headers (scanned d len i) (rd d len)"
proof -
  have "i + s \<le> len" using start_code_le[of "scanned d len i"] assms by simp
  then have i: "i = 0" "s = len" using s by auto
  have "take 3 (take len d) = [0, 0, 1] \<and> len = 3 \<or> take 4 (take len d) = [0, 0, 0, 1] \<and> len = 4"
    using s i by (auto simp: start_code_at.simps split: if_splits)
  then have d4: "take len d = [0, 0, 0, 1]" "len = 4" using assms(3) by (auto simp: min_def)
  have "nal_headers (scanned d len 1) (rd d len) = [rd d len]"
    unfolding d4(1) by (subst nal_headers.simps) (simp add: start_code_at.simps)
  moreover have "nal_headers (scanned d len 0) (rd d len) = [rd d len]"
    unfolding d4(1) by (subst nal_headers.simps) (simp add: start_code_at.simps)
  ultimately show ?thesis using i by simp
qed

lemma h264_loop_reference:
  assumes "len \<le> length d" "take len d \<noteq> [0, 0, 1]"
  shows "h264_loop d len i = first_idr264 (nal_headers (scanned d len i) (rd d len))"
  using assms
proof (induction d len i rule: h264_loop.induct)
  case (1 d len i)
  define s where "s = start_code_at (scanned d len i)"
  show ?case
  proof (cases "i < len")
    case False
    then show ?thesis by (simp add: h264_loop.simps[of d len i])
  next
    case True
    have sc: "h2645_start_code d i (len - i) = Some s"
      using start_code_in_bounds[OF True "1.prems"(1)] by (simp add: s_def)
    consider "s = 0" | "s \<noteq> 0" "\<not> s < len" | "s \<noteq> 0" "s < len" by blast
    then show ?thesis
    proof cases
      case 1
      then show ?thesis
        using "1.IH"(6)[OF True sc] "1.prems" True sc headers_skip[OF True "1.prems"(1)]
        by (simp add: h264_loop.simps[of d len i] s_def)
    next
      case 2
      then show ?thesis
        using "1.IH"(6)[OF True sc] "1.prems" True sc
          start_code_whole[OF True "1.prems", of s]
        by (simp add: h264_loop.simps[of d len i] s_def)
    next
      case 3
      have h: "nal_headers (scanned d len i) (rd d len)
          = rd d (i + s) # nal_headers (scanned d len (i + s + 1)) (rd d len)"
        using headers_hit[OF True "1.prems"(1)] 3 by (simp add: s_def)
      show ?thesis
      proof (cases "rd d (i + s)")
        case None
        then show ?thesis using h sc True 3 by (simp add: h264_loop.simps[of d len i])
      next
        case (Some b)
        have IH: "h264_loop d len (i + s + 1) = first_idr264 (nal_headers (scanned d len (i + s + 1)) (rd d len))"
          if "b AND 0x1f \<noteq> 5" "b AND 0x1f \<noteq> 1"
          using "1.IH"(1-5)[OF True sc _ refl Some refl] 3 "1.prems" that by blast
        show ?thesis
          using h sc True 3 Some IH
          by (cases "b AND 0x1f = 5"; cases "b AND 0x1f = 1")
            (simp_all add: h264_loop.simps[of d len i] Let_def)
      qed
    qed
  qed
qed

lemma h265_loop_reference:
  assumes "len \<le> length d" "take len d \<noteq> [0, 0, 1]"
  shows "h265_loop d len i = first_idr265 (nal_headers (scanned d len i) (rd d len))"
  using assms
proof (induction d len i rule: h265_loop.induct)
  case (1 d len i)
  define s where "s = start_code_at (scanned d len i)"
  show ?case
  proof (cases "i < len")
    case False
    then show ?thesis by (simp add: h265_loop.simps[of d len i])
  next
    case True
    have sc: "h2645_start_code d i (len - i) = Some s"
      using start_code_in_bounds[OF True "1.prems"(1)] by (simp add: s_def)
    consider "s = 0" | "s \<noteq> 0" "\<not> s < len" | "s \<noteq> 0" "s < len" by blast
    then show ?thesis
    proof cases
      case 1
      then show ?thesis
        using "1.IH"(2)[OF True sc] "1.prems" True sc headers_skip[OF True "1.prems"(1)]
        by (simp add: h265_loop.simps[of d len i] s_def)
    next
      case 2
      then show ?thesis
        using "1.IH"(2)[OF True sc] "1.prems" True sc
          start_code_whole[OF True "1.prems", of s]
        by (simp add: h265_loop.simps[of d len i] s_def)
    next
      case 3
      have h: "nal_headers (scanned d len i) (rd d len)
          = rd d (i + s) # nal_headers (scanned d len (i + s + 1)) (rd d len)"
        using headers_hit[OF True "1.prems"(1)] 3 by (simp add: s_def)
      show ?thesis
      proof (cases "rd d (i + s)")
        case None
        then show ?thesis using h sc True 3 by (simp add: h265_loop.simps[of d len i])
      next
        case (Some b)
        have IH: "h265_loop d len (i + s + 1) = first_idr265 (nal_headers (scanned d len (i + s + 1)) (rd d len))"
          if "\<not> (drop_bit 1 b AND 0x3f = 19 \<or> drop_bit 1 b AND 0x3f = 20)"
          using "1.IH"(1)[OF True sc _ refl Some refl] 3 "1.prems" that by blast
        show ?thesis
          using h sc True 3 Some IH
          by (cases "drop_bit 1 b AND 0x3f = 19 \<or> drop_bit 1 b AND 0x3f = 20")
            (simp_all add: h265_loop.simps[of d len i] Let_def)
      qed
    qed
  qed
qed

section \<open>Annex B streams\<close>

text \<open>What an encoder with emulation prevention emits: a unit has a header byte, a payload without
  the byte sequences 0 0 0 and 0 0 1, and no zero byte at its end. \<open>annexb\<close> puts a four-byte start
  code before each unit.\<close>

fun emulation_free :: "u8 list \<Rightarrow> bool" where
  "emulation_free (a # b # c # xs) =
     (\<not> (a = 0 \<and> b = 0 \<and> (c = 0 \<or> c = 1)) \<and> emulation_free (b # c # xs))"
| "emulation_free _ = True"

definition nal_ok :: "u8 list \<Rightarrow> bool" where
  "nal_ok n \<longleftrightarrow> n \<noteq> [] \<and> emulation_free (tl n) \<and> (tl n \<noteq> [] \<longrightarrow> last n \<noteq> 0)"

definition annexb :: "u8 list list \<Rightarrow> u8 list" where
  "annexb ns = concat (map (\<lambda>n. [0, 0, 0, 1] @ n) ns)"

lemma payload_no_start_code:
  assumes "emulation_free xs" "xs \<noteq> []" "last xs \<noteq> 0"
  shows "start_code_at (xs @ rest) = 0"
proof -
  consider a where "xs = [a]" | a b where "xs = [a, b]" | a b c where "xs = [a, b, c]"
    | a b c d ys where "xs = a # b # c # d # ys"
    using assms(2) by (metis neq_Nil_conv)
  then show ?thesis using assms by cases (auto simp: start_code_at.simps)
qed

lemma emulation_free_tl: "emulation_free xs \<Longrightarrow> emulation_free (tl xs)"
  by (cases xs rule: emulation_free.cases) auto

lemma headers_payload:
  "emulation_free xs \<Longrightarrow> (xs \<noteq> [] \<longrightarrow> last xs \<noteq> 0) \<Longrightarrow>
     nal_headers (xs @ rest) ext = nal_headers rest ext"
proof (induction xs)
  case Nil
  then show ?case by simp
next
  case (Cons x xs)
  have "start_code_at ((x # xs) @ rest) = 0"
    using Cons.prems by (intro payload_no_start_code) auto
  then have "nal_headers ((x # xs) @ rest) ext = nal_headers (xs @ rest) ext"
    by (subst nal_headers.simps) simp
  also have "\<dots> = nal_headers rest ext"
    using Cons.prems emulation_free_tl[of "x # xs"] by (intro Cons.IH) (auto split: if_splits)
  finally show ?case .
qed



definition nal_type264 :: "u8 list \<Rightarrow> u8" where "nal_type264 n = hd n AND 0x1f"
definition nal_type265 :: "u8 list \<Rightarrow> u8" where "nal_type265 n = drop_bit 1 (hd n) AND 0x3f"





text \<open>C14: the bound in \<open>startLen && startLen < len\<close> compares with the whole length instead of what is
  left, so an input of four bytes or more that ends with a start code, with no slice unit before
  it, makes both scanners read the byte after the end of the object.\<close>

theorem analyze_frames_overread:
  assumes "\<forall>n \<in> set ns. nal_ok n"
    "\<forall>n \<in> set ns. nal_type264 n \<noteq> 5 \<and> nal_type264 n \<noteq> 1"
    "\<forall>n \<in> set ns. nal_type265 n \<noteq> 19 \<and> nal_type265 n \<noteq> 20"
  shows "analyzeh264Frame (annexb ns @ [0, 0, 0, 1]) (length (annexb ns) + 4) = None \<and>
    analyzeh265Frame (annexb ns @ [0, 0, 0, 1]) (length (annexb ns) + 4) = None"
proof -
  let ?d = "annexb ns @ [0, 0, 0, 1]"
  have h: "nal_headers ?d None = map (\<lambda>n. Some (hd n)) ns @ [None]"
    using assms(1)
  proof (induction ns)
    case Nil
    show ?case by (subst nal_headers.simps) (simp add: annexb_def start_code_at.simps)
  next
    case (Cons n ns)
    then obtain h p where n: "n = h # p" "emulation_free p" "p \<noteq> [] \<longrightarrow> last p \<noteq> 0"
      by (cases n) (auto simp: nal_ok_def split: if_splits)
    have "annexb (n # ns) @ [0, 0, 0, 1] = 0 # 0 # 0 # 1 # h # p @ annexb ns @ [0, 0, 0, 1]"
      by (simp add: annexb_def n)
    then have "nal_headers (annexb (n # ns) @ [0, 0, 0, 1]) None
        = Some h # nal_headers (p @ annexb ns @ [0, 0, 0, 1]) None"
      by (subst nal_headers.simps) (simp add: start_code_at.simps)
    then show ?case using Cons n headers_payload by simp
  qed
  have "first_idr264 (map (\<lambda>n. Some (hd n)) ns @ [None]) = None"
    using assms(2) by (induction ns) (auto simp: nal_type264_def Let_def)
  moreover have "first_idr265 (map (\<lambda>n. Some (hd n)) ns @ [None]) = None"
    using assms(3) by (induction ns) (auto simp: nal_type265_def Let_def)
  moreover have "?d \<noteq> [0, 0, 1]" by (cases "annexb ns") auto
  moreover have "rd ?d (length ?d) = None" by (simp add: rd_def)
  ultimately have "h264_loop ?d (length ?d) 0 = None" "h265_loop ?d (length ?d) 0 = None"
    using h h264_loop_reference[of "length ?d" ?d 0] h265_loop_reference[of "length ?d" ?d 0]
    by simp_all
  moreover have "length (annexb ns) + 4 = length ?d" by simp
  ultimately show ?thesis by (simp only: analyzeh264Frame_def analyzeh265Frame_def)
qed

theorem analyze_frames_overread_witness:
  "analyzeh264Frame [0, 0, 0, 1, 0x67, 0x42, 0, 0, 0, 1] 10 = None"
proof -
  let ?ns = "[[0x67, 0x42]] :: u8 list list"
  have "\<forall>n \<in> set ?ns. nal_ok n" "\<forall>n \<in> set ?ns. nal_type264 n \<noteq> 5 \<and> nal_type264 n \<noteq> 1"
    "\<forall>n \<in> set ?ns. nal_type265 n \<noteq> 19 \<and> nal_type265 n \<noteq> 20"
    by (simp_all add: nal_ok_def nal_type264_def nal_type265_def)
  from conjunct1[OF analyze_frames_overread[OF this]] show ?thesis by (simp add: annexb_def)
qed

end
