(* ===== verification/TfEnc.thy ===== *)
theory TfEnc
  imports Frames Fifo TfCodec
begin

text \<open>
  The H.264/HEVC encoder wrapper libavcodec/tfenc.c. State: the fields of \<open>TfencContext\<close> (tfenc.h),
  the frame held in \<open>ctx->frame\<close>, the heap of the \<open>TfencBuffer\<close>s malloc'ed by the callback and
  the log of the calls of \<open>tfenc_process_frame\<close>. The encoder itself (libtfenc) is outside the
  repository: its creation is a parameter and its callback is an operation that may come between
  any two calls of the wrapper; the callback and the dequeueing calls are each atomic.
  The result \<open>None\<close> is undefined behaviour of the C code: an access outside an object, through
  a null or freed pointer, or a division by zero.

  A pointer is an address of the heap; the ready queue holds the 8 bytes of each pointer and the
  timestamp list the 8 bytes of each timestamp, so both are record queues over the ring buffer.
  The specification is a pair of lists (packets waiting, timestamps waiting); the simulation
  holds while at most four of either are waiting, and what happens past that bound is proved too.
\<close>

section \<open>State\<close>

record AVCodecContext =
  codec_id :: int
  cwidth :: nat
  cheight :: nat
  bit_rate :: int
  rc_max_rate :: int
  gop_size :: int
  framerate :: "int \<times> int"
  time_base :: "int \<times> int"
  ticks_per_frame :: int

record TfencBuffer =
  buf_data :: "u8 list"
  buf_len :: nat

record TfencContext =
  handle :: bool
  inputBuffer :: "u8 list option"
  frame :: "AVFrame option"
  nb_buffers :: nat
  closed :: bool
  tf_dev :: string
  rc :: int
  output_buffer_ready_queue :: "(nat \<times> nat) AVFifoBuffer option"
  timestamp_list :: "(int \<times> nat) AVFifoBuffer option"
  heap :: "TfencBuffer option list"
  sent :: "(u8 list \<times> int) list"

record AVPacket =
  pkt_data :: "u8 list"
  pkt_pts :: int
  pkt_dts :: int
  pkt_key :: bool
  quality :: int
  pict_type :: int

text \<open>\<open>free\<close> of a pointer: defined for a live object only.\<close>

definition free_buf :: "TfencBuffer option list \<Rightarrow> nat \<Rightarrow> TfencBuffer option list option" where
  "free_buf h p = (if p < length h \<and> h ! p \<noteq> None then Some (h[p := None]) else None)"

definition live :: "TfencBuffer option list \<Rightarrow> nat" where
  "live h = length (filter (\<lambda>b. b \<noteq> None) h)"

section \<open>Initialisation\<close>

text \<open>The \<open>tfenc_setting\<close> passed to the encoder; the profiles are enumerators of its header.\<close>

datatype tfenc_profile = PROFILE_AVC_MAIN | PROFILE_HEVC_MAIN

record tfenc_setting =
  profile :: tfenc_profile
  swidth :: nat
  sheight :: nat
  level :: int
  set_bit_rate :: int
  max_bit_rate :: int
  gop :: int
  frame_rate :: int
  device_id :: int
  rc_mode :: int

definition tfenc_setup_surfaces ::
    "(nat \<Rightarrow> (nat \<times> nat) list option) \<Rightarrow> bool \<Rightarrow> (nat \<Rightarrow> (int \<times> nat) list option) \<Rightarrow> bool
       \<Rightarrow> TfencContext \<Rightarrow> int \<times> TfencContext" where
  "tfenc_setup_surfaces malloc1 ok1 malloc2 ok2 ctx =
     (let ctx = ctx\<lparr>nb_buffers := 4\<rparr>;
          ctx = ctx\<lparr>output_buffer_ready_queue := av_fifo_alloc malloc1 ok1 (nb_buffers ctx * 8)\<rparr>
      in if output_buffer_ready_queue ctx = None then (ENOMEM, ctx)
         else
           (let ctx = ctx\<lparr>timestamp_list := av_fifo_alloc malloc2 ok2 (nb_buffers ctx * 8)\<rparr>
            in if timestamp_list ctx = None then (ENOMEM, ctx) else (0, ctx)))"

text \<open>\<open>sscanf(s, "/dev/al_enc%d", &device)\<close>: if it does not match, \<open>device\<close> keeps its value.\<close>

definition scan_device :: "string \<Rightarrow> int \<Rightarrow> int" where
  "scan_device s device =
     (if take 11 s = ''/dev/al_enc''
      then (case scan_int (drop 11 s) of None \<Rightarrow> device | Some (d, _) \<Rightarrow> d) else device)"

definition tfenc_device :: "string \<Rightarrow> int" where
  "tfenc_device dev = (if dev = ''/dev/al_enc'' then 0 else scan_device dev 0 - 1)"

definition tfenc_frame_rate :: "AVCodecContext \<Rightarrow> int option" where
  "tfenc_frame_rate avctx =
     (if fst (framerate avctx) > 0 \<and> snd (framerate avctx) > 0
      then Some (cdiv (fst (framerate avctx)) (snd (framerate avctx)))
      else if fst (time_base avctx) * ticks_per_frame avctx = 0 then None
      else Some (cdiv (snd (time_base avctx)) (fst (time_base avctx) * ticks_per_frame avctx)))"

text \<open>\<open>create\<close> is \<open>tfenc_encoder_create\<close>: whether it returns \<open>TFENC_SUCCESS\<close>.\<close>

definition tfenc_setup_device ::
    "(tfenc_setting \<Rightarrow> bool) \<Rightarrow> AVCodecContext \<Rightarrow> TfencContext \<Rightarrow> (int \<times> TfencContext) option" where
  "tfenc_setup_device create avctx ctx =
     (if codec_id avctx \<noteq> AV_CODEC_ID_H264 \<and> codec_id avctx \<noteq> AV_CODEC_ID_HEVC
      then Some (AVERROR_BUG, ctx)
      else
        Option.bind (tfenc_frame_rate avctx) (\<lambda>rate.
          (let br = (if bit_rate avctx > 0 then bit_rate avctx else 400000 * 4);
               setting =
                 \<lparr>profile = (if codec_id avctx = AV_CODEC_ID_H264 then PROFILE_AVC_MAIN else PROFILE_HEVC_MAIN),
                  swidth = cwidth avctx, sheight = cheight avctx, level = 51,
                  set_bit_rate = br,
                  max_bit_rate = (if rc_max_rate avctx > 0 then rc_max_rate avctx else br * 4),
                  gop = (if gop_size avctx \<ge> 0 then gop_size avctx else 60),
                  frame_rate = rate, device_id = tfenc_device (tf_dev ctx), rc_mode = rc ctx\<rparr>
           in if create setting then Some (0, ctx\<lparr>handle := True\<rparr>)
              else Some (AVERROR_EXTERNAL, ctx\<lparr>handle := False\<rparr>))))"

definition ff_tf_enc_init ::
    "(tfenc_setting \<Rightarrow> bool) \<Rightarrow> bool \<Rightarrow> (nat \<Rightarrow> u8 list option)
       \<Rightarrow> (nat \<Rightarrow> (nat \<times> nat) list option) \<Rightarrow> bool \<Rightarrow> (nat \<Rightarrow> (int \<times> nat) list option) \<Rightarrow> bool
       \<Rightarrow> AVCodecContext \<Rightarrow> TfencContext \<Rightarrow> (int \<times> TfencContext) option" where
  "ff_tf_enc_init create frame_ok malloc malloc1 ok1 malloc2 ok2 avctx ctx =
     Option.bind (tfenc_setup_device create avctx ctx) (\<lambda>(ret, ctx).
       if ret < 0 then Some (ret, ctx)
       else
         (let ctx = ctx\<lparr>frame := None, inputBuffer := malloc (cwidth avctx * cheight avctx * 3 div 2)\<rparr>
          in if \<not> frame_ok then Some (ENOMEM, ctx)
             else
               (let (ret, ctx) = tfenc_setup_surfaces malloc1 ok1 malloc2 ok2 ctx
                in if ret < 0 then Some (ret, ctx) else Some (0, ctx\<lparr>closed := False\<rparr>))))"

section \<open>The encoder's callback\<close>

definition output_ready :: "TfencContext \<Rightarrow> int option" where
  "output_ready ctx =
     map_option (\<lambda>q. s32 (u64_of (av_fifo_size q) div 8)) (output_buffer_ready_queue ctx)"

text \<open>\<open>buffer_ok\<close> and \<open>data_ok\<close>: the two calls of \<open>malloc\<close>, whose results are not checked.\<close>

definition ff_tfenc_callback ::
    "bool \<Rightarrow> bool \<Rightarrow> u8 list \<Rightarrow> TfencContext \<Rightarrow> TfencContext option" where
  "ff_tfenc_callback buffer_ok data_ok bytes ctx =
     (if \<not> buffer_ok \<or> (\<not> data_ok \<and> bytes \<noteq> []) then None
      else
        (let p = length (heap ctx);
             ctx = ctx\<lparr>heap := heap ctx @ [Some \<lparr>buf_data = bytes, buf_len = length bytes\<rparr>]\<rparr>
         in if closed ctx then Some ctx
            else
              Option.bind (output_buffer_ready_queue ctx) (\<lambda>q.
              Option.bind (av_fifo_generic_write q (frag 8 p) 8) (\<lambda>(_, q').
                Some (ctx\<lparr>output_buffer_ready_queue := Some q'\<rparr>)))))"

section \<open>Closing\<close>

definition read_ready :: "TfencContext \<Rightarrow> (nat \<times> TfencContext) option" where
  "read_ready ctx =
     Option.bind (output_buffer_ready_queue ctx) (\<lambda>q.
     Option.bind (av_fifo_generic_read memcpy_dest q [] 8) (\<lambda>(cells, q').
     Option.bind (unfrag 8 cells) (\<lambda>p.
       Some (p, ctx\<lparr>output_buffer_ready_queue := Some q'\<rparr>))))"

partial_function (option) close_loop :: "TfencContext \<Rightarrow> TfencContext option" where
  "close_loop ctx =
     Option.bind (output_ready ctx) (\<lambda>n.
       if n \<noteq> 0 then
         Option.bind (read_ready ctx) (\<lambda>(p, ctx').
         Option.bind (free_buf (heap ctx') p) (\<lambda>h.
           close_loop (ctx'\<lparr>heap := h\<rparr>)))
       else Some ctx)"

definition ff_tf_enc_close :: "TfencContext \<Rightarrow> (int \<times> TfencContext) option" where
  "ff_tf_enc_close ctx =
     Option.bind (close_loop (ctx\<lparr>closed := True\<rparr>)) (\<lambda>ctx.
       Some (0, ctx\<lparr>output_buffer_ready_queue := av_fifo_freep (output_buffer_ready_queue ctx),
                    timestamp_list := av_fifo_freep (timestamp_list ctx),
                    inputBuffer := None\<rparr>))"

section \<open>Sending a frame\<close>

definition AV_NUM_DATA_POINTERS :: nat where "AV_NUM_DATA_POINTERS = 8"

fun frame_size_loop :: "AVFrame \<Rightarrow> nat list \<Rightarrow> int \<Rightarrow> int" where
  "frame_size_loop f [] sz = sz"
| "frame_size_loop f (i # is) sz =
     (if plane f i \<noteq> None then
        (let plane_lines = (if i = 0 then height f else height f div 2)
         in frame_size_loop f is (s32 (sz + s32 (int plane_lines * int (stride f i)))))
      else frame_size_loop f is sz)"

definition avframe_get_size :: "AVFrame \<Rightarrow> int" where
  "avframe_get_size f =
     (if format f \<noteq> AV_PIX_FMT_YUV420P \<and> format f \<noteq> AV_PIX_FMT_NV12 then - 1
      else frame_size_loop f [0..<AV_NUM_DATA_POINTERS] 0)"

definition plane_bytes :: "AVFrame \<Rightarrow> nat \<Rightarrow> u8 list" where
  "plane_bytes f i = (case plane f i of None \<Rightarrow> [] | Some b \<Rightarrow> b)"

fun interleave :: "'a list \<Rightarrow> 'a list \<Rightarrow> 'a list" where
  "interleave (u # us) (v # vs) = u # v # interleave us vs"
| "interleave _ _ = []"

text \<open>The two inner loops of the I420 branch: a row of \<open>ls\<close> pairs is stored at a time.\<close>

fun copy_uv_rows ::
    "u8 list \<Rightarrow> nat \<Rightarrow> u8 list \<Rightarrow> u8 list \<Rightarrow> nat \<Rightarrow> nat \<Rightarrow> nat \<Rightarrow> u8 list option" where
  "copy_uv_rows dst d us vs s ls 0 = Some dst"
| "copy_uv_rows dst d us vs s ls (Suc n) =
     Option.bind (load us s ls) (\<lambda>u.
     Option.bind (load vs s ls) (\<lambda>v.
     Option.bind (store dst d (interleave u v)) (\<lambda>dst'.
       copy_uv_rows dst' (d + 2 * ls) us vs (s + ls) ls n)))"

definition copy_avframe_to_buffer :: "AVFrame \<Rightarrow> u8 list \<Rightarrow> u8 list option" where
  "copy_avframe_to_buffer f buf =
     Option.bind (copy_rows buf 0 (width f) (plane_bytes f 0) 0 (stride f 0) (width f) (height f)) (\<lambda>buf.
       if format f = AV_PIX_FMT_YUV420P then
         copy_uv_rows buf (height f * width f) (plane_bytes f 1) (plane_bytes f 2) 0 (stride f 1) (height f div 2)
       else if format f = AV_PIX_FMT_NV12 then
         copy_rows buf (height f * width f) (width f) (plane_bytes f 1) 0 (stride f 1) (width f) (height f div 2)
       else Some buf)"

definition timestamp_queue_enqueue ::
    "(int \<times> nat) AVFifoBuffer \<Rightarrow> int \<Rightarrow> (int \<times> nat) AVFifoBuffer option" where
  "timestamp_queue_enqueue queue timestamp =
     map_option snd (av_fifo_generic_write queue (frag 8 timestamp) 8)"

definition timestamp_queue_dequeue ::
    "(int \<times> nat) AVFifoBuffer \<Rightarrow> (int \<times> (int \<times> nat) AVFifoBuffer) option" where
  "timestamp_queue_dequeue queue =
     (if av_fifo_size queue > 0
      then Option.bind (av_fifo_generic_read memcpy_dest queue [] 8) (\<lambda>(cells, q').
             Option.bind (unfrag 8 cells) (\<lambda>t. Some (t, q')))
      else Some (AV_NOPTS_VALUE, queue))"

definition tfenc_send_frame :: "AVFrame option \<Rightarrow> TfencContext \<Rightarrow> (int \<times> TfencContext) option" where
  "tfenc_send_frame fr ctx =
     (case fr of
        Some f \<Rightarrow>
          (let frame_alloc_size = avframe_get_size f in
           Option.bind (inputBuffer ctx) (\<lambda>input.
           Option.bind (copy_avframe_to_buffer f input) (\<lambda>input'.
           Option.bind (timestamp_list ctx) (\<lambda>tq.
           Option.bind (timestamp_queue_enqueue tq (pts f)) (\<lambda>tq'.
             Some (0, ctx\<lparr>inputBuffer := Some input',
                          sent := sent ctx @ [(input', frame_alloc_size)],
                          timestamp_list := Some tq'\<rparr>))))))
      | None \<Rightarrow> Some (0, ctx))"

section \<open>Receiving a packet\<close>

definition tfenc_set_timestamp ::
    "AVCodecContext \<Rightarrow> AVPacket \<Rightarrow> TfencContext \<Rightarrow> (int \<times> AVPacket \<times> TfencContext) option" where
  "tfenc_set_timestamp avctx pkt ctx =
     Option.bind (timestamp_list ctx) (\<lambda>tq.
     Option.bind (timestamp_queue_dequeue tq) (\<lambda>(t, tq').
       (let frameIntervalP = (1::int);
            pkt = pkt\<lparr>pkt_dts := t\<rparr>;
            pkt = pkt\<lparr>pkt_pts := pkt_dts pkt\<rparr>;
            pkt = pkt\<lparr>pkt_dts := pkt_dts pkt -
              max (frameIntervalP - 1) 0 * max (ticks_per_frame avctx) 1 * max (fst (time_base avctx)) 1\<rparr>
        in Some (0, pkt, ctx\<lparr>timestamp_list := Some tq'\<rparr>))))"

definition AV_PICTURE_TYPE_I :: int where "AV_PICTURE_TYPE_I = 1"
definition AV_PICTURE_TYPE_P :: int where "AV_PICTURE_TYPE_P = 2"
definition FF_QP2LAMBDA :: int where "FF_QP2LAMBDA = 118"

text \<open>The scan for a key frame looks at the first 1000 bytes at most.\<close>

definition packet_nal_type :: "int \<Rightarrow> u8 list \<Rightarrow> nat \<Rightarrow> u8 option" where
  "packet_nal_type cid bytes len =
     (let maxlen = (if len < 1000 then len else 1000)
      in if cid = AV_CODEC_ID_H264 then analyzeh264Frame bytes maxlen
         else analyzeh265Frame bytes maxlen)"

text \<open>\<open>get_buf\<close> is the result of \<open>ff_get_encode_buffer\<close>; on success \<open>pkt->data\<close> has
  \<open>buf->len\<close> bytes. The packet is \<open>None\<close> when it is left as the caller gave it.\<close>

definition process_output_buffer ::
    "AVCodecContext \<Rightarrow> int \<Rightarrow> TfencBuffer \<Rightarrow> TfencContext \<Rightarrow> (int \<times> AVPacket option \<times> TfencContext) option" where
  "process_output_buffer avctx get_buf buf ctx =
     (if get_buf < 0 then
        Option.bind (timestamp_list ctx) (\<lambda>tq.
        Option.bind (timestamp_queue_dequeue tq) (\<lambda>(_, tq').
          Some (get_buf, None, ctx\<lparr>timestamp_list := Some tq'\<rparr>)))
      else
        Option.bind (load (buf_data buf) 0 (buf_len buf)) (\<lambda>bytes.
        Option.bind (packet_nal_type (codec_id avctx) (buf_data buf) (buf_len buf)) (\<lambda>nal_type.
          (let ptype = (if nal_type \<noteq> 0 then AV_PICTURE_TYPE_I else AV_PICTURE_TYPE_P);
               pkt = \<lparr>pkt_data = bytes, pkt_pts = AV_NOPTS_VALUE, pkt_dts = AV_NOPTS_VALUE,
                      pkt_key = (nal_type \<noteq> 0), quality = (51 - 1) * FF_QP2LAMBDA, pict_type = ptype\<rparr>
           in Option.bind (tfenc_set_timestamp avctx pkt ctx) (\<lambda>(res, pkt, ctx).
                if res < 0 then Some (res, Some pkt, ctx) else Some (0, Some pkt, ctx))))))"

text \<open>\<open>get_frame\<close> is the result of \<open>ff_encode_get_frame\<close> with the frame it filled.\<close>

definition ff_tf_enc_receive_packet ::
    "AVCodecContext \<Rightarrow> bool \<Rightarrow> int \<times> AVFrame option \<Rightarrow> int \<Rightarrow> TfencContext
       \<Rightarrow> (int \<times> AVPacket option \<times> TfencContext) option" where
  "ff_tf_enc_receive_packet avctx draining get_frame get_buf ctx =
     (let (res, ctx1) = (if frame ctx = None then (fst get_frame, ctx\<lparr>frame := snd get_frame\<rparr>) else (0, ctx))
      in if frame ctx = None \<and> res < 0 \<and> res \<noteq> AVERROR_EOF then Some (res, None, ctx1)
         else
           Option.bind (tfenc_send_frame (frame ctx1) ctx1) (\<lambda>(res, ctx2).
             if res < 0 \<and> res \<noteq> EAGAIN then Some (res, None, ctx2)
             else
               (let ctx3 = (if res < 0 then ctx2 else ctx2\<lparr>frame := None\<rparr>) in
                Option.bind (output_ready ctx3) (\<lambda>n.
                  if n \<noteq> 0 then
                    Option.bind (read_ready ctx3) (\<lambda>(p, ctx4).
                    Option.bind (if p < length (heap ctx4) then heap ctx4 ! p else None) (\<lambda>buf.
                    Option.bind (process_output_buffer avctx get_buf buf ctx4) (\<lambda>(res, pkt, ctx5).
                      if res \<noteq> 0 then Some (res, pkt, ctx5)
                      else Option.bind (free_buf (heap ctx5) p) (\<lambda>h. Some (0, pkt, ctx5\<lparr>heap := h\<rparr>)))))
                  else if draining then Some (AVERROR_EOF, None, ctx3)
                  else Some (EAGAIN, None, ctx3)))))"

definition ff_tf_encode_flush :: "TfencContext \<Rightarrow> TfencContext option" where
  "ff_tf_encode_flush ctx =
     Option.bind (tfenc_send_frame None ctx) (\<lambda>(_, ctx).
       map_option (\<lambda>tq. ctx\<lparr>timestamp_list := Some (av_fifo_reset tq)\<rparr>) (timestamp_list ctx))"

section \<open>The queues hold whole objects\<close>

text \<open>The ring buffer meets the record contract for objects of 8 bytes: pointers, timestamps.\<close>

interpretation words: record_queue fifo_ok contents "\<lambda>f. fend f" av_fifo_generic_write
  "\<lambda>f n. av_fifo_generic_read memcpy_dest f [] n" av_fifo_size av_fifo_reset 8
  by unfold_locales simp

definition holds :: "('r \<times> nat) AVFifoBuffer option \<Rightarrow> 'r list \<Rightarrow> bool" where
  "holds q rs \<longleftrightarrow> (\<exists>f. q = Some f \<and> fifo_ok f \<and> contents f = frags 8 rs \<and> fend f = 32)"

lemma holds_alloc:
  "malloc_ok malloc \<Longrightarrow> av_fifo_alloc malloc ok 32 \<noteq> None \<Longrightarrow> holds (av_fifo_alloc malloc ok 32) []"
  using fifo_alloc_ok[of malloc 32 ok] by (auto simp: holds_def)

lemma holds_put:
  assumes "holds (Some f) rs" "length rs < 4"
  shows "\<exists>f'. av_fifo_generic_write f (frag 8 r) 8 = Some (8, f') \<and> holds (Some f') (rs @ [r])"
  using words.put[of f rs r] assms by (auto simp: holds_def)

lemma holds_get:
  assumes "holds (Some f) (r # rs)"
  shows "\<exists>f'. av_fifo_generic_read memcpy_dest f [] 8 = Some (frag 8 r, f') \<and> holds (Some f') rs"
  using words.get[of f r rs] assms by (auto simp: holds_def)

lemma holds_level: "holds (Some f) rs \<Longrightarrow> av_fifo_size f = int (8 * length rs) \<and> length rs \<le> 4"
  using fifo.level[of f] words.fits[of f rs] by (auto simp: holds_def)

lemma holds_reset: "holds (Some f) rs \<Longrightarrow> holds (Some (av_fifo_reset f)) []"
  using fifo.clear[of f] by (auto simp: holds_def)

lemma output_ready_holds:
  assumes "holds (output_buffer_ready_queue ctx) ps"
  shows "output_ready ctx = Some (int (length ps))"
proof -
  obtain f where f: "output_buffer_ready_queue ctx = Some f" using assms by (auto simp: holds_def)
  then have "av_fifo_size f = int (8 * length ps)" "length ps \<le> 4" using holds_level[of f ps] assms by auto
  then show ?thesis using f by (simp add: output_ready_def cint_simps in_s32_def)
qed

lemma read_ready_holds:
  assumes "holds (output_buffer_ready_queue ctx) (p # ps)"
  shows "\<exists>q. read_ready ctx = Some (p, ctx\<lparr>output_buffer_ready_queue := q\<rparr>) \<and> holds q ps"
proof -
  obtain f where f: "output_buffer_ready_queue ctx = Some f" using assms by (auto simp: holds_def)
  then show ?thesis using holds_get[of f p ps] assms by (auto simp: read_ready_def)
qed

lemma enqueue_holds:
  assumes "holds (Some f) ts" "length ts < 4"
  shows "\<exists>f'. timestamp_queue_enqueue f t = Some f' \<and> holds (Some f') (ts @ [t])"
  using holds_put[OF assms, of t] by (auto simp: timestamp_queue_enqueue_def)

lemma dequeue_holds:
  assumes "holds (Some f) ts"
  shows "\<exists>f'. timestamp_queue_dequeue f = Some (case ts of [] \<Rightarrow> AV_NOPTS_VALUE | t # _ \<Rightarrow> t, f') \<and>
     holds (Some f') (tl ts)"
  using assms holds_level[OF assms] holds_get[of f "hd ts" "tl ts"]
  by (cases ts) (auto simp: timestamp_queue_dequeue_def)

section \<open>The heap of packets\<close>

lemma live_append [simp]: "live (h @ [Some b]) = Suc (live h)"
  by (simp add: live_def)

lemma live_free: "p < length h \<Longrightarrow> h ! p \<noteq> None \<Longrightarrow> Suc (live (h[p := None])) = live h"
proof (induction h arbitrary: p)
  case (Cons b h)
  then show ?case by (cases p) (auto simp: live_def)
qed simp

text \<open>The pointers \<open>ps\<close> are distinct and point to live buffers with the contents \<open>bs\<close>.\<close>

definition buffers_at :: "TfencBuffer option list \<Rightarrow> nat list \<Rightarrow> u8 list list \<Rightarrow> bool" where
  "buffers_at h ps bs \<longleftrightarrow> distinct ps \<and>
     list_all2 (\<lambda>p b. p < length h \<and> h ! p = Some \<lparr>buf_data = b, buf_len = length b\<rparr>) ps bs"

lemma buffers_at_nil [simp]: "buffers_at h [] bs \<longleftrightarrow> bs = []"
  by (auto simp: buffers_at_def)

lemma buffers_at_length: "buffers_at h ps bs \<Longrightarrow> length ps = length bs"
  by (auto simp: buffers_at_def dest: list_all2_lengthD)

lemma buffers_at_new:
  assumes "buffers_at h ps bs"
  shows "buffers_at (h @ [Some \<lparr>buf_data = b, buf_len = length b\<rparr>]) (ps @ [length h]) (bs @ [b])"
proof -
  have "length h \<notin> set ps" using assms by (auto simp: buffers_at_def list_all2_conv_all_nth in_set_conv_nth)
  moreover have "list_all2 (\<lambda>p b'. p < length (h @ [Some \<lparr>buf_data = b, buf_len = length b\<rparr>]) \<and>
      (h @ [Some \<lparr>buf_data = b, buf_len = length b\<rparr>]) ! p = Some \<lparr>buf_data = b', buf_len = length b'\<rparr>) ps bs"
    using assms unfolding buffers_at_def
    by (auto simp: nth_append elim!: list_all2_mono)
  ultimately show ?thesis
    using assms by (auto simp: buffers_at_def list_all2_appendI)
qed

lemma buffers_at_hd:
  assumes "buffers_at h (p # ps) (b # bs)"
  shows "p < length h" "h ! p = Some \<lparr>buf_data = b, buf_len = length b\<rparr>" "buffers_at h ps bs"
    "buffers_at (h[p := None]) ps bs" "free_buf h p = Some (h[p := None])" "Suc (live (h[p := None])) = live h"
proof -
  show 1: "p < length h" "h ! p = Some \<lparr>buf_data = b, buf_len = length b\<rparr>" "buffers_at h ps bs"
    using assms by (auto simp: buffers_at_def)
  have "p \<notin> set ps" using assms by (auto simp: buffers_at_def)
  then show "buffers_at (h[p := None]) ps bs"
    using 1(3) unfolding buffers_at_def
    by (auto simp: list_all2_conv_all_nth nth_list_update in_set_conv_nth)
  show "free_buf h p = Some (h[p := None])" "Suc (live (h[p := None])) = live h"
    using 1 live_free[of p h] by (auto simp: free_buf_def)
qed

lemma buffers_at_rotate: "buffers_at h (ps @ [p]) (bs @ [b]) \<Longrightarrow> buffers_at h (p # ps) (b # bs)"
  using list_all2_lengthD by (fastforce simp: buffers_at_def list_all2_append)

section \<open>Copying a frame\<close>

text \<open>The frames the wrapper registers itself for: NV12, of the size the context was opened with,
  with planes that hold all their rows.\<close>

definition nv12_frame :: "AVCodecContext \<Rightarrow> AVFrame \<Rightarrow> bool" where
  "nv12_frame avctx f \<longleftrightarrow>
     format f = AV_PIX_FMT_NV12 \<and> width f = cwidth avctx \<and> height f = cheight avctx \<and>
     (height f = 0 \<or> (height f - 1) * stride f 0 + width f \<le> length (plane_bytes f 0)) \<and>
     (height f div 2 = 0 \<or> (height f div 2 - 1) * stride f 1 + width f \<le> length (plane_bytes f 1))"

definition nv12_packed :: "AVFrame \<Rightarrow> u8 list" where
  "nv12_packed f =
     concat (rows (plane_bytes f 0) (stride f 0) (width f) (height f)) @
     concat (rows (plane_bytes f 1) (stride f 1) (width f) (height f div 2))"

lemma frame_size_rest: "\<forall>i \<in> set is. plane f i = None \<Longrightarrow> frame_size_loop f is sz = sz"
  by (induction "is") auto

lemma two_plane_size:
  assumes "data f = [Some y, Some uv]" "linesize f = [L, L]" "format f = AV_PIX_FMT_NV12"
    and "height f * L + height f div 2 * L < 2 ^ 31"
  shows "avframe_get_size f = int (height f * L + height f div 2 * L)"
proof -
  have p: "plane f 0 = Some y" "plane f 1 = Some uv" "stride f 0 = L" "stride f 1 = L"
    using assms by (simp_all add: plane_def stride_def)
  have r: "frame_size_loop f [2..<8] sz = sz" for sz
    by (rule frame_size_rest) (simp add: plane_def assms(1))
  have u: "[0..<AV_NUM_DATA_POINTERS] = 0 # 1 # [2..<8]"
    by (simp add: AV_NUM_DATA_POINTERS_def upt_conv_Cons numeral_2_eq_2)
  have n: "s32 (int n) = int n" if "n < 2 ^ 31" for n
    using that by (intro s32_id) (simp add: in_s32_def)
  have s: "s32 (int (height f) * int L) = int (height f * L)"
    "s32 (int (height f div 2) * int L) = int (height f div 2 * L)"
    "s32 (int (height f * L) + int (height f div 2 * L)) = int (height f * L + height f div 2 * L)"
    using assms(4) n[of "height f * L"] n[of "height f div 2 * L"] n[of "height f * L + height f div 2 * L"]
    by simp_all
  have "frame_size_loop f (0 # 1 # [2..<8]) 0 = int (height f * L + height f div 2 * L)"
    unfolding frame_size_loop.simps p r Let_def using s by (simp add: s32_id in_s32_def)
  then show ?thesis unfolding avframe_get_size_def u using assms(3) by simp
qed

lemma length_nv12_packed:
  assumes f: "nv12_frame avctx f"
  shows "length (nv12_packed f) = height f * width f + (height f div 2) * width f"
proof -
  have "length (concat (rows (plane_bytes f 0) (stride f 0) (width f) (height f))) = height f * width f"
    using f unfolding nv12_frame_def by (intro length_concat_rows) blast
  moreover have "length (concat (rows (plane_bytes f 1) (stride f 1) (width f) (height f div 2))) =
      height f div 2 * width f"
    using f unfolding nv12_frame_def by (intro length_concat_rows) blast
  ultimately show ?thesis by (simp add: nv12_packed_def)
qed

lemma nv12_fits: "h * w + (h div 2) * w \<le> w * h * 3 div (2::nat)"
proof -
  have "2 * (h * w + (h div 2) * w) \<le> w * h * 3"
    using mult_le_mono1[of "h div 2 * 2" h w] by (simp add: algebra_simps)
  then show ?thesis by (simp add: less_eq_div_iff_mult_less_eq algebra_simps)
qed

lemma copy_nv12:
  assumes f: "nv12_frame avctx f" and l: "length buf = cwidth avctx * cheight avctx * 3 div 2"
  shows "copy_avframe_to_buffer f buf = Some (nv12_packed f @ drop (length (nv12_packed f)) buf) \<and>
    length (nv12_packed f) \<le> length buf"
proof -
  let ?w = "width f" and ?h = "height f"
  let ?Y = "concat (rows (plane_bytes f 0) (stride f 0) ?w ?h)"
  let ?C = "concat (rows (plane_bytes f 1) (stride f 1) ?w (?h div 2))"
  have fit: "?h * ?w + (?h div 2) * ?w \<le> length buf"
    using nv12_fits[of ?h ?w] f l by (simp add: nv12_frame_def)
  have lY: "length ?Y = ?h * ?w" and lC: "length ?C = (?h div 2) * ?w"
    using f by (auto intro!: length_concat_rows simp: nv12_frame_def)
  have Y: "?h = 0 \<or> 0 + (?h - 1) * stride f 0 + ?w \<le> length (plane_bytes f 0)"
    and C: "?h div 2 = 0 \<or> 0 + (?h div 2 - 1) * stride f 1 + ?w \<le> length (plane_bytes f 1)"
    using f unfolding nv12_frame_def add_0 by blast+
  have 1: "copy_rows buf 0 ?w (plane_bytes f 0) 0 (stride f 0) ?w ?h = Some (?Y @ drop (?h * ?w) buf)"
    using copy_rows_packed[OF Y, of 0 buf] fit by simp
  have 2: "copy_rows (?Y @ drop (?h * ?w) buf) (?h * ?w) ?w (plane_bytes f 1) 0 (stride f 1) ?w (?h div 2)
     = Some (?Y @ ?C @ drop (?h * ?w + (?h div 2) * ?w) buf)"
    using copy_rows_packed[OF C, of "?h * ?w" "?Y @ drop (?h * ?w) buf"] fit lY
    by (simp add: add.commute)
  have "format f = AV_PIX_FMT_NV12" using f by (simp add: nv12_frame_def)
  then show ?thesis
    using fit lY lC by (simp add: copy_avframe_to_buffer_def 1 2[unfolded One_nat_def] nv12_packed_def)
qed

section \<open>Specification and simulation\<close>

text \<open>The encoder as its callers see it: the packets and the timestamps waiting, oldest first, and
  the number of packets whose memory will never be freed.\<close>

record enc_spec =
  pend :: "u8 list list"
  stamps :: "int list"
  leaked :: nat

datatype enc_event =
    Callback "u8 list"
  | Receive bool "int \<times> AVFrame option" int
  | Flush

fun enc_step :: "AVCodecContext \<Rightarrow> enc_event \<Rightarrow> TfencContext \<Rightarrow> (int \<times> AVPacket option \<times> TfencContext) option" where
  "enc_step avctx (Callback b) ctx = map_option (\<lambda>ctx. (0, None, ctx)) (ff_tfenc_callback True True b ctx)"
| "enc_step avctx (Receive draining get_frame get_buf) ctx =
     ff_tf_enc_receive_packet avctx draining get_frame get_buf ctx"
| "enc_step avctx Flush ctx = map_option (\<lambda>ctx. (0, None, ctx)) (ff_tf_encode_flush ctx)"

definition next_stamp :: "int list \<Rightarrow> int" where
  "next_stamp ts = (case ts of [] \<Rightarrow> AV_NOPTS_VALUE | t # _ \<Rightarrow> t)"

definition packet_of :: "AVCodecContext \<Rightarrow> u8 list \<Rightarrow> int \<Rightarrow> AVPacket" where
  "packet_of avctx b t =
     (let key = packet_nal_type (codec_id avctx) b (length b) \<noteq> Some 0
      in \<lparr>pkt_data = b, pkt_pts = t, pkt_dts = t, pkt_key = key, quality = 5900,
          pict_type = (if key then AV_PICTURE_TYPE_I else AV_PICTURE_TYPE_P)\<rparr>)"

definition frame_stamps :: "AVFrame option \<Rightarrow> int list" where
  "frame_stamps fr = (case fr of None \<Rightarrow> [] | Some f \<Rightarrow> [pts f])"

fun spec_step :: "AVCodecContext \<Rightarrow> enc_event \<Rightarrow> enc_spec \<Rightarrow> int \<times> AVPacket option \<times> enc_spec" where
  "spec_step avctx (Callback b) a = (0, None, a\<lparr>pend := pend a @ [b]\<rparr>)"
| "spec_step avctx (Receive draining (r, fr) get_buf) a =
     (if r < 0 \<and> r \<noteq> AVERROR_EOF then (r, None, a)
      else
        (let ts = stamps a @ frame_stamps fr in
         case pend a of
           [] \<Rightarrow> (if draining then AVERROR_EOF else EAGAIN, None, a\<lparr>stamps := ts\<rparr>)
         | b # bs \<Rightarrow>
             (if get_buf < 0
              then (get_buf, None, a\<lparr>pend := bs, stamps := tl ts, leaked := Suc (leaked a)\<rparr>)
              else (0, Some (packet_of avctx b (next_stamp ts)), a\<lparr>pend := bs, stamps := tl ts\<rparr>))))"
| "spec_step avctx Flush a = (0, None, a\<lparr>stamps := []\<rparr>)"

text \<open>What the environment keeps to: at most four packets and four timestamps wait, packets can be
  scanned for their type, frames are NV12 of the announced size, a failed
  \<open>ff_encode_get_frame\<close> gives no frame.\<close>

fun admissible :: "AVCodecContext \<Rightarrow> enc_event \<Rightarrow> enc_spec \<Rightarrow> bool" where
  "admissible avctx (Callback b) a \<longleftrightarrow>
     length (pend a) < 4 \<and> packet_nal_type (codec_id avctx) b (length b) \<noteq> None"
| "admissible avctx (Receive draining (r, fr) get_buf) a \<longleftrightarrow>
     (case fr of None \<Rightarrow> True | Some f \<Rightarrow> r \<ge> 0 \<and> nv12_frame avctx f \<and> length (stamps a) < 4)"
| "admissible avctx Flush a \<longleftrightarrow> True"

definition enc_rel :: "AVCodecContext \<Rightarrow> TfencContext \<Rightarrow> enc_spec \<Rightarrow> bool" where
  "enc_rel avctx ctx a \<longleftrightarrow>
     (\<exists>ps. holds (output_buffer_ready_queue ctx) ps \<and> buffers_at (heap ctx) ps (pend a)) \<and>
     holds (timestamp_list ctx) (stamps a) \<and>
     live (heap ctx) = length (pend a) + leaked a \<and>
     frame ctx = None \<and> \<not> closed ctx \<and>
     (\<exists>buf. inputBuffer ctx = Some buf \<and> length buf = cwidth avctx * cheight avctx * 3 div 2) \<and>
     (\<forall>b \<in> set (pend a). packet_nal_type (codec_id avctx) b (length b) \<noteq> None)"

lemma callback_simulates:
  assumes r: "enc_rel avctx ctx a" and adm: "admissible avctx (Callback b) a"
  shows "\<exists>ctx'. ff_tfenc_callback True True b ctx = Some ctx' \<and> enc_rel avctx ctx' (a\<lparr>pend := pend a @ [b]\<rparr>)"
proof -
  obtain ps q where q: "output_buffer_ready_queue ctx = Some q" "holds (Some q) ps" "buffers_at (heap ctx) ps (pend a)"
    using r by (auto simp: enc_rel_def holds_def)
  have "length ps < 4" using buffers_at_length[OF q(3)] adm by simp
  then obtain q' where q': "av_fifo_generic_write q (frag 8 (length (heap ctx))) 8 = Some (8, q')"
      "holds (Some q') (ps @ [length (heap ctx)])"
    using holds_put[OF q(2)] by blast
  show ?thesis
    using r q q' adm buffers_at_new[OF q(3), of b]
    by (auto simp: ff_tfenc_callback_def enc_rel_def)
qed

lemma send_simulates:
  assumes r: "enc_rel avctx (ctx\<lparr>frame := None\<rparr>) a"
    and fr: "case fr of None \<Rightarrow> True | Some f \<Rightarrow> nv12_frame avctx f \<and> length (stamps a) < 4"
  shows "\<exists>ctx'. tfenc_send_frame fr ctx = Some (0, ctx') \<and>
     enc_rel avctx (ctx'\<lparr>frame := None\<rparr>) (a\<lparr>stamps := stamps a @ frame_stamps fr\<rparr>)"
proof (cases fr)
  case None
  then show ?thesis using r by (simp add: tfenc_send_frame_def frame_stamps_def enc_rel_def)
next
  case (Some f)
  obtain buf tq where b: "inputBuffer ctx = Some buf" "length buf = cwidth avctx * cheight avctx * 3 div 2"
    and t: "timestamp_list ctx = Some tq" "holds (Some tq) (stamps a)"
    using r by (auto simp: enc_rel_def holds_def)
  obtain tq' where tq': "timestamp_queue_enqueue tq (pts f) = Some tq'" "holds (Some tq') (stamps a @ [pts f])"
    using enqueue_holds[OF t(2)] fr Some by auto
  show ?thesis
    using r Some b(1) t(1) tq' copy_nv12[OF _ b(2), of f] fr b(2)
    by (auto simp: tfenc_send_frame_def frame_stamps_def enc_rel_def)
qed

lemma packet_key: "b \<noteq> 0 \<longleftrightarrow> Some b \<noteq> Some (0::u8)"
  by simp

lemma process_simulates:
  assumes t: "holds (timestamp_list ctx) ts" and k: "packet_nal_type (codec_id avctx) b (length b) \<noteq> None"
  shows "\<exists>tq. holds tq (tl ts) \<and>
     process_output_buffer avctx get_buf \<lparr>buf_data = b, buf_len = length b\<rparr> ctx =
       Some (if get_buf < 0 then get_buf else 0,
             if get_buf < 0 then None else Some (packet_of avctx b (next_stamp ts)),
             ctx\<lparr>timestamp_list := tq\<rparr>)"
proof -
  obtain tq where tq: "timestamp_list ctx = Some tq" "holds (Some tq) ts" using t by (auto simp: holds_def)
  obtain tq' where tq': "timestamp_queue_dequeue tq = Some (next_stamp ts, tq')" "holds (Some tq') (tl ts)"
    using dequeue_holds[OF tq(2)] by (auto simp: next_stamp_def)
  obtain nal where nal: "packet_nal_type (codec_id avctx) b (length b) = Some nal" using k by auto
  show ?thesis
    using tq tq' nal
    by (intro exI[of _ "Some tq'"])
      (simp add: process_output_buffer_def tfenc_set_timestamp_def packet_of_def Let_def load_def FF_QP2LAMBDA_def)
qed

lemma ready_simulates:
  assumes r: "enc_rel avctx ctx a" and ne: "pend a = b # bs"
  shows "\<exists>p ctx1 ctx2.
     read_ready ctx = Some (p, ctx1) \<and> p < length (heap ctx1) \<and>
     heap ctx1 ! p = Some \<lparr>buf_data = b, buf_len = length b\<rparr> \<and>
     process_output_buffer avctx get_buf \<lparr>buf_data = b, buf_len = length b\<rparr> ctx1 =
       Some (if get_buf < 0 then get_buf else 0,
             if get_buf < 0 then None else Some (packet_of avctx b (next_stamp (stamps a))), ctx2) \<and>
     free_buf (heap ctx2) p = Some ((heap ctx2)[p := None]) \<and>
     enc_rel avctx ctx2 (a\<lparr>pend := bs, stamps := tl (stamps a), leaked := Suc (leaked a)\<rparr>) \<and>
     enc_rel avctx (ctx2\<lparr>heap := (heap ctx2)[p := None]\<rparr>) (a\<lparr>pend := bs, stamps := tl (stamps a)\<rparr>)"
proof -
  obtain ps' where "holds (output_buffer_ready_queue ctx) ps'" "buffers_at (heap ctx) ps' (b # bs)"
    using r ne by (auto simp: enc_rel_def)
  then obtain p ps where ps: "holds (output_buffer_ready_queue ctx) (p # ps)"
      "buffers_at (heap ctx) (p # ps) (b # bs)"
    by (cases ps') (auto simp: buffers_at_def)
  obtain q where q: "read_ready ctx = Some (p, ctx\<lparr>output_buffer_ready_queue := q\<rparr>)" "holds q ps"
    using read_ready_holds[OF ps(1)] by blast
  let ?c1 = "ctx\<lparr>output_buffer_ready_queue := q\<rparr>"
  have t: "holds (timestamp_list ?c1) (stamps a)" using r by (simp add: enc_rel_def)
  have k: "packet_nal_type (codec_id avctx) b (length b) \<noteq> None" using r ne by (simp add: enc_rel_def)
  obtain tq where tq: "holds tq (tl (stamps a))"
      "process_output_buffer avctx get_buf \<lparr>buf_data = b, buf_len = length b\<rparr> ?c1 =
       Some (if get_buf < 0 then get_buf else 0,
             if get_buf < 0 then None else Some (packet_of avctx b (next_stamp (stamps a))),
             ?c1\<lparr>timestamp_list := tq\<rparr>)"
    using process_simulates[OF t k] by blast
  show ?thesis
    using q tq buffers_at_hd[OF ps(2)] r ne
    by (intro exI[of _ p] exI[of _ ?c1] exI[of _ "?c1\<lparr>timestamp_list := tq\<rparr>"]) (auto simp: enc_rel_def)
qed

lemma receive_simulates:
  assumes r: "enc_rel avctx ctx a" and adm: "admissible avctx (Receive d (res, fr) get_buf) a"
  shows "\<exists>out pkt ctx'. ff_tf_enc_receive_packet avctx d (res, fr) get_buf ctx = Some (out, pkt, ctx') \<and>
     (\<exists>a'. spec_step avctx (Receive d (res, fr) get_buf) a = (out, pkt, a') \<and> enc_rel avctx ctx' a')"
proof (cases "res < 0 \<and> res \<noteq> AVERROR_EOF")
  case True
  then have "fr = None" using adm by (cases fr) auto
  then show ?thesis using True r by (auto simp: ff_tf_enc_receive_packet_def enc_rel_def Let_def)
next
  case False
  let ?a = "a\<lparr>stamps := stamps a @ frame_stamps fr\<rparr>"
  have fn: "frame ctx = None" using r by (simp add: enc_rel_def)
  have r1: "enc_rel avctx ((ctx\<lparr>frame := fr\<rparr>)\<lparr>frame := None\<rparr>) a" using r by (simp add: enc_rel_def)
  obtain ctx2 where s: "tfenc_send_frame fr (ctx\<lparr>frame := fr\<rparr>) = Some (0, ctx2)"
      and r2: "enc_rel avctx (ctx2\<lparr>frame := None\<rparr>) ?a"
    using send_simulates[OF r1, of fr] adm by (cases fr) auto
  let ?c3 = "ctx2\<lparr>frame := None\<rparr>"
  have rdy: "output_ready ?c3 = Some (int (length (pend a)))"
    using r2 output_ready_holds[of ?c3] buffers_at_length by (fastforce simp: enc_rel_def)
  show ?thesis
  proof (cases "pend a")
    case Nil
    then show ?thesis
      using False r2 by (auto simp: ff_tf_enc_receive_packet_def Let_def fn s rdy)
  next
    case (Cons b bs)
    then have ne: "pend ?a = b # bs" by simp
    obtain p c1 c2 where
      "read_ready ?c3 = Some (p, c1)" "p < length (heap c1)" "heap c1 ! p = Some \<lparr>buf_data = b, buf_len = length b\<rparr>"
      "process_output_buffer avctx get_buf \<lparr>buf_data = b, buf_len = length b\<rparr> c1 =
       Some (if get_buf < 0 then get_buf else 0,
             if get_buf < 0 then None else Some (packet_of avctx b (next_stamp (stamps ?a))), c2)"
      "free_buf (heap c2) p = Some ((heap c2)[p := None])"
      "enc_rel avctx c2 (?a\<lparr>pend := bs, stamps := tl (stamps ?a), leaked := Suc (leaked ?a)\<rparr>)"
      "enc_rel avctx (c2\<lparr>heap := (heap c2)[p := None]\<rparr>) (?a\<lparr>pend := bs, stamps := tl (stamps ?a)\<rparr>)"
      using ready_simulates[OF r2 ne, of get_buf] by blast
    then show ?thesis
      using False Cons by (auto simp: ff_tf_enc_receive_packet_def Let_def fn s rdy)
  qed
qed

lemma flush_simulates:
  assumes "enc_rel avctx ctx a"
  shows "\<exists>ctx'. ff_tf_encode_flush ctx = Some ctx' \<and> enc_rel avctx ctx' (a\<lparr>stamps := []\<rparr>)"
proof -
  obtain tq where "timestamp_list ctx = Some tq" "holds (Some tq) (stamps a)"
    using assms by (auto simp: enc_rel_def holds_def)
  then show ?thesis
    using assms holds_reset[of tq "stamps a"]
    by (simp add: ff_tf_encode_flush_def tfenc_send_frame_def enc_rel_def)
qed

lemma step_simulates:
  assumes "enc_rel avctx ctx a" "admissible avctx e a"
  shows "\<exists>out pkt ctx' a'. enc_step avctx e ctx = Some (out, pkt, ctx') \<and>
     spec_step avctx e a = (out, pkt, a') \<and> enc_rel avctx ctx' a'"
proof (cases e)
  case (Callback b)
  then show ?thesis using callback_simulates[OF assms(1)] assms(2) by fastforce
next
  case (Receive d gf gb)
  then show ?thesis
    using receive_simulates[OF assms(1), of d "fst gf" "snd gf" gb] assms(2) by fastforce
next
  case Flush
  then show ?thesis using flush_simulates[OF assms(1)] by fastforce
qed

fun enc_run :: "AVCodecContext \<Rightarrow> enc_event list \<Rightarrow> TfencContext \<Rightarrow> ((int \<times> AVPacket option) list \<times> TfencContext) option" where
  "enc_run avctx [] ctx = Some ([], ctx)"
| "enc_run avctx (e # es) ctx =
     Option.bind (enc_step avctx e ctx) (\<lambda>(out, pkt, ctx).
     Option.bind (enc_run avctx es ctx) (\<lambda>(outs, ctx). Some ((out, pkt) # outs, ctx)))"

fun spec_run :: "AVCodecContext \<Rightarrow> enc_event list \<Rightarrow> enc_spec \<Rightarrow> (int \<times> AVPacket option) list \<times> enc_spec" where
  "spec_run avctx [] a = ([], a)"
| "spec_run avctx (e # es) a =
     (let (out, pkt, a) = spec_step avctx e a; (outs, a) = spec_run avctx es a
      in ((out, pkt) # outs, a))"

fun admissible_run :: "AVCodecContext \<Rightarrow> enc_event list \<Rightarrow> enc_spec \<Rightarrow> bool" where
  "admissible_run avctx [] a \<longleftrightarrow> True"
| "admissible_run avctx (e # es) a \<longleftrightarrow>
     admissible avctx e a \<and> admissible_run avctx es (snd (snd (spec_step avctx e a)))"

lemma run_simulates:
  assumes "enc_rel avctx ctx a" "admissible_run avctx es a"
  shows "\<exists>outs ctx'. enc_run avctx es ctx = Some (outs, ctx') \<and> outs = fst (spec_run avctx es a) \<and>
     enc_rel avctx ctx' (snd (spec_run avctx es a))"
  using assms
proof (induction es arbitrary: ctx a)
  case (Cons e es)
  obtain out pkt c a' where 1: "enc_step avctx e ctx = Some (out, pkt, c)"
      "spec_step avctx e a = (out, pkt, a')" "enc_rel avctx c a'"
    using step_simulates[OF Cons.prems(1), of e] Cons.prems(2) by auto
  then show ?case using Cons.IH[of c a'] Cons.prems(2) by (auto split: prod.splits)
qed simp

lemma close_loop_frees:
  assumes "holds (output_buffer_ready_queue ctx) ps" "buffers_at (heap ctx) ps bs"
  shows "\<exists>ctx'. close_loop ctx = Some ctx' \<and> live (heap ctx') + length bs = live (heap ctx) \<and>
     closed ctx' = closed ctx"
  using assms
proof (induction bs arbitrary: ctx ps)
  case Nil
  then have "ps = []" using buffers_at_length by fastforce
  then show ?case
    using Nil.prems output_ready_holds[of ctx "[]"] by (subst close_loop.simps) simp
next
  case (Cons b bs)
  then obtain p ps' where ps: "ps = p # ps'" by (cases ps) (auto simp: buffers_at_def)
  obtain q where q: "read_ready ctx = Some (p, ctx\<lparr>output_buffer_ready_queue := q\<rparr>)" "holds q ps'"
    using read_ready_holds[of ctx p ps'] Cons.prems(1) ps by blast
  note h = buffers_at_hd[OF Cons.prems(2)[unfolded ps]]
  let ?c = "ctx\<lparr>output_buffer_ready_queue := q, heap := (heap ctx)[p := None]\<rparr>"
  obtain c' where c': "close_loop ?c = Some c'" "live (heap c') + length bs = live ((heap ctx)[p := None])"
      "closed c' = closed ctx"
    using Cons.IH[of ?c ps'] q(2) h(4) by auto
  have "close_loop ctx = close_loop ?c"
    using q h(5) output_ready_holds[OF Cons.prems(1)] ps by (subst close_loop.simps) simp
  then show ?case using c' h(6) by auto
qed

lemma close_frees:
  assumes "enc_rel avctx ctx a"
  shows "\<exists>ctx'. ff_tf_enc_close ctx = Some (0, ctx') \<and> live (heap ctx') = leaked a \<and> closed ctx' \<and>
     output_buffer_ready_queue ctx' = None \<and> timestamp_list ctx' = None \<and> inputBuffer ctx' = None"
proof -
  obtain ps where ps: "holds (output_buffer_ready_queue ctx) ps" "buffers_at (heap ctx) ps (pend a)"
    using assms by (auto simp: enc_rel_def)
  obtain c' where "close_loop (ctx\<lparr>closed := True\<rparr>) = Some c'"
      "live (heap c') + length (pend a) = live (heap ctx)" "closed c'"
    using close_loop_frees[of "ctx\<lparr>closed := True\<rparr>" ps "pend a"] ps by auto
  then show ?thesis using assms by (auto simp: ff_tf_enc_close_def av_fifo_freep_def enc_rel_def)
qed

lemma init_establishes:
  assumes "ff_tf_enc_init create fok malloc malloc1 ok1 malloc2 ok2 avctx ctx0 = Some (0, ctx)"
    and m: "malloc_ok malloc" "malloc_ok malloc1" "malloc_ok malloc2"
    and "heap ctx0 = []" "inputBuffer ctx \<noteq> None"
  shows "enc_rel avctx ctx \<lparr>pend = [], stamps = [], leaked = 0\<rparr>"
proof -
  obtain c1 where dev: "tfenc_setup_device create avctx ctx0 = Some (0, c1)"
    using assms(1)
    by (auto simp: ff_tf_enc_init_def tfenc_setup_device_def Let_def split: if_splits option.splits
        dest!: bind_eq_SomeD)
  have h: "heap c1 = []"
    using dev assms(5)
    by (auto simp: tfenc_setup_device_def Let_def split: if_splits dest!: bind_eq_SomeD)
  let ?q = "av_fifo_alloc malloc1 ok1 32" and ?t = "av_fifo_alloc malloc2 ok2 32"
  have ne: "?q \<noteq> None" "?t \<noteq> None" and ctx: "ctx = c1\<lparr>frame := None,
       inputBuffer := malloc (cwidth avctx * cheight avctx * 3 div 2), nb_buffers := 4,
       output_buffer_ready_queue := ?q, timestamp_list := ?t, closed := False\<rparr>"
    using assms(1)
    by (auto simp: ff_tf_enc_init_def dev tfenc_setup_surfaces_def Let_def split: if_splits)
  obtain buf where "malloc (cwidth avctx * cheight avctx * 3 div 2) = Some buf"
    using assms(6) by (auto simp: ctx)
  moreover from this have "length buf = cwidth avctx * cheight avctx * 3 div 2"
    using m(1) by (simp add: malloc_ok_def)
  moreover have "\<exists>ps. holds ?q ps \<and> buffers_at (heap c1) ps []"
    using holds_alloc[OF m(2) ne(1)] by (intro exI[of _ "[]"]) simp
  ultimately show ?thesis
    using holds_alloc[OF m(3) ne(2)] h by (simp add: enc_rel_def ctx live_def)
qed

text \<open>A context as \<open>avcodec_open2\<close> hands it to \<open>init\<close>: zeroed, with the default options.\<close>

definition enc_fresh :: TfencContext where
  "enc_fresh = \<lparr>handle = False, inputBuffer = None, frame = None, nb_buffers = 0, closed = False,
     tf_dev = ''/dev/al_enc'', rc = 0, output_buffer_ready_queue = None, timestamp_list = None,
     heap = [], sent = []\<rparr>"

section \<open>A fifth packet\<close>

text \<open>The queue after an overrun: the records the reader is going to meet.\<close>

definition spins :: "('r \<times> nat) AVFifoBuffer option \<Rightarrow> 'r list \<Rightarrow> bool" where
  "spins q rs \<longleftrightarrow> (\<exists>f. q = Some f \<and> ring_ok f \<and> contents f = frags 8 rs \<and> length rs \<le> 5)"

lemma spins_get:
  assumes "spins q (r # rs)"
  shows "\<exists>f f'. q = Some f \<and> av_fifo_generic_read memcpy_dest f [] 8 = Some (frag 8 r, f') \<and> spins (Some f') rs"
proof -
  obtain f where f: "q = Some f" "ring_ok f" "contents f = frags 8 (r # rs)" "length rs < 5"
    using assms by (auto simp: spins_def)
  then have "8 \<le> fifo_used f" by (simp flip: length_contents)
  then show ?thesis using ring_read[OF f(2), of 8 "[]"] f by (auto simp: spins_def)
qed

lemma spins_ready:
  assumes "spins (output_buffer_ready_queue ctx) ps"
  shows "output_ready ctx = Some (int (length ps))"
proof -
  obtain f where f: "output_buffer_ready_queue ctx = Some f" "contents f = frags 8 ps" "length ps \<le> 5"
    using assms by (auto simp: spins_def)
  then have u: "fifo_used f = 8 * length ps" by (simp flip: length_contents)
  then have "av_fifo_size f = int (8 * length ps)" using f(3) fifo_size_used[of f] by simp
  then show ?thesis using f by (simp add: output_ready_def cint_simps in_s32_def)
qed

lemma overrun_callback:
  assumes r: "enc_rel avctx ctx a" and l: "length (pend a) = 4"
  shows "\<exists>p1 p2 p3 p4 ctx'. ff_tfenc_callback True True b ctx = Some ctx' \<and>
     spins (output_buffer_ready_queue ctx') [p4, p1, p2, p3, p4] \<and>
     buffers_at (heap ctx') [p4, p1, p2, p3] (b # tl (pend a)) \<and>
     frame ctx' = None \<and> timestamp_list ctx' = timestamp_list ctx"
proof -
  obtain ps q where q: "output_buffer_ready_queue ctx = Some q" "holds (Some q) ps" "buffers_at (heap ctx) ps (pend a)"
    using r by (auto simp: enc_rel_def holds_def)
  have "length ps = 4" using buffers_at_length[OF q(3)] l by simp
  then obtain p0 p1 p2 p3 where ps: "ps = [p0, p1, p2, p3]" by (auto simp: eval_nat_numeral length_Suc_conv)
  let ?p = "length (heap ctx)" and ?new = "Some \<lparr>buf_data = b, buf_len = length b\<rparr>"
  have f: "fifo_ok q" "contents q = frags 8 ps" "fend q = 32" using q(2) by (auto simp: holds_def)
  then have u: "fifo_used q = fend q" using ps by (simp flip: length_contents)
  obtain q' where w: "av_fifo_generic_write q (frag 8 ?p) 8 = Some (8, q')" "ring_ok q'"
      "contents q' = frag 8 ?p @ drop 8 (contents q) @ frag 8 ?p"
    using fifo_write_full[OF f(1) u, of 8 "frag 8 ?p"] f(3) by auto
  have "spins (Some q') [?p, p1, p2, p3, ?p]" using w f(2) ps by (simp add: spins_def)
  moreover have "buffers_at (heap ctx @ [?new]) (ps @ [?p]) (pend a @ [b])" by (rule buffers_at_new[OF q(3)])
  then have "buffers_at (heap ctx @ [?new]) ([p1, p2, p3] @ [?p]) (tl (pend a) @ [b])"
    using ps l by (cases "pend a") (auto simp: buffers_at_def)
  then have "buffers_at (heap ctx @ [?new]) [?p, p1, p2, p3] (b # tl (pend a))"
    by (rule buffers_at_rotate)
  ultimately show ?thesis
    using r q(1) w(1) by (intro exI[of _ p1] exI[of _ p2] exI[of _ p3] exI[of _ ?p])
      (simp add: ff_tfenc_callback_def enc_rel_def)
qed

text \<open>\<open>receive_packet\<close> while draining: no more frames, and a packet buffer can be had.\<close>

definition drain_event :: enc_event where
  "drain_event = Receive True (AVERROR_EOF, None) 0"

lemma overrun_receive:
  assumes q: "spins (output_buffer_ready_queue ctx) (p # ps)" and f: "frame ctx = None"
    and t: "holds (timestamp_list ctx) ts"
    and h: "p < length (heap ctx)" "heap ctx ! p = Some \<lparr>buf_data = b, buf_len = length b\<rparr>"
    and k: "packet_nal_type (codec_id avctx) b (length b) \<noteq> None"
  shows "\<exists>pkt ctx'. enc_step avctx drain_event ctx = Some (0, Some pkt, ctx') \<and> pkt_data pkt = b \<and>
     spins (output_buffer_ready_queue ctx') ps \<and> frame ctx' = None \<and> holds (timestamp_list ctx') (tl ts) \<and>
     heap ctx' = (heap ctx)[p := None]"
proof -
  obtain g g' where g: "output_buffer_ready_queue ctx = Some g"
      "av_fifo_generic_read memcpy_dest g [] 8 = Some (frag 8 p, g')" "spins (Some g') ps"
    using spins_get[OF q] by blast
  let ?c = "ctx\<lparr>output_buffer_ready_queue := Some g'\<rparr>"
  have fc: "ctx\<lparr>frame := None\<rparr> = ctx" using f by simp
  have rd: "read_ready ctx = Some (p, ?c)" by (simp add: read_ready_def g)
  obtain tq where tq: "holds tq (tl ts)"
    "process_output_buffer avctx 0 \<lparr>buf_data = b, buf_len = length b\<rparr> ?c =
       Some (0, Some (packet_of avctx b (next_stamp ts)), ?c\<lparr>timestamp_list := tq\<rparr>)"
    using process_simulates[of ?c ts avctx b 0] t k by auto
  have fr: "free_buf (heap ctx) p = Some ((heap ctx)[p := None])" using h by (simp add: free_buf_def)
  show ?thesis
    using spins_ready[OF q] tq(1) g(3) h(1)
    by (simp add: drain_event_def ff_tf_enc_receive_packet_def Let_def f fc tfenc_send_frame_def rd h(2) tq(2) fr)
      (simp add: packet_of_def Let_def)
qed

lemma overrun_receive_freed:
  assumes q: "spins (output_buffer_ready_queue ctx) (p # ps)" and f: "frame ctx = None"
    and h: "p < length (heap ctx) \<longrightarrow> heap ctx ! p = None"
  shows "enc_step avctx drain_event ctx = None"
proof -
  obtain g g' where g: "output_buffer_ready_queue ctx = Some g"
      "av_fifo_generic_read memcpy_dest g [] 8 = Some (frag 8 p, g')"
    using spins_get[OF q] by blast
  have fc: "ctx\<lparr>frame := None\<rparr> = ctx" using f by simp
  have rd: "read_ready ctx = Some (p, ctx\<lparr>output_buffer_ready_queue := Some g'\<rparr>)" by (simp add: read_ready_def g)
  show ?thesis
    using spins_ready[OF q] h
    by (simp add: drain_event_def ff_tf_enc_receive_packet_def Let_def f fc tfenc_send_frame_def rd)
qed

lemma overrun_drain:
  assumes "spins (output_buffer_ready_queue ctx) (ps @ [p])" "buffers_at (heap ctx) ps bs"
    "frame ctx = None" "holds (timestamp_list ctx) ts" "heap ctx ! p = None \<or> p \<in> set ps"
    "\<forall>b \<in> set bs. packet_nal_type (codec_id avctx) b (length b) \<noteq> None"
  shows "(\<exists>outs ctx'. enc_run avctx (replicate (length bs) drain_event) ctx = Some (outs, ctx') \<and>
       map (map_option pkt_data \<circ> snd) outs = map Some bs) \<and>
     enc_run avctx (replicate (Suc (length bs)) drain_event) ctx = None"
  using assms
proof (induction bs arbitrary: ps ctx ts)
  case Nil
  then have ps: "ps = []" using buffers_at_length[OF Nil.prems(2)] by simp
  have "enc_step avctx drain_event ctx = None"
    using Nil.prems ps by (intro overrun_receive_freed[where p = p and ps = "[]"]) auto
  then show ?case by simp
next
  case (Cons b bs)
  then obtain r rs where ps: "ps = r # rs" by (cases ps) (auto simp: buffers_at_def)
  note h = buffers_at_hd[OF Cons.prems(2)[unfolded ps]]
  obtain pkt c where c: "enc_step avctx drain_event ctx = Some (0, Some pkt, c)" "pkt_data pkt = b"
     "spins (output_buffer_ready_queue c) (rs @ [p])" "frame c = None" "holds (timestamp_list c) (tl ts)"
     "heap c = (heap ctx)[r := None]"
    using overrun_receive[of ctx r "rs @ [p]" ts b avctx] Cons.prems h(1,2) ps by auto
  have "heap c ! p = None \<or> p \<in> set rs"
    using Cons.prems(5) ps c(6) h(1) by (cases "p = r") auto
  then have "(\<exists>outs ctx'. enc_run avctx (replicate (length bs) drain_event) c = Some (outs, ctx') \<and>
       map (map_option pkt_data \<circ> snd) outs = map Some bs) \<and>
     enc_run avctx (replicate (Suc (length bs)) drain_event) c = None" (is "?P \<and> ?Q")
    using c h(4) Cons.prems(6) by (intro Cons.IH[of c rs "tl ts"]) auto
  then have IH: ?P ?Q by blast+
  have "enc_run avctx (drain_event # replicate (Suc (length bs)) drain_event) ctx = None"
    by (simp only: enc_run.simps(2) c(1) bind.bind_lunit prod.case IH(2) bind.bind_lzero)
  moreover have "\<exists>outs ctx'. enc_run avctx (drain_event # replicate (length bs) drain_event) ctx = Some (outs, ctx') \<and>
      map (map_option pkt_data \<circ> snd) outs = map Some (b # bs)"
    using IH(1) c(1,2) by (auto simp: comp_def)
  ultimately show ?case by (simp only: list.size(4) add_0_right add_Suc_right replicate_Suc One_nat_def)
qed

section \<open>A concrete encoder\<close>

definition sample_avctx :: AVCodecContext where
  "sample_avctx = \<lparr>codec_id = AV_CODEC_ID_H264, cwidth = 2, cheight = 2, bit_rate = 2000000, rc_max_rate = 0,
     gop_size = 50, framerate = (25, 1), time_base = (1, 25), ticks_per_frame = 1\<rparr>"

definition sample_frame :: AVFrame where
  "sample_frame = \<lparr>format = AV_PIX_FMT_NV12, width = 2, height = 2,
     data = [Some [1, 2, 0, 3, 4, 0], Some [5, 6, 0]], linesize = [3, 3], pts = 7, key_frame = False\<rparr>"

definition sample_enc :: TfencContext where
  "sample_enc = enc_fresh\<lparr>handle := True, nb_buffers := 4, inputBuffer := Some (replicate 6 0),
     output_buffer_ready_queue := Some \<lparr>buffer = replicate 32 (0, 0), rptr = 0, wptr = 0, rndx = 0, wndx = 0\<rparr>,
     timestamp_list := Some \<lparr>buffer = replicate 32 (0, 0), rptr = 0, wptr = 0, rndx = 0, wndx = 0\<rparr>\<rparr>"

lemma sample_init:
  "ff_tf_enc_init (\<lambda>_. True) True (\<lambda>n. Some (replicate n 0)) (\<lambda>n. Some (replicate n (0, 0))) True
     (\<lambda>n. Some (replicate n (0, 0))) True sample_avctx enc_fresh = Some (0, sample_enc)"
  by (simp add: ff_tf_enc_init_def tfenc_setup_device_def tfenc_frame_rate_def sample_avctx_def Let_def
      tfenc_setup_surfaces_def av_fifo_alloc_def av_malloc_def max_alloc_size_def fifo_alloc_common_def
      av_fifo_reset_def sample_enc_def enc_fresh_def)

lemma sample_nv12: "nv12_frame sample_avctx sample_frame"
  by (simp add: nv12_frame_def sample_avctx_def sample_frame_def plane_bytes_def plane_def stride_def)

lemma sample_key: "packet_nal_type (codec_id sample_avctx) [0, 0, 0, 1, 0x65, 0x88]
     (length [0, 0, 0, 1, 0x65, 0x88 :: u8]) = Some 5"
  by (simp add: packet_nal_type_def sample_avctx_def analyzeh264Frame_def h264_loop.simps
      h2645_start_code_def rd_def)

text \<open>Four packets waiting: the initial context after four callbacks.\<close>

definition sample_full :: TfencContext where
  "sample_full = (case enc_run sample_avctx (map (\<lambda>b. Callback [b]) [1, 2, 3, 4]) sample_enc of
     None \<Rightarrow> sample_enc | Some (_, ctx) \<Rightarrow> ctx)"

lemma sample_full_rel:
  "enc_rel sample_avctx sample_full \<lparr>pend = [[1], [2], [3], [4]], stamps = [], leaked = 0\<rparr>"
proof -
  let ?es = "map (\<lambda>b. Callback [b]) [1, 2, 3, 4 :: u8]" and ?a = "\<lparr>pend = [], stamps = [], leaked = 0\<rparr>"
  have k: "packet_nal_type (codec_id sample_avctx) [b] (Suc 0) = Some 0" for b
    by (simp add: packet_nal_type_def sample_avctx_def analyzeh264Frame_def h264_loop.simps h2645_start_code_def)
  have "enc_rel sample_avctx sample_enc ?a"
    using sample_init by (rule init_establishes) (simp_all add: malloc_ok_def enc_fresh_def sample_enc_def)
  moreover have "admissible_run sample_avctx ?es ?a" by (simp add: k)
  ultimately obtain c where "enc_run sample_avctx ?es sample_enc = Some (fst (spec_run sample_avctx ?es ?a), c)"
      "enc_rel sample_avctx c (snd (spec_run sample_avctx ?es ?a))"
    using run_simulates by blast
  then show ?thesis by (simp add: sample_full_def del: enc_run.simps)
qed

section \<open>Properties\<close>

text \<open>C1: After a successful \<open>ff_tf_enc_init\<close>, every sequence of callbacks, \<open>receive_packet\<close> calls and
  flushes that leaves at most four packets and timestamps waiting runs without undefined
  behaviour and returns what the queue specification returns: the packets in the order of the
  callbacks, byte for byte, with the timestamps in the order the frames were sent, the key flag
  from the NAL scan, \<open>EAGAIN\<close>, \<open>EOF\<close> and the error codes on the other branches. Closing then
  frees every buffer except those lost when \<open>ff_get_encode_buffer\<close> failed.\<close>

theorem encoder_simulates_queues:
  assumes "ff_tf_enc_init create fok malloc malloc1 ok1 malloc2 ok2 avctx ctx0 = Some (0, ctx)"
    and "malloc_ok malloc" "malloc_ok malloc1" "malloc_ok malloc2"
    and "heap ctx0 = []" "inputBuffer ctx \<noteq> None"
    and "admissible_run avctx es \<lparr>pend = [], stamps = [], leaked = 0\<rparr>"
  shows "\<exists>ctx'. enc_run avctx es ctx = Some (fst (spec_run avctx es \<lparr>pend = [], stamps = [], leaked = 0\<rparr>), ctx') \<and>
     (\<exists>end. ff_tf_enc_close ctx' = Some (0, end) \<and>
        live (heap end) = leaked (snd (spec_run avctx es \<lparr>pend = [], stamps = [], leaked = 0\<rparr>)))"
  using run_simulates[OF init_establishes[OF assms(1-6)] assms(7)] close_frees by blast

theorem encoder_simulates_queues_witness:
  "\<exists>ctx'. enc_run sample_avctx
       [Receive False (0, Some sample_frame) 0, Callback [0, 0, 0, 1, 0x65, 0x88], Receive True (AVERROR_EOF, None) 0]
       sample_enc =
     Some ([(EAGAIN, None), (0, None),
            (0, Some \<lparr>pkt_data = [0, 0, 0, 1, 0x65, 0x88], pkt_pts = 7, pkt_dts = 7, pkt_key = True,
                      quality = 5900, pict_type = AV_PICTURE_TYPE_I\<rparr>)], ctx') \<and>
     (\<exists>end. ff_tf_enc_close ctx' = Some (0, end) \<and> live (heap end) = 0)"
proof -
  let ?es = "[Receive False (0, Some sample_frame) 0, Callback [0, 0, 0, 1, 0x65, 0x88],
     Receive True (AVERROR_EOF, None) 0]"
  have "admissible_run sample_avctx ?es \<lparr>pend = [], stamps = [], leaked = 0\<rparr>"
    using sample_key by (simp add: sample_nv12 frame_stamps_def)
  from encoder_simulates_queues[OF sample_init _ _ _ _ _ this] sample_key show ?thesis
    by (simp add: malloc_ok_def enc_fresh_def sample_enc_def packet_of_def next_stamp_def
        frame_stamps_def sample_frame_def)
qed

text \<open>C7: The callback does not look at the level of the ready queue (its comment asks "out of
  range?"). A fifth packet that comes before the first is fetched overwrites the pointer to the
  oldest packet: the drained stream starts with the newest packet, the oldest is never
  delivered, and the fifth \<open>receive_packet\<close> gets the pointer freed by the first, a use after
  free.\<close>

theorem encoder_overrun:
  assumes "enc_rel avctx ctx a" "length (pend a) = 4"
    and "packet_nal_type (codec_id avctx) b (length b) \<noteq> None"
  shows "(\<exists>outs ctx'. enc_run avctx (Callback b # replicate 4 drain_event) ctx = Some (outs, ctx') \<and>
       map (map_option pkt_data \<circ> snd) outs = None # map Some (b # tl (pend a))) \<and>
     enc_run avctx (Callback b # replicate 5 drain_event) ctx = None"
proof -
  obtain p1 p2 p3 p4 c where c: "ff_tfenc_callback True True b ctx = Some c"
     "spins (output_buffer_ready_queue c) ([p4, p1, p2, p3] @ [p4])"
     "buffers_at (heap c) [p4, p1, p2, p3] (b # tl (pend a))" "frame c = None"
     "timestamp_list c = timestamp_list ctx"
    using overrun_callback[OF assms(1,2), of b] by auto
  have k: "\<forall>b' \<in> set (b # tl (pend a)). packet_nal_type (codec_id avctx) b' (length b') \<noteq> None"
    using assms(1,3) list.set_sel(2)[of "pend a"] by (fastforce simp: enc_rel_def)
  have t: "holds (timestamp_list c) (stamps a)" using assms(1) c(5) by (simp add: enc_rel_def)
  have n: "length (b # tl (pend a)) = 4" using assms(2) by simp
  have "heap c ! p4 = None \<or> p4 \<in> set [p4, p1, p2, p3]" by simp
  from overrun_drain[OF c(2,3,4) t this k] show ?thesis
    unfolding n using c(1) by (auto simp: eval_nat_numeral simp del: replicate.simps)
qed

theorem encoder_overrun_witness:
  "enc_run sample_avctx (Callback [5] # replicate 5 drain_event) sample_full = None"
proof -
  have "packet_nal_type (codec_id sample_avctx) [5] (length [5::u8]) \<noteq> None"
    by (simp add: packet_nal_type_def sample_avctx_def analyzeh264Frame_def h264_loop.simps h2645_start_code_def)
  from conjunct2[OF encoder_overrun[OF sample_full_rel _ this]] show ?thesis by simp
qed

text \<open>C15: \<open>ff_tf_enc_init\<close> on every branch, for a context whose queues are still null: it succeeds with both
  queues empty, or reports \<open>AVERROR_BUG\<close> (another codec), \<open>AVERROR_EXTERNAL\<close> (the encoder cannot be
  created) or \<open>ENOMEM\<close>. After the failures that come before the queues exist, the cleanup that
  \<open>FF_CODEC_CAP_INIT_CLEANUP\<close> asks for (\<open>ff_tf_enc_close\<close>) reads through the null queue.\<close>

theorem encoder_init_result:
  assumes "malloc_ok malloc1" "malloc_ok malloc2" "tfenc_frame_rate avctx \<noteq> None"
    and "output_buffer_ready_queue ctx0 = None"
  shows "\<exists>r ctx. ff_tf_enc_init (\<lambda>_. created) fok malloc malloc1 ok1 malloc2 ok2 avctx ctx0 = Some (r, ctx) \<and>
     (r = 0 \<longrightarrow> handle ctx \<and> holds (output_buffer_ready_queue ctx) [] \<and> holds (timestamp_list ctx) []) \<and>
     (r \<noteq> 0 \<longrightarrow> r = (if codec_id avctx \<noteq> AV_CODEC_ID_H264 \<and> codec_id avctx \<noteq> AV_CODEC_ID_HEVC then AVERROR_BUG
                    else if \<not> created then AVERROR_EXTERNAL else ENOMEM)) \<and>
     (r = AVERROR_BUG \<or> r = AVERROR_EXTERNAL \<or> \<not> fok \<longrightarrow> ff_tf_enc_close ctx = None)"
proof -
  obtain rate where rate: "tfenc_frame_rate avctx = Some rate" using assms(3) by blast
  have crash: "ff_tf_enc_close c = None" if "output_buffer_ready_queue c = None" for c
    using that by (subst ff_tf_enc_close_def, subst close_loop.simps) (simp add: output_ready_def)
  show ?thesis
    using assms(4) holds_alloc[OF assms(1), of ok1] holds_alloc[OF assms(2), of ok2] crash
    by (auto simp: ff_tf_enc_init_def tfenc_setup_device_def rate Let_def tfenc_setup_surfaces_def)
qed

theorem encoder_init_result_witness:
  "\<exists>ctx. ff_tf_enc_init (\<lambda>_. False) True (\<lambda>n. Some (replicate n 0)) (\<lambda>n. Some (replicate n (0, 0))) True
     (\<lambda>n. Some (replicate n (0, 0))) True sample_avctx enc_fresh = Some (AVERROR_EXTERNAL, ctx) \<and>
     ff_tf_enc_close ctx = None"
proof -
  let ?m = "\<lambda>n. Some (replicate n (0, 0))"
  have r: "tfenc_frame_rate sample_avctx \<noteq> None" by (simp add: tfenc_frame_rate_def sample_avctx_def)
  obtain r ctx where 1: "ff_tf_enc_init (\<lambda>_. False) True (\<lambda>n. Some (replicate n 0)) ?m True ?m True sample_avctx enc_fresh
       = Some (r, ctx)"
     "r = AVERROR_BUG \<or> r = AVERROR_EXTERNAL \<or> \<not> True \<longrightarrow> ff_tf_enc_close ctx = None"
    using encoder_init_result[OF _ _ r, where ?malloc1.0 = ?m and ?malloc2.0 = ?m and ?ctx0.0 = enc_fresh
        and created = False and fok = True and malloc = "\<lambda>n. Some (replicate n 0)" and ?ok1.0 = True and ?ok2.0 = True]
    by (auto simp: malloc_ok_def enc_fresh_def)
  moreover have "r = AVERROR_EXTERNAL"
    using 1(1) by (auto simp: ff_tf_enc_init_def tfenc_setup_device_def Let_def tfenc_frame_rate_def sample_avctx_def)
  ultimately show ?thesis by blast
qed

text \<open>C11: Sending an NV12 frame with \<open>2k\<close> lines and stride \<open>L\<close> hands the encoder an input buffer that starts with
  the visible rows, luma then chroma, without the padding, and queues the timestamp; but the size
  it announces is computed from the strides, so for a padded frame (\<open>L\<close> above the width) it
  exceeds the object the encoder is given.\<close>

theorem send_frame_packs_nv12:
  assumes "nv12_frame avctx f" "height f = 2 * k" "0 < k" "data f = [Some y, Some uv]" "linesize f = [L, L]"
    and "3 * k * L < 2 ^ 31" "width f \<le> L"
    and "inputBuffer ctx = Some buf" "length buf = cwidth avctx * cheight avctx * 3 div 2"
    and "timestamp_list ctx = Some tq" "holds (Some tq) ts" "length ts < 4"
  shows "\<exists>ctx'. tfenc_send_frame (Some f) ctx = Some (0, ctx') \<and>
     sent ctx' = sent ctx @ [(nv12_packed f, int (3 * k * L))] \<and>
     holds (timestamp_list ctx') (ts @ [pts f]) \<and>
     (int (3 * k * L) > int (length (nv12_packed f)) \<longleftrightarrow> width f < L)"
proof -
  have l: "length (nv12_packed f) = 3 * k * width f"
    using length_nv12_packed[OF assms(1)] assms(2) by (simp add: algebra_simps)
  have lb: "length buf = 3 * k * width f"
  proof -
    have "cheight avctx = 2 * k" "cwidth avctx = width f" using assms(1,2) by (auto simp: nv12_frame_def)
    then have "length buf = (2 * (3 * k * width f)) div 2" using assms(9) by (simp add: algebra_simps)
    then show ?thesis by (simp only: nonzero_mult_div_cancel_left)
  qed
  have c: "copy_avframe_to_buffer f buf = Some (nv12_packed f)"
    using copy_nv12[OF assms(1,9)] l lb by simp
  have b: "2 * k * L + 2 * k div 2 * L = 3 * k * L" by simp
  have "avframe_get_size f = int (3 * k * L)"
    using two_plane_size[OF assms(4,5)] assms(1,6) unfolding assms(2) b by (simp add: nv12_frame_def)
  moreover obtain tq' where "timestamp_queue_enqueue tq (pts f) = Some tq'" "holds (Some tq') (ts @ [pts f])"
    using enqueue_holds[OF assms(11,12)] by blast
  ultimately show ?thesis
    using assms(3,7,8,10) c l by (auto simp: tfenc_send_frame_def)
qed

theorem send_frame_packs_nv12_witness:
  "\<exists>ctx'. tfenc_send_frame (Some sample_frame) sample_enc = Some (0, ctx') \<and>
     sent ctx' = [([1, 2, 3, 4, 5, 6], 9)]"
proof -
  have "\<exists>tq. timestamp_list sample_enc = Some tq \<and> holds (Some tq) []"
    using init_establishes[OF sample_init] by (simp add: malloc_ok_def enc_fresh_def sample_enc_def enc_rel_def)
  then obtain tq where tq: "timestamp_list sample_enc = Some tq" "holds (Some tq) []" by blast
  have 1: "height sample_frame = 2 * 1" "data sample_frame = [Some [1, 2, 0, 3, 4, 0], Some [5, 6, 0]]"
    "linesize sample_frame = [3, 3]" "width sample_frame \<le> 3" "inputBuffer sample_enc = Some (replicate 6 0)"
    "length (replicate 6 (0::u8)) = cwidth sample_avctx * cheight sample_avctx * 3 div 2" "sent sample_enc = []"
    by (simp_all add: sample_frame_def sample_enc_def sample_avctx_def enc_fresh_def)
  have "nv12_packed sample_frame = [1, 2, 3, 4, 5, 6]"
    by (simp add: nv12_packed_def rows_def sample_frame_def plane_bytes_def plane_def stride_def upt_conv_Cons)
  then show ?thesis
    using send_frame_packs_nv12[OF sample_nv12 1(1) _ 1(2,3) _ 1(4,5,6) tq] 1(7) by auto
qed

end
