(* ===== verification/Mathematics.thy ===== *)
theory Mathematics
  imports Prelude
begin

text \<open>
  libavutil/mathematics.c: the binary gcd, the rescaling of timestamps with its rounding modes
  and its 128-bit long division, and the functions on time bases built on it. Integers are HOL
  integers with the conversions of C written out (\<open>s64\<close>, \<open>u64_of\<close>), so that an overflow is a
  wrong value of the model; the theorems show where there is none.
\<close>

section \<open>Binary gcd\<close>

text \<open>The number of trailing zero bits (\<open>ff_ctzll\<close>); the result for 0 is not used.\<close>

function ctz :: "int \<Rightarrow> nat" where
  "ctz v = (if v = 0 then 0 else if odd v then 0 else Suc (ctz (v div 2)))"
  by pat_completeness auto
termination by (relation "measure (\<lambda>v. nat \<bar>v\<bar>)") auto

declare ctz.simps [simp del]

partial_function (option) gcd_loop :: "int \<Rightarrow> int \<Rightarrow> int option" where
  "gcd_loop u v =
     (if u = v then Some u
      else
        (let (u', v') = (if u > v then (v, u) else (u, v));
             v'' = v' - u'
         in gcd_loop u' (v'' div 2 ^ ctz v'')))"

definition av_gcd :: "int \<Rightarrow> int \<Rightarrow> int option" where
  "av_gcd a b =
     (if a = 0 then Some b
      else if b = 0 then Some a
      else
        (let za = ctz a; zb = ctz b; k = min za zb;
             u = \<bar>a div 2 ^ za\<bar>; v = \<bar>b div 2 ^ zb\<bar>
         in map_option (\<lambda>u. s64 (u64_of (u * 2 ^ k))) (gcd_loop u v)))"

section \<open>Rescaling\<close>

definition AV_ROUND_ZERO :: int where "AV_ROUND_ZERO = 0"
definition AV_ROUND_INF :: int where "AV_ROUND_INF = 1"
definition AV_ROUND_DOWN :: int where "AV_ROUND_DOWN = 2"
definition AV_ROUND_UP :: int where "AV_ROUND_UP = 3"
definition AV_ROUND_NEAR_INF :: int where "AV_ROUND_NEAR_INF = 5"
definition AV_ROUND_PASS_MINMAX :: int where "AV_ROUND_PASS_MINMAX = 8192"

lemmas round_defs = AV_ROUND_ZERO_def AV_ROUND_INF_def AV_ROUND_DOWN_def AV_ROUND_UP_def
  AV_ROUND_NEAR_INF_def AV_ROUND_PASS_MINMAX_def

text \<open>The shift-and-subtract division of the 128-bit number \<open>a1 * 2 ^ 64 + a0\<close>; the first
  argument is the number of bits of \<open>a0\<close> still to be shifted in.\<close>

fun rescale_loop :: "nat \<Rightarrow> int \<Rightarrow> int \<Rightarrow> int \<Rightarrow> int \<Rightarrow> int" where
  "rescale_loop 0 a0 a1 t1 c = t1"
| "rescale_loop (Suc i) a0 a1 t1 c =
     (let a1' = u64_of (a1 + (a1 + (a0 div 2 ^ i) mod 2));
          t1' = u64_of (t1 + t1)
      in if c \<le> a1' then rescale_loop i a0 (a1' - c) (u64_of (t1' + 1)) c
         else rescale_loop i a0 a1' t1' c)"

definition rescale_wide :: "int \<Rightarrow> int \<Rightarrow> int \<Rightarrow> int \<Rightarrow> int" where
  "rescale_wide a b c r =
     (let a0 = a mod 2 ^ 32; a1 = a div 2 ^ 32;
          b0 = b mod 2 ^ 32; b1 = b div 2 ^ 32;
          t1 = u64_of (a0 * b1 + a1 * b0);
          t1a = u64_of (t1 * 2 ^ 32);
          a0 = u64_of (a0 * b0 + t1a);
          a1 = u64_of (a1 * b1 + t1 div 2 ^ 32 + (if a0 < t1a then 1 else 0));
          a0 = u64_of (a0 + r);
          a1 = u64_of (a1 + (if a0 < r then 1 else 0));
          t1 = rescale_loop 64 a0 a1 t1 c
      in if t1 > INT64_MAX then INT64_MIN else t1)"

definition rescale_pos :: "int \<Rightarrow> int \<Rightarrow> int \<Rightarrow> int \<Rightarrow> int" where
  "rescale_pos a b c rnd =
     (let r = (if rnd = AV_ROUND_NEAR_INF then cdiv c 2
               else if rnd AND 1 \<noteq> 0 then c - 1 else 0)
      in if b \<le> INT_MAX \<and> c \<le> INT_MAX then
           (if a \<le> INT_MAX then cdiv (s64 (s64 (a * b) + r)) c
            else
              (let ad = cdiv a c; a2 = cdiv (s64 (s64 (cmod a c * b) + r)) c
               in if ad \<ge> INT_MAX \<and> b \<noteq> 0 \<and> ad > cdiv (INT64_MAX - a2) b then INT64_MIN
                  else s64 (s64 (ad * b) + a2)))
         else rescale_wide a b c r)"

text \<open>The recursion of the code on a negative \<open>a\<close> is one level deep: its argument
  \<open>- FFMAX(a, -INT64_MAX)\<close> is positive.\<close>

definition av_rescale_rnd :: "int \<Rightarrow> int \<Rightarrow> int \<Rightarrow> int \<Rightarrow> int" where
  "av_rescale_rnd a b c rnd =
     (let base = rnd AND NOT AV_ROUND_PASS_MINMAX in
      if c \<le> 0 \<or> b < 0 \<or> \<not> (0 \<le> base \<and> base \<le> 5 \<and> base \<noteq> 4) then INT64_MIN
      else if rnd AND AV_ROUND_PASS_MINMAX \<noteq> 0 \<and> (a = INT64_MIN \<or> a = INT64_MAX) then a
      else
        (let rnd = (if rnd AND AV_ROUND_PASS_MINMAX \<noteq> 0 then rnd - AV_ROUND_PASS_MINMAX else rnd)
         in if a < 0
            then s64 (- rescale_pos (- max a (- INT64_MAX)) b c (rnd XOR (drop_bit 1 rnd AND 1)))
            else rescale_pos a b c rnd))"

definition av_rescale :: "int \<Rightarrow> int \<Rightarrow> int \<Rightarrow> int" where
  "av_rescale a b c = av_rescale_rnd a b c AV_ROUND_NEAR_INF"

record AVRational =
  num :: int
  den :: int

definition av_rescale_q_rnd :: "int \<Rightarrow> AVRational \<Rightarrow> AVRational \<Rightarrow> int \<Rightarrow> int" where
  "av_rescale_q_rnd a bq cq rnd =
     (let b = s64 (num bq * den cq); c = s64 (num cq * den bq) in av_rescale_rnd a b c rnd)"

definition av_rescale_q :: "int \<Rightarrow> AVRational \<Rightarrow> AVRational \<Rightarrow> int" where
  "av_rescale_q a bq cq = av_rescale_q_rnd a bq cq AV_ROUND_NEAR_INF"

definition FFABS64U :: "int \<Rightarrow> int" where
  "FFABS64U a = (if a \<le> 0 then u64_of (- u64_of a) else u64_of a)"

definition av_compare_ts :: "int \<Rightarrow> AVRational \<Rightarrow> int \<Rightarrow> AVRational \<Rightarrow> int" where
  "av_compare_ts ts_a tb_a ts_b tb_b =
     (let a = s64 (num tb_a * den tb_b); b = s64 (num tb_b * den tb_a) in
      if (FFABS64U ts_a OR u64_of a OR FFABS64U ts_b OR u64_of b) \<le> INT_MAX
      then of_bool (s64 (ts_a * a) > s64 (ts_b * b)) - of_bool (s64 (ts_a * a) < s64 (ts_b * b))
      else if av_rescale_rnd ts_a a b AV_ROUND_DOWN < ts_b then - 1
      else if av_rescale_rnd ts_b b a AV_ROUND_DOWN < ts_a then 1
      else 0)"

definition av_compare_mod :: "int \<Rightarrow> int \<Rightarrow> int \<Rightarrow> int" where
  "av_compare_mod a b m =
     (let c = s64 (u64_of (a - b) AND u64_of (m - 1))
      in if u64_of c > m div 2 then s64 (c - m) else c)"

definition av_clip64_c :: "int \<Rightarrow> int \<Rightarrow> int \<Rightarrow> int" where
  "av_clip64_c a amin amax = (if a < amin then amin else if a > amax then amax else a)"


text \<open>Returns the timestamp in the output time base and the new \<open>*last\<close>; \<open>None\<close> is a failed
  \<open>av_assert0\<close>, which aborts. The shift \<open>>> 1\<close> of a signed value is arithmetic.\<close>

definition av_rescale_delta ::
    "AVRational \<Rightarrow> int \<Rightarrow> AVRational \<Rightarrow> int \<Rightarrow> int \<Rightarrow> AVRational \<Rightarrow> (int \<times> int) option" where
  "av_rescale_delta in_tb in_ts fs_tb duration lst out_tb =
     (let simple_round = (av_rescale_q in_ts in_tb out_tb,
                          s64 (av_rescale_q in_ts in_tb fs_tb + duration))
      in if in_ts = AV_NOPTS_VALUE \<or> duration < 0 then None
         else if lst = AV_NOPTS_VALUE \<or> duration = 0 \<or>
                 s64 (num in_tb * den out_tb) \<le> s64 (num out_tb * den in_tb)
         then Some simple_round
         else
           (let a = av_rescale_q_rnd (s64 (s64 (2 * in_ts) - 1)) in_tb fs_tb AV_ROUND_DOWN div 2;
                b = s64 (av_rescale_q_rnd (s64 (s64 (2 * in_ts) + 1)) in_tb fs_tb AV_ROUND_UP + 1) div 2
            in if lst < s64 (s64 (2 * a) - b) \<or> lst > s64 (s64 (2 * b) - a)
               then Some simple_round
               else
                 (let this = av_clip64_c lst a b
                  in Some (av_rescale_q this fs_tb out_tb, s64 (this + duration)))))"

section \<open>The exact quotient\<close>

text \<open>\<open>n / d\<close> for \<open>d > 0\<close>, rounded to zero, away from zero, down, up, or to the nearest with
  halfway cases away from zero.\<close>

definition round_div :: "int \<Rightarrow> int \<Rightarrow> int \<Rightarrow> int" where
  "round_div rnd n d =
     (if rnd = AV_ROUND_ZERO then sgn n * (\<bar>n\<bar> div d)
      else if rnd = AV_ROUND_INF then sgn n * ((\<bar>n\<bar> + d - 1) div d)
      else if rnd = AV_ROUND_DOWN then n div d
      else if rnd = AV_ROUND_UP then - (- n div d)
      else sgn n * ((2 * \<bar>n\<bar> + d) div (2 * d)))"

definition rounding_modes :: "int set" where
  "rounding_modes = {AV_ROUND_ZERO, AV_ROUND_INF, AV_ROUND_DOWN, AV_ROUND_UP, AV_ROUND_NEAR_INF}"

lemma u64_shift:
  "(u64_of (u64_of x + q) * k + z) mod 2 ^ 64 = ((x + q) * k + z) mod 2 ^ 64"
proof -
  have "u64_of (u64_of x + q) mod 2 ^ 64 = (x + q) mod 2 ^ 64"
    unfolding u64_of_def by (simp add: mod_simps)
  then show ?thesis by (intro mod_add_cong mod_mult_cong refl)
qed

lemma rescale_loop_correct:
  assumes "0 \<le> a1" "a1 < c" "c \<le> INT64_MAX" "0 \<le> a0"
  shows "rescale_loop n a0 a1 t1 c mod 2 ^ 64 =
     (t1 * 2 ^ n + (a1 * 2 ^ n + a0 mod 2 ^ n) div c) mod 2 ^ 64"
  using assms(1,2)
proof (induction n arbitrary: a1 t1)
  case 0
  then show ?case by simp
next
  case (Suc n)
  define bit where "bit = (a0 div 2 ^ n) mod 2"
  define q where "q = (if c \<le> 2 * a1 + bit then 1 else (0::int))"
  have bit: "0 \<le> bit" "bit \<le> 1" by (auto simp: bit_def)
  have split: "a0 mod 2 ^ Suc n = bit * 2 ^ n + a0 mod 2 ^ n"
    using mod_mult2_eq'[of a0 "2 ^ n" 2] by (simp add: bit_def zmod_zmult2_eq mult.commute)
  have a1: "u64_of (a1 + (a1 + bit)) = 2 * a1 + bit"
    using Suc.prems bit assms(3) by (subst u64_of_id) auto
  have r: "0 \<le> 2 * a1 + bit - q * c" "2 * a1 + bit - q * c < c"
    using Suc.prems bit by (auto simp: q_def)
  have "rescale_loop (Suc n) a0 a1 t1 c mod 2 ^ 64 =
      rescale_loop n a0 (2 * a1 + bit - q * c) (u64_of (u64_of (t1 + t1) + q)) c mod 2 ^ 64"
    using a1 by (simp add: Let_def q_def u64_of_def flip: bit_def)
  also have "\<dots> = (u64_of (u64_of (t1 + t1) + q) * 2 ^ n +
      ((2 * a1 + bit - q * c) * 2 ^ n + a0 mod 2 ^ n) div c) mod 2 ^ 64"
    by (rule Suc.IH[OF r])
  also have "((2 * a1 + bit - q * c) * 2 ^ n + a0 mod 2 ^ n) div c
      = (a1 * 2 ^ Suc n + a0 mod 2 ^ Suc n) div c - q * 2 ^ n"
  proof -
    have "(2 * a1 + bit - q * c) * 2 ^ n + a0 mod 2 ^ n
        = (a1 * 2 ^ Suc n + a0 mod 2 ^ Suc n) + (- q * 2 ^ n) * c"
      unfolding split by (simp add: algebra_simps)
    then show ?thesis
      using Suc.prems div_mult_self1[of c "a1 * 2 ^ Suc n + a0 mod 2 ^ Suc n" "- q * 2 ^ n"] by simp
  qed
  also have "(u64_of (u64_of (t1 + t1) + q) * 2 ^ n +
      ((a1 * 2 ^ Suc n + a0 mod 2 ^ Suc n) div c - q * 2 ^ n)) mod 2 ^ 64
      = ((t1 + t1 + q) * 2 ^ n + ((a1 * 2 ^ Suc n + a0 mod 2 ^ Suc n) div c - q * 2 ^ n)) mod 2 ^ 64"
    by (rule u64_shift)
  also have "(t1 + t1 + q) * 2 ^ n + ((a1 * 2 ^ Suc n + a0 mod 2 ^ Suc n) div c - q * 2 ^ n)
      = t1 * 2 ^ Suc n + (a1 * 2 ^ Suc n + a0 mod 2 ^ Suc n) div c"
    by (simp add: algebra_simps)
  finally show ?case .
qed

text \<open>Whatever the remainder does, the quotient register only gains bits from the right.\<close>

lemma rescale_loop_shifts:
  "\<exists>y. 0 \<le> y \<and> y < 2 ^ n \<and> rescale_loop n a0 a1 t1 c mod 2 ^ 64 = (t1 * 2 ^ n + y) mod 2 ^ 64"
proof (induction n arbitrary: a1 t1)
  case 0
  show ?case by (rule exI[of _ 0]) simp
next
  case (Suc n)
  have step: "\<exists>q a1'. 0 \<le> q \<and> q \<le> 1 \<and> rescale_loop (Suc n) a0 a1 t1 c =
      rescale_loop n a0 a1' (u64_of (u64_of (t1 + t1) + q)) c"
  proof (cases "c \<le> u64_of (a1 + (a1 + (a0 div 2 ^ n) mod 2))")
    case True
    then show ?thesis
      by (intro exI[of _ 1] exI[of _ "u64_of (a1 + (a1 + (a0 div 2 ^ n) mod 2)) - c"])
        (simp add: Let_def)
  next
    case False
    then show ?thesis
      by (intro exI[of _ 0] exI[of _ "u64_of (a1 + (a1 + (a0 div 2 ^ n) mod 2))"])
        (simp add: Let_def u64_of_def)
  qed
  then obtain q a1' where q: "0 \<le> q" "q \<le> 1"
    "rescale_loop (Suc n) a0 a1 t1 c = rescale_loop n a0 a1' (u64_of (u64_of (t1 + t1) + q)) c"
    by blast
  obtain y where y: "0 \<le> y" "y < 2 ^ n"
    "rescale_loop n a0 a1' (u64_of (u64_of (t1 + t1) + q)) c mod 2 ^ 64
       = (u64_of (u64_of (t1 + t1) + q) * 2 ^ n + y) mod 2 ^ 64"
    using Suc.IH by blast
  have "(u64_of (u64_of (t1 + t1) + q) * 2 ^ n + y) mod 2 ^ 64
      = ((t1 + t1 + q) * 2 ^ n + y) mod 2 ^ 64"
    by (rule u64_shift)
  also have "(t1 + t1 + q) * 2 ^ n + y = t1 * 2 ^ Suc n + (q * 2 ^ n + y)"
    by (simp add: algebra_simps)
  finally have "rescale_loop (Suc n) a0 a1 t1 c mod 2 ^ 64 = (t1 * 2 ^ Suc n + (q * 2 ^ n + y)) mod 2 ^ 64"
    using q y by simp
  moreover have "q = 0 \<or> q = 1" using q by linarith
  then have "0 \<le> q * 2 ^ n + y" "q * 2 ^ n + y < 2 ^ Suc n" using y by auto
  ultimately show ?case by blast
qed

lemma rescale_loop_u64: "0 \<le> t1 \<Longrightarrow> t1 < 2 ^ 64 \<Longrightarrow>
  0 \<le> rescale_loop n a0 a1 t1 c \<and> rescale_loop n a0 a1 t1 c < 2 ^ 64"
  by (induction n arbitrary: a1 t1) (auto simp: Let_def u64_of_def)

lemma u64_carry:
  assumes "0 \<le> x" "x < 2 ^ 64" "0 \<le> y" "y < 2 ^ 64"
  shows "x + y = (if u64_of (x + y) < y then 1 else 0) * 2 ^ 64 + u64_of (x + y)"
proof (cases "x + y < 2 ^ 64")
  case True
  then show ?thesis using assms by (simp add: u64_of_def)
next
  case False
  then have "u64_of (x + y) = x + y - 2 ^ 64"
    unfolding u64_of_def using assms by (subst mod_once) simp_all
  then show ?thesis using assms by simp
qed

lemma u64_of_range [simp]: "0 \<le> u64_of x" "u64_of x < 18446744073709551616"
  by (simp_all add: u64_of_def)

text \<open>The product of two 63-bit numbers plus the rounding term, in two 64-bit halves: first
  schoolbook multiplication on 32-bit digits, then the code's carries.\<close>

lemma digits_product:
  fixes al ah bl bh :: int
  assumes rng: "0 \<le> al" "al \<le> 2 ^ 32 - 1" "0 \<le> ah" "ah \<le> 2 ^ 31 - 1"
    "0 \<le> bl" "bl \<le> 2 ^ 32 - 1" "0 \<le> bh" "bh \<le> 2 ^ 31 - 1"
  defines "t1 \<equiv> u64_of (al * bh + ah * bl)"
  defines "t1a \<equiv> u64_of (t1 * 2 ^ 32)"
  defines "lo \<equiv> u64_of (al * bl + t1a)"
  defines "hi \<equiv> u64_of (ah * bh + t1 div 2 ^ 32 + (if lo < t1a then 1 else 0))"
  shows "hi * 2 ^ 64 + lo = (ah * 2 ^ 32 + al) * (bh * 2 ^ 32 + bl) \<and> 0 \<le> hi \<and> hi \<le> 2 ^ 62 + 2 ^ 33"
proof -
  have m1: "al * bh \<le> (2 ^ 32 - 1) * (2 ^ 31 - 1)" "ah * bl \<le> (2 ^ 31 - 1) * (2 ^ 32 - 1)"
    "al * bl \<le> (2 ^ 32 - 1) * (2 ^ 32 - 1)" "ah * bh \<le> (2 ^ 31 - 1) * (2 ^ 31 - 1)"
    using rng by (intro mult_mono; simp)+
  have m0: "0 \<le> al * bh" "0 \<le> ah * bl" "0 \<le> al * bl" "0 \<le> ah * bh" using rng by simp_all
  have t1: "t1 = al * bh + ah * bl"
    unfolding t1_def using m1 m0 by (subst u64_of_id) auto
  define th tl where "th = t1 div 2 ^ 32" and "tl = t1 mod 2 ^ 32"
  have t1': "t1 = th * 2 ^ 32 + tl" "0 \<le> tl" "tl \<le> 2 ^ 32 - 1" "0 \<le> th" "th \<le> 2 ^ 32 - 1"
    using t1 m1 m0 by (simp_all add: th_def tl_def)
  have t1a: "t1a = tl * 2 ^ 32"
    unfolding t1a_def u64_of_def using mod_mult_mult2[of t1 "2 ^ 32" "2 ^ 32"] by (simp add: tl_def)
  define k where "k = (if lo < t1a then 1 else (0::int))"
  have c: "al * bl + t1a = k * 2 ^ 64 + lo"
    unfolding k_def lo_def using m0 m1 t1' by (intro u64_carry) (simp_all add: t1a)
  have hi: "hi = ah * bh + th + k"
    unfolding hi_def k_def th_def[symmetric]
    using m1 m0 t1'(4,5) by (subst u64_of_id) auto
  have "(ah * 2 ^ 32 + al) * (bh * 2 ^ 32 + bl) = ah * bh * 2 ^ 64 + t1 * 2 ^ 32 + al * bl"
    unfolding t1 by (simp add: algebra_simps)
  also have "\<dots> = (ah * bh + th) * 2 ^ 64 + (al * bl + t1a)"
    unfolding t1'(1) t1a by (simp add: algebra_simps)
  also have "\<dots> = hi * 2 ^ 64 + lo" unfolding c hi by (simp add: algebra_simps)
  finally show ?thesis using hi m0 m1 t1' by (simp add: k_def)
qed

lemma wide_product:
  fixes a b r :: int
  assumes ab: "0 \<le> a" "a \<le> INT64_MAX" "0 \<le> b" "b \<le> INT64_MAX" and r: "0 \<le> r" "r \<le> INT64_MAX"
  defines "t1 \<equiv> u64_of (a mod 2 ^ 32 * (b div 2 ^ 32) + a div 2 ^ 32 * (b mod 2 ^ 32))"
  defines "t1a \<equiv> u64_of (t1 * 2 ^ 32)"
  defines "lo \<equiv> u64_of (a mod 2 ^ 32 * (b mod 2 ^ 32) + t1a)"
  defines "hi \<equiv> u64_of (a div 2 ^ 32 * (b div 2 ^ 32) + t1 div 2 ^ 32 + (if lo < t1a then 1 else 0))"
  defines "lo' \<equiv> u64_of (lo + r)"
  defines "hi' \<equiv> u64_of (hi + (if lo' < r then 1 else 0))"
  shows "hi' * 2 ^ 64 + lo' = a * b + r \<and> 0 \<le> lo' \<and> lo' < 2 ^ 64 \<and> 0 \<le> hi' \<and> hi' < 2 ^ 63 \<and>
     0 \<le> t1 \<and> t1 < 2 ^ 64"
proof -
  have P: "hi * 2 ^ 64 + lo = (a div 2 ^ 32 * 2 ^ 32 + a mod 2 ^ 32) * (b div 2 ^ 32 * 2 ^ 32 + b mod 2 ^ 32)
      \<and> 0 \<le> hi \<and> hi \<le> 2 ^ 62 + 2 ^ 33"
    unfolding hi_def lo_def t1a_def t1_def using ab by (intro digits_product) simp_all
  have h: "hi * 2 ^ 64 + lo = a * b" "0 \<le> hi" "hi \<le> 2 ^ 62 + 2 ^ 33"
    using P by (simp_all only: div_mult_mod_eq)
  define k where "k = (if lo' < r then 1 else (0::int))"
  have c: "lo + r = k * 2 ^ 64 + lo'"
    unfolding k_def lo'_def using r by (intro u64_carry) (simp_all add: lo_def)
  have hi': "hi' = hi + k"
    unfolding hi'_def k_def using h by (subst u64_of_id) auto
  have "hi' * 2 ^ 64 + lo' = a * b + r" using h(1) c unfolding hi' by (simp add: algebra_simps)
  then show ?thesis using h by (simp add: hi' k_def lo'_def t1_def)
qed

lemma zdiv_lt_mult: "0 < c \<Longrightarrow> n < k * c \<Longrightarrow> n div c < (k::int)"
  by (metis mult.commute not_less pos_mod_sign add_increasing2 mult_le_cancel_left_pos
      div_mult_mod_eq le_less_trans less_le_not_le)

lemma zle_div_mult: "0 < c \<Longrightarrow> k * c \<le> n \<Longrightarrow> (k::int) \<le> n div c"
  by (metis div_by_0 nonzero_mult_div_cancel_right order_less_irrefl zdiv_mono1)

lemma rescale_wide_correct:
  assumes ab: "0 \<le> a" "a \<le> INT64_MAX" "0 \<le> b" "b \<le> INT64_MAX" and c: "0 < c" "c \<le> INT64_MAX"
    and r: "0 \<le> r" "r < c"
  shows "rescale_wide a b c r =
     (if (a * b + r) div c \<le> INT64_MAX then (a * b + r) div c else INT64_MIN)"
proof -
  define t1 where "t1 = u64_of (a mod 2 ^ 32 * (b div 2 ^ 32) + a div 2 ^ 32 * (b mod 2 ^ 32))"
  define t1a where "t1a = u64_of (t1 * 2 ^ 32)"
  define lo0 where "lo0 = u64_of (a mod 2 ^ 32 * (b mod 2 ^ 32) + t1a)"
  define hi0 where "hi0 = u64_of (a div 2 ^ 32 * (b div 2 ^ 32) + t1 div 2 ^ 32 + (if lo0 < t1a then 1 else 0))"
  define lo where "lo = u64_of (lo0 + r)"
  define hi where "hi = u64_of (hi0 + (if lo < r then 1 else 0))"
  note defs = hi_def lo_def hi0_def lo0_def t1a_def t1_def
  have "hi * 2 ^ 64 + lo = a * b + r \<and> 0 \<le> lo \<and> lo < 2 ^ 64 \<and> 0 \<le> hi \<and> hi < 2 ^ 63 \<and>
      0 \<le> t1 \<and> t1 < 2 ^ 64"
    unfolding defs using ab r c by (intro wide_product) simp_all
  then have n: "hi * 2 ^ 64 + lo = a * b + r" "0 \<le> lo" "lo < 2 ^ 64" "0 \<le> hi" "hi < 2 ^ 63"
    "0 \<le> t1" "t1 < 2 ^ 64" by blast+
  have w: "rescale_wide a b c r =
      (if rescale_loop 64 lo hi t1 c > INT64_MAX then INT64_MIN else rescale_loop 64 lo hi t1 c)"
    unfolding defs rescale_wide_def Let_def ..
  define t where "t = rescale_loop 64 lo hi t1 c"
  have t: "0 \<le> t" "t < 2 ^ 64" "t mod 2 ^ 64 = t"
    using rescale_loop_u64[of t1 64 lo hi c] n by (simp_all add: t_def)
  show ?thesis
  proof (cases "hi < c")
    case True
    have "t = (t1 * 2 ^ 64 + (hi * 2 ^ 64 + lo mod 2 ^ 64) div c) mod 2 ^ 64"
      using rescale_loop_correct[OF n(4) True c(2) n(2), of 64 t1] t(3) unfolding t_def[symmetric] by simp
    also have "\<dots> = ((a * b + r) div c) mod 2 ^ 64"
      using n by simp
    also have "\<dots> = (a * b + r) div c"
    proof (rule mod_pos_pos_trivial)
      show "0 \<le> (a * b + r) div c" using ab r c by (simp add: pos_imp_zdiv_nonneg_iff)
      have "a * b + r < 2 ^ 64 * c" using n True by (simp flip: n(1))
      then show "(a * b + r) div c < 2 ^ 64" using c by (intro zdiv_lt_mult)
    qed
    finally show ?thesis unfolding w t_def[symmetric] by simp
  next
    case False
    define bit where "bit = (lo div 2 ^ 63) mod 2"
    have b: "0 \<le> bit" "bit \<le> 1" by (auto simp: bit_def)
    have u: "u64_of (hi + (hi + bit)) = hi + (hi + bit)" using n b by (intro u64_of_id) auto
    have "t = rescale_loop (Suc 63) lo hi t1 c" by (simp add: t_def del: rescale_loop.simps)
    also have "\<dots> = rescale_loop 63 lo (hi + (hi + bit) - c) (u64_of (u64_of (t1 + t1) + 1)) c"
      using False n b by (simp only: rescale_loop.simps Let_def bit_def[symmetric] u) simp
    finally have "t = rescale_loop 63 lo (hi + (hi + bit) - c) (u64_of (u64_of (t1 + t1) + 1)) c" .
    then obtain y where y: "0 \<le> y" "y < 2 ^ 63" "t = ((t1 + t1 + 1) * 2 ^ 63 + y) mod 2 ^ 64"
      using rescale_loop_shifts[of 63 lo "hi + (hi + bit) - c" "u64_of (u64_of (t1 + t1) + 1)" c]
        u64_shift[of "t1 + t1" 1 "2 ^ 63"] t(3) by auto
    have "(t1 + t1 + 1) * 2 ^ 63 + y = (2 ^ 63 + y) + t1 * 2 ^ 64" by simp
    then have "t = (2 ^ 63 + y) mod 2 ^ 64" using y(3) by (simp only: mod_mult_self1)
    then have "t = 2 ^ 63 + y" using y by simp
    moreover have "2 ^ 64 * c \<le> a * b + r" using False n by (simp flip: n(1))
    then have "2 ^ 64 \<le> (a * b + r) div c" using c by (intro zle_div_mult)
    ultimately show ?thesis using y unfolding w t_def[symmetric] by simp
  qed
qed

definition rounding_term :: "int \<Rightarrow> int \<Rightarrow> int" where
  "rounding_term rnd c =
     (if rnd = AV_ROUND_NEAR_INF then c div 2 else if rnd AND 1 \<noteq> 0 then c - 1 else 0)"

lemma rescale_narrow_correct:
  assumes a: "INT_MAX < a" "a \<le> INT64_MAX" and b: "0 \<le> b" "b \<le> INT_MAX"
    and c: "0 < c" "c \<le> INT_MAX" and r: "0 \<le> r" "r < c"
  defines "ad \<equiv> a div c" and "a2 \<equiv> (a mod c * b + r) div c"
  shows "(if ad \<ge> INT_MAX \<and> b \<noteq> 0 \<and> ad > cdiv (INT64_MAX - a2) b then INT64_MIN
          else s64 (s64 (ad * b) + a2)) =
     (if (a * b + r) div c \<le> INT64_MAX then (a * b + r) div c else INT64_MIN)"
proof -
  have m: "0 \<le> a mod c" "a mod c \<le> c - 1" using c pos_mod_bound[of c a] by simp_all
  have "a mod c * b \<le> (c - 1) * b" using m b by (intro mult_right_mono)
  then have "a mod c * b + r < (b + 1) * c" using r b by (simp add: algebra_simps)
  then have a2: "a2 < b + 1" unfolding a2_def using c by (intro zdiv_lt_mult)
  have a2': "0 \<le> a2" unfolding a2_def using m b c r by (simp add: pos_imp_zdiv_nonneg_iff)
  have ad: "0 \<le> ad" unfolding ad_def using a c by (simp add: pos_imp_zdiv_nonneg_iff)
  have "a * b + r = (a mod c + ad * c) * b + r" unfolding ad_def by simp
  also have "\<dots> = (a mod c * b + r) + (ad * b) * c" by (simp only: algebra_simps)
  finally have q: "(a * b + r) div c = ad * b + a2"
    unfolding a2_def using c by (simp only: div_mult_self1)
  show ?thesis
  proof (cases "ad \<ge> INT_MAX \<and> b \<noteq> 0")
    case False
    have "ad * b \<le> INT_MAX * INT_MAX"
    proof (cases "b = 0")
      case False
      then have "ad \<le> INT_MAX" using \<open>\<not> (ad \<ge> INT_MAX \<and> b \<noteq> 0)\<close> by linarith
      then show ?thesis using ad b by (intro mult_mono) simp_all
    qed simp
    moreover have "0 \<le> ad * b" using ad b by simp
    ultimately show ?thesis
      unfolding q using False a2 a2' b by (auto simp: s64_id in_s64_def)
  next
    case True
    have X: "0 \<le> INT64_MAX - a2" using a2 b by simp
    have cd: "cdiv (INT64_MAX - a2) b = (INT64_MAX - a2) div b" using True b X by simp
    have iff: "ad > (INT64_MAX - a2) div b \<longleftrightarrow> ad * b + a2 > INT64_MAX"
    proof
      assume "ad > (INT64_MAX - a2) div b"
      then have "\<not> ad * b \<le> INT64_MAX - a2" using zle_div_mult[of b ad "INT64_MAX - a2"] True b by linarith
      then show "ad * b + a2 > INT64_MAX" by linarith
    next
      assume "ad * b + a2 > INT64_MAX"
      then show "ad > (INT64_MAX - a2) div b"
        using zdiv_lt_mult[of b "INT64_MAX - a2" ad] True b by linarith
    qed
    have "0 \<le> ad * b" using ad b by simp
    then have s: "s64 (s64 (ad * b) + a2) = ad * b + a2" if "ad * b + a2 \<le> INT64_MAX"
      using that a2' by (simp add: s64_id in_s64_def)
    show ?thesis unfolding q cd using True iff s by auto
  qed
qed

lemma rescale_pos_correct:
  fixes rnd :: int
  assumes a: "0 \<le> a" "a \<le> INT64_MAX" and b: "0 \<le> b" "b \<le> INT64_MAX"
    and c: "0 < c" "c \<le> INT64_MAX"
  defines "r \<equiv> rounding_term rnd c"
  shows "rescale_pos a b c rnd =
     (if (a * b + r) div c \<le> INT64_MAX then (a * b + r) div c else INT64_MIN)"
proof -
  have r: "0 \<le> r" "r < c" using c by (auto simp: r_def rounding_term_def)
  have r': "(if rnd = AV_ROUND_NEAR_INF then cdiv c 2 else if rnd AND 1 \<noteq> 0 then c - 1 else 0) = r"
    using c by (simp add: r_def rounding_term_def)
  consider "b \<le> INT_MAX" "c \<le> INT_MAX" "a \<le> INT_MAX" | "b \<le> INT_MAX" "c \<le> INT_MAX" "INT_MAX < a"
    | "\<not> (b \<le> INT_MAX \<and> c \<le> INT_MAX)" by linarith
  then show ?thesis
  proof cases
    case 1
    have "a * b \<le> INT_MAX * INT_MAX" using 1 a b by (intro mult_mono) simp_all
    moreover have "0 \<le> a * b" using a b by simp
    ultimately have m: "a * b \<le> INT_MAX * INT_MAX" "0 \<le> a * b" by simp_all
    have "s64 (s64 (a * b) + r) = a * b + r" using m r 1 by (simp add: s64_id in_s64_def)
    moreover have "(a * b + r) div c \<le> INT64_MAX"
    proof -
      have "(a * b + r) div c \<le> a * b + r" using m r c zdiv_mono2[of "a * b + r" 1 c] by simp
      then show ?thesis using m r 1 by simp
    qed
    ultimately show ?thesis using 1 m r c by (simp add: rescale_pos_def r')
  next
    case 2
    have m: "0 \<le> a mod c" "a mod c \<le> c - 1" using c pos_mod_bound[of c a] by simp_all
    have "a mod c * b \<le> INT_MAX * INT_MAX" using m 2 b by (intro mult_mono) simp_all
    moreover have "0 \<le> a mod c * b" using m b by simp
    ultimately have "cdiv (s64 (s64 (cmod a c * b) + r)) c = (a mod c * b + r) div c"
      using a c r 2 by (simp add: s64_id in_s64_def)
    then show ?thesis
      using 2 a c rescale_narrow_correct[OF 2(3) a(2) b(1) 2(1) c(1) 2(2) r]
      by (simp add: rescale_pos_def r')
  next
    case 3
    then show ?thesis
      using rescale_wide_correct[OF a b c r]
      unfolding rescale_pos_def r' Let_def by (simp only: if_False)
  qed
qed

lemma rounding_term_pos:
  assumes "0 \<le> n" "0 < d" "rnd \<in> rounding_modes"
  shows "(n + rounding_term rnd d) div d = round_div rnd n d"
proof -
  have near: "(n + d div 2) div d = (2 * n + d) div (2 * d)"
  proof -
    have "(2 * n + d) div (2 * d) = ((2 * n + d) div 2) div d"
      using assms by (simp add: zdiv_zmult2_eq)
    then show ?thesis by simp
  qed
  have up: "(n + (d - 1)) div d = - (- n div d)"
  proof (rule int_div_pos_eq)
    show "n + (d - 1) = d * (- (- n div d)) + (d - 1 - (- n) mod d)"
      using mult_div_mod_eq[of d "- n"] by linarith
  qed (use assms pos_mod_bound[of d "- n"] pos_mod_sign[of d "- n"] in linarith)+
  have up': "(n + d - 1) div d = (n + (d - 1)) div d" by (simp add: algebra_simps)
  show ?thesis
    using assms near up up' by (cases "n = 0")
      (auto simp: rounding_modes_def round_defs rounding_term_def round_div_def)
qed

lemma round_div_neg:
  assumes "rnd \<in> rounding_modes"
  shows "round_div rnd (- n) d = - round_div (rnd XOR (drop_bit 1 rnd AND 1)) n d"
  using assms
  by (auto simp: rounding_modes_def round_defs round_div_def)

lemma rounding_modes_swap:
  "rnd \<in> rounding_modes \<Longrightarrow> rnd XOR (drop_bit 1 rnd AND 1) \<in> rounding_modes"
  by (auto simp: rounding_modes_def round_defs)

lemma round_div_nonneg:
  assumes "0 \<le> n" "0 < d" "rnd \<in> rounding_modes"
  shows "0 \<le> round_div rnd n d"
  using rounding_term_pos[OF assms] assms
  by (auto simp: rounding_term_def pos_imp_zdiv_nonneg_iff split: if_splits simp flip: rounding_term_pos)

lemma rescale_valid:
  assumes "rnd \<in> rounding_modes" "0 < c" "0 \<le> b"
  shows "av_rescale_rnd a b c rnd =
     (if a < 0 then s64 (- rescale_pos (- max a (- INT64_MAX)) b c (rnd XOR (drop_bit 1 rnd AND 1)))
      else rescale_pos a b c rnd)"
  using assms unfolding rounding_modes_def
  by (auto simp: av_rescale_rnd_def round_defs Let_def)

lemma rescale_exact_aux:
  assumes a: "- INT64_MAX \<le> a" "a \<le> INT64_MAX" and b: "0 \<le> b" "b \<le> INT64_MAX"
    and c: "0 < c" "c \<le> INT64_MAX" and rnd: "rnd \<in> rounding_modes"
  shows "av_rescale_rnd a b c rnd =
     (if \<bar>round_div rnd (a * b) c\<bar> \<le> INT64_MAX then round_div rnd (a * b) c else INT64_MIN)"
proof (cases "a < 0")
  case False
  then have "av_rescale_rnd a b c rnd = rescale_pos a b c rnd"
    using rescale_valid[OF rnd c(1) b(1), of a] by simp
  moreover have "0 \<le> a * b" using False b by simp
  ultimately show ?thesis
    using rescale_pos_correct[of a b c rnd] False a b c rounding_term_pos[of "a * b" c rnd]
      round_div_nonneg[of "a * b" c rnd] rnd by simp
next
  case True
  define rnd' where "rnd' = rnd XOR (drop_bit 1 rnd AND 1)"
  have rnd': "rnd' \<in> rounding_modes" unfolding rnd'_def by (rule rounding_modes_swap[OF rnd])
  have n: "0 \<le> - a * b" using True b by (simp add: mult_nonpos_nonneg)
  define q where "q = round_div rnd' (- a * b) c"
  have q: "0 \<le> q" "(- a * b + rounding_term rnd' c) div c = q"
    unfolding q_def using round_div_nonneg[OF n c(1) rnd'] rounding_term_pos[OF n c(1) rnd'] by simp_all
  have "round_div rnd (a * b) c = - q"
    using round_div_neg[OF rnd, of "- a * b" c] by (simp add: q_def rnd'_def)
  moreover have "av_rescale_rnd a b c rnd = s64 (- rescale_pos (- a) b c rnd')"
    using True a rescale_valid[OF rnd c(1) b(1), of a] by (simp add: rnd'_def max_def)
  moreover have "rescale_pos (- a) b c rnd' = (if q \<le> INT64_MAX then q else INT64_MIN)"
    using rescale_pos_correct[of "- a" b c rnd'] True a b c q(2) by simp
  ultimately show ?thesis using q(1) by (auto simp: s64_id in_s64_def s64_def)
qed

text \<open>Rescaling between two time bases, for nonnegative timestamps: the nearest tick, and back
  from a finer time base to the same timestamp.\<close>

lemma round_near_nonneg:
  assumes "0 \<le> n" "0 < d"
  shows "round_div AV_ROUND_NEAR_INF n d = (2 * n + d) div (2 * d)"
proof (cases "n = 0")
  case True
  then show ?thesis using assms by (simp add: round_div_def round_defs)
next
  case False
  then have "sgn n = 1" "\<bar>n\<bar> = n" using assms by simp_all
  then show ?thesis by (simp add: round_div_def round_defs)
qed

lemma rescale_q_nearest:
  assumes "0 \<le> a" "a \<le> INT64_MAX" "0 < num p" "num p \<le> INT_MAX" "0 < den p" "den p \<le> INT_MAX"
    "0 < num q" "num q \<le> INT_MAX" "0 < den q" "den q \<le> INT_MAX"
    "(2 * (a * (num p * den q)) + num q * den p) div (2 * (num q * den p)) \<le> INT64_MAX"
  shows "av_rescale_q a p q = (2 * (a * (num p * den q)) + num q * den p) div (2 * (num q * den p))"
proof -
  let ?b = "num p * den q" and ?c = "num q * den p"
  have m: "num p * den q \<le> INT_MAX * INT_MAX" "num q * den p \<le> INT_MAX * INT_MAX"
    using assms by - (rule mult_mono; simp)+
  have p: "0 < ?b" "0 < ?c" using assms by simp_all
  have s: "s64 ?b = ?b" "s64 ?c = ?c" using m p by (auto intro!: s64_id simp: in_s64_def)
  have n: "0 \<le> a * ?b" using assms(1) p by simp
  have r: "round_div AV_ROUND_NEAR_INF (a * ?b) ?c = (2 * (a * ?b) + ?c) div (2 * ?c)"
    by (rule round_near_nonneg[OF n p(2)])
  have "0 \<le> (2 * (a * ?b) + ?c) div (2 * ?c)" using n p by (simp add: pos_imp_zdiv_nonneg_iff)
  then show ?thesis
    unfolding av_rescale_q_def av_rescale_q_rnd_def Let_def s
    using rescale_exact_aux[of a ?b ?c AV_ROUND_NEAR_INF] assms(1,2,11) m p
    by (simp add: r rounding_modes_def)
qed

lemma nearest_roundtrip:
  fixes a b c :: int
  assumes "0 \<le> a" "0 < c" "c < b"
  shows "(2 * ((2 * (a * b) + c) div (2 * c) * c) + b) div (2 * b) = a"
proof -
  define x where "x = (2 * (a * b) + c) div (2 * c)"
  define r where "r = (2 * (a * b) + c) mod (2 * c)"
  have "2 * (a * b) + c = 2 * c * x + r" by (simp add: x_def r_def)
  then have e: "2 * (x * c) + b = (c + b - r) + a * (2 * b)" by (simp add: algebra_simps)
  have r: "0 \<le> r" "r < 2 * c" using assms by (simp_all add: r_def)
  then have "(c + b - r) div (2 * b) = 0" using assms by (intro div_pos_pos_trivial) linarith+
  then show ?thesis unfolding x_def[symmetric] e using assms by simp
qed

section \<open>The binary gcd\<close>

lemma ctz_odd: "odd v \<Longrightarrow> ctz v = 0"
  by (subst ctz.simps) auto

lemma ctz_spec: "v \<noteq> 0 \<Longrightarrow> 2 ^ ctz v dvd v \<and> odd (v div 2 ^ ctz v)"
proof (induction v rule: ctz.induct)
  case (1 v)
  show ?case
  proof (cases "odd v")
    case True
    then show ?thesis by (simp add: ctz_odd)
  next
    case False
    then obtain w where w: "v = 2 * w" by auto
    have "ctz v = Suc (ctz w)" using False "1.prems" by (subst ctz.simps) (simp add: w)
    then show ?thesis using "1.IH" False "1.prems" w by simp
  qed
qed

lemma gcd_shift_odd: "odd (w::int) \<Longrightarrow> gcd (2 ^ k * x) w = gcd x w"
  by (simp add: gcd_mult_left_left_cancel)

lemma gcd_loop_correct:
  assumes "0 < u" "0 < v" "odd u" "odd v"
  shows "gcd_loop u v = Some (gcd u v)"
  using assms
proof (induction "nat (u + v)" arbitrary: u v rule: less_induct)
  case less
  show ?case
  proof (cases "u = v")
    case True
    then show ?thesis using less.prems by (subst gcd_loop.simps) simp
  next
    case False
    define x where "x = min u v"
    define d where "d = max u v - x"
    define w where "w = d div 2 ^ ctz d"
    have x: "0 < x" "odd x" using less.prems by (auto simp: x_def min_def)
    have d: "0 < d" using False by (auto simp: d_def x_def)
    have dw: "d = 2 ^ ctz d * w" "odd w" using ctz_spec[of d] d by (auto simp: w_def)
    then have "0 < w" using d by (metis zero_less_mult_pos zero_less_numeral zero_less_power)
    have "w \<le> d" unfolding w_def using d zdiv_mono2[of d 1 "2 ^ ctz d"] by simp
    have "gcd_loop u v = gcd_loop x w"
      using False by (subst gcd_loop.simps) (auto simp: Let_def w_def d_def x_def)
    also have "\<dots> = Some (gcd x w)"
      using x \<open>0 < w\<close> \<open>w \<le> d\<close> dw(2) less.prems
      by (intro less.hyps) (auto simp: d_def x_def)
    also have "gcd x w = gcd x d"
      using gcd_shift_odd[OF x(2), of "ctz d" w] dw(1) by (simp add: gcd.commute)
    also have "gcd x d = gcd u v"
      using gcd_diff1[of v u] gcd_diff1[of u v]
      by (auto simp: x_def d_def min_def max_def gcd.commute)
    finally show ?thesis .
  qed
qed

lemma gcd_split:
  fixes u v :: int
  assumes "odd u" "odd v"
  shows "gcd (2 ^ i * u) (2 ^ j * v) = 2 ^ min i j * gcd u v"
proof -
  have le: "gcd (2 ^ i * u) (2 ^ j * v) = 2 ^ i * gcd u v" if "i \<le> j" "odd u" for i j and u v :: int
  proof -
    have "gcd (2 ^ i * u) (2 ^ j * v) = gcd (2 ^ i * u) (2 ^ i * (2 ^ (j - i) * v))"
      using that(1) by (simp add: mult.assoc[symmetric] power_add[symmetric])
    also have "\<dots> = 2 ^ i * gcd u (2 ^ (j - i) * v)" by (simp add: gcd_mult_left)
    also have "gcd u (2 ^ (j - i) * v) = gcd u v"
      using gcd_shift_odd[OF that(2), of "j - i" v] by (simp add: gcd.commute)
    finally show ?thesis .
  qed
  show ?thesis
    using le[of i j u v] le[of j i v u] assms
    by (cases "i \<le> j") (simp_all add: min_def gcd.commute)
qed

lemma av_gcd_nonzero:
  assumes "in_s64 a" "in_s64 b" "a \<noteq> 0" "b \<noteq> 0" "a \<noteq> INT64_MIN \<or> b \<noteq> INT64_MIN"
  shows "av_gcd a b = Some (gcd a b)"
proof -
  define u v where "u = a div 2 ^ ctz a" and "v = b div 2 ^ ctz b"
  have u: "a = 2 ^ ctz a * u" "odd u" and v: "b = 2 ^ ctz b * v" "odd v"
    using ctz_spec assms by (auto simp: u_def v_def)
  have "gcd_loop \<bar>u\<bar> \<bar>v\<bar> = Some (gcd u v)"
    using u v gcd_loop_correct[of "\<bar>u\<bar>" "\<bar>v\<bar>"] by fastforce
  moreover have "gcd a b = gcd u v * 2 ^ min (ctz a) (ctz b)"
    using gcd_split[OF u(2) v(2), of "ctz a" "ctz b"] u(1) v(1) by simp
  moreover have "gcd a b \<le> \<bar>a\<bar>" "gcd a b \<le> \<bar>b\<bar>" using assms gcd_le1_int[of "\<bar>a\<bar>" b] gcd_le2_int[of "\<bar>b\<bar>" a] by simp_all
  then have "0 \<le> gcd a b" "gcd a b \<le> INT64_MAX" using assms by (auto simp: in_s64_def)
  then have "in_s64 (gcd a b)" unfolding in_s64_def by linarith
  then have "s64 (u64_of (gcd a b)) = gcd a b"
    using \<open>gcd a b \<le> INT64_MAX\<close> by (simp add: s64_id u64_of_id)
  ultimately show ?thesis using assms by (simp add: av_gcd_def Let_def u_def v_def)
qed

section \<open>Comparing timestamps\<close>

definition rational_ok :: "AVRational \<Rightarrow> bool" where
  "rational_ok q \<longleftrightarrow> 0 < num q \<and> num q \<le> INT_MAX \<and> 0 < den q \<and> den q \<le> INT_MAX"

lemma cross_product_ok:
  assumes "rational_ok p" "rational_ok q"
  shows "s64 (num p * den q) = num p * den q \<and> 0 < num p * den q \<and> num p * den q \<le> INT_MAX * INT_MAX"
proof -
  have "num p * den q \<le> INT_MAX * INT_MAX"
    using assms by (intro mult_mono) (auto simp: rational_ok_def)
  moreover have "0 < num p * den q" using assms by (simp add: rational_ok_def)
  ultimately show ?thesis by (simp add: s64_id in_s64_def)
qed

lemma product_in_s64: "\<bar>x\<bar> \<le> INT_MAX \<Longrightarrow> \<bar>y\<bar> \<le> INT_MAX \<Longrightarrow> in_s64 (x * y)"
proof -
  assume "\<bar>x\<bar> \<le> INT_MAX" "\<bar>y\<bar> \<le> INT_MAX"
  then have "\<bar>x\<bar> * \<bar>y\<bar> \<le> INT_MAX * INT_MAX" by (intro mult_mono) simp_all
  then have "\<bar>x * y\<bar> \<le> INT_MAX * INT_MAX" by (simp add: abs_mult)
  then show "in_s64 (x * y)" unfolding in_s64_def by linarith
qed

lemma or_le_int: "0 \<le> x \<Longrightarrow> 0 \<le> y \<Longrightarrow> x OR y \<le> (m::int) \<Longrightarrow> x \<le> m \<and> y \<le> m"
  using or_greater_eq[of y x] or_greater_eq[of x y] by (simp add: or.commute)

lemma FFABS64U_abs: "in_s64 a \<Longrightarrow> FFABS64U a = \<bar>a\<bar>"
proof (cases "a < 0")
  case True
  assume "in_s64 a"
  then have "u64_of (- u64_of a) = u64_of (- a)" by (simp add: u64_of_def mod_minus_eq)
  then show ?thesis using True \<open>in_s64 a\<close> by (simp add: FFABS64U_def u64_of_id in_s64_def)
next
  case False
  assume "in_s64 a"
  then show ?thesis using False by (cases "a = 0") (simp_all add: FFABS64U_def u64_of_id in_s64_def)
qed

lemma floor_less_iff: "0 < b \<Longrightarrow> (n div b < m) = (n < m * (b::int))"
  using zdiv_lt_mult[of b n m] zle_div_mult[of b m n] by linarith

lemma compare_ts_correct:
  assumes tb: "rational_ok tb_a" "rational_ok tb_b"
    and ts: "\<bar>ts_a\<bar> \<le> INT64_MAX" "\<bar>ts_b\<bar> \<le> INT64_MAX"
    and rep: "\<bar>ts_a * (num tb_a * den tb_b) div (num tb_b * den tb_a)\<bar> \<le> INT64_MAX"
      "\<bar>ts_b * (num tb_b * den tb_a) div (num tb_a * den tb_b)\<bar> \<le> INT64_MAX"
  shows "av_compare_ts ts_a tb_a ts_b tb_b
       = sgn (ts_a * (num tb_a * den tb_b) - ts_b * (num tb_b * den tb_a))"
proof -
  define a b where "a = num tb_a * den tb_b" and "b = num tb_b * den tb_a"
  have ab: "s64 (num tb_a * den tb_b) = a" "0 < a" "a \<le> INT64_MAX"
    "s64 (num tb_b * den tb_a) = b" "0 < b" "b \<le> INT64_MAX"
    using cross_product_ok[OF tb] cross_product_ok[OF tb(2) tb(1)] by (simp_all add: a_def b_def)
  have abs: "FFABS64U ts_a = \<bar>ts_a\<bar>" "FFABS64U ts_b = \<bar>ts_b\<bar>"
  proof -
    have "in_s64 ts_a" "in_s64 ts_b" unfolding in_s64_def using ts by linarith+
    then show "FFABS64U ts_a = \<bar>ts_a\<bar>" "FFABS64U ts_b = \<bar>ts_b\<bar>" by (simp_all add: FFABS64U_abs)
  qed
  have u: "u64_of a = a" "u64_of b = b" using ab by (auto simp: u64_of_id)
  have unf: "av_compare_ts ts_a tb_a ts_b tb_b =
     (if (\<bar>ts_a\<bar> OR a OR \<bar>ts_b\<bar> OR b) \<le> INT_MAX
      then of_bool (s64 (ts_a * a) > s64 (ts_b * b)) - of_bool (s64 (ts_a * a) < s64 (ts_b * b))
      else if av_rescale_rnd ts_a a b AV_ROUND_DOWN < ts_b then - 1
      else if av_rescale_rnd ts_b b a AV_ROUND_DOWN < ts_a then 1 else 0)"
    by (simp only: av_compare_ts_def Let_def ab(1,4) abs u or.assoc)
  show ?thesis
  proof (cases "(\<bar>ts_a\<bar> OR a OR \<bar>ts_b\<bar> OR b) \<le> INT_MAX")
    case True
    have nn: "0 \<le> (\<bar>ts_b\<bar> OR b)" "0 \<le> (a OR \<bar>ts_b\<bar> OR b)" using ab by simp_all
    have "\<bar>ts_a\<bar> \<le> INT_MAX \<and> a \<le> INT_MAX \<and> \<bar>ts_b\<bar> \<le> INT_MAX \<and> b \<le> INT_MAX"
      using or_le_int[OF _ nn(2) True[unfolded or.assoc]] or_le_int[OF _ nn(1), of a INT_MAX]
        or_le_int[of "\<bar>ts_b\<bar>" b INT_MAX] ab by auto
    then have "s64 (ts_a * a) = ts_a * a" "s64 (ts_b * b) = ts_b * b"
      using ab product_in_s64 by (simp_all add: s64_id)
    then show ?thesis
      using True unfolding unf a_def[symmetric] b_def[symmetric] by (simp add: sgn_if)
  next
    case False
    have rs: "av_rescale_rnd ts_a a b AV_ROUND_DOWN = ts_a * a div b"
      "av_rescale_rnd ts_b b a AV_ROUND_DOWN = ts_b * b div a"
      using rescale_exact_aux[of ts_a a b AV_ROUND_DOWN] rescale_exact_aux[of ts_b b a AV_ROUND_DOWN]
        ts ab rep[folded a_def b_def]
      by (auto simp: round_div_def rounding_modes_def round_defs)
    show ?thesis
      using False ab(2,5) unfolding unf rs a_def[symmetric] b_def[symmetric] by (simp add: floor_less_iff sgn_if)
  qed
qed

lemma compare_mod_correct:
  assumes ab: "0 \<le> a" "a < 2 ^ 64" "0 \<le> b" "b < 2 ^ 64" and k: "0 < k" "k \<le> 63"
  defines "m \<equiv> 2 ^ k"
  defines "c \<equiv> av_compare_mod a b m"
  shows "(a - b - c) mod m = 0 \<and> - (m div 2) < c \<and> c \<le> m div 2"
proof -
  have m: "2 \<le> m" "m \<le> 2 ^ 63"
    using k power_increasing[of 1 k "2::int"] power_increasing[of k 63 "2::int"] by (simp_all add: m_def)
  have "u64_of (m - 1) = mask k"
    using m by (simp add: m_def mask_eq_exp_minus_1 u64_of_id)
  then have and_m: "u64_of (a - b) AND u64_of (m - 1) = u64_of (a - b) mod m"
    by (simp add: m_def flip: take_bit_eq_mask take_bit_eq_mod)
  have "m dvd 2 ^ 64" unfolding m_def using k by (intro le_imp_power_dvd) simp
  then have mm: "u64_of (a - b) mod m = (a - b) mod m"
    unfolding u64_of_def by (simp add: mod_mod_cancel)
  define d where "d = (a - b) mod m"
  have d: "0 \<le> d" "d < m" using m by (simp_all add: d_def)
  then have s: "s64 d = d" "u64_of d = d" using m by (auto simp: s64_id u64_of_id in_s64_def)
  have "c = (if d > m div 2 then d - m else d)"
    unfolding c_def av_compare_mod_def and_m mm d_def[symmetric] Let_def s
    using d m by (auto simp: in_s64_def intro!: s64_id)
  moreover have e: "a - b - d = m * ((a - b) div m)"
    by (simp add: d_def minus_mod_eq_mult_div)
  moreover have "a - b - (d - m) = m * ((a - b) div m + 1)"
    using e by (simp add: algebra_simps)
  moreover have "m = 2 * (m div 2)" using k by (simp add: m_def)
  ultimately show ?thesis using d by auto
qed

section \<open>Properties\<close>

lemma pass_minmax_modes:
  "rnd \<in> rounding_modes \<Longrightarrow> 0 < c \<Longrightarrow> 0 \<le> b \<Longrightarrow>
     av_rescale_rnd a b c (rnd + AV_ROUND_PASS_MINMAX) =
       (if a = INT64_MIN \<or> a = INT64_MAX then a else av_rescale_rnd a b c rnd)"
  unfolding rounding_modes_def
  by (auto simp: av_rescale_rnd_def round_defs Let_def)

text \<open>C5: for every rounding mode \<open>av_rescale_rnd(a, b, c, rnd)\<close> is the exact \<open>a * b / c\<close> rounded
  that way, computed without losing a bit although the product may need 126 bits, and
  \<open>INT64_MIN\<close> if the result does not fit; \<open>INT64_MIN\<close> as input counts as \<open>-INT64_MAX\<close>. With
  \<open>AV_ROUND_PASS_MINMAX\<close> the two extreme timestamps pass through and nothing else changes.\<close>

theorem rescale_rnd_exact:
  assumes "in_s64 a" "0 \<le> b" "b \<le> INT64_MAX" "0 < c" "c \<le> INT64_MAX" "rnd \<in> rounding_modes"
  shows "av_rescale_rnd a b c rnd =
      (let q = round_div rnd (max a (- INT64_MAX) * b) c in if \<bar>q\<bar> \<le> INT64_MAX then q else INT64_MIN) \<and>
    av_rescale_rnd a b c (rnd + AV_ROUND_PASS_MINMAX) =
      (if a = INT64_MIN \<or> a = INT64_MAX then a else av_rescale_rnd a b c rnd)"
proof -
  have "av_rescale_rnd a b c rnd = av_rescale_rnd (max a (- INT64_MAX)) b c rnd"
    using assms rescale_valid[of rnd c b] by (auto simp: max_def in_s64_def)
  moreover have "- INT64_MAX \<le> max a (- INT64_MAX)" "max a (- INT64_MAX) \<le> INT64_MAX"
    using assms by (auto simp: in_s64_def)
  ultimately show ?thesis
    using rescale_exact_aux[of "max a (- INT64_MAX)" b c rnd] assms pass_minmax_modes by (simp add: Let_def)
qed

theorem rescale_rnd_exact_witness:
  "av_rescale_rnd 1000000000000 90000 1000000007 AV_ROUND_UP = 90000000"
proof -
  have h: "in_s64 1000000000000" "(0::int) \<le> 90000" "(90000::int) \<le> INT64_MAX" "(0::int) < 1000000007"
    "(1000000007::int) \<le> INT64_MAX" "AV_ROUND_UP \<in> rounding_modes"
    by (simp_all add: in_s64_def rounding_modes_def)
  show ?thesis
    using conjunct1[OF rescale_rnd_exact[OF h]] by (simp add: round_div_def round_defs)
qed

text \<open>C9: Stein's algorithm in \<open>av_gcd\<close> terminates and returns the greatest common divisor of any
  two nonzero 64-bit integers, of either sign, except when both are \<open>INT64_MIN\<close>, whose gcd does
  not fit; with one operand 0 it returns the other operand as it is, its sign included.\<close>

theorem av_gcd_correct:
  assumes "in_s64 a" "in_s64 b" "a \<noteq> INT64_MIN \<or> b \<noteq> INT64_MIN"
  shows "av_gcd a b = Some (if a = 0 then b else if b = 0 then a else gcd a b)"
  using av_gcd_nonzero[OF assms(1,2)] assms(3) by (simp add: av_gcd_def)

theorem av_gcd_correct_witness: "av_gcd (- 48) 180 = Some 12"
proof -
  have h: "in_s64 (- 48)" "in_s64 180" "- 48 \<noteq> INT64_MIN \<or> 180 \<noteq> INT64_MIN"
    by (simp_all add: in_s64_def)
  have "gcd (- 48 :: int) 180 = 12" by (simp add: gcd_code_int gcd_non_0_int)
  then show ?thesis using av_gcd_correct[OF h] by simp
qed

text \<open>C8: \<open>av_compare_ts\<close> orders two timestamps with different positive time bases as the rational
  times they stand for, both on the fast path and through \<open>av_rescale_rnd\<close>, provided each fits in
  64 bits when expressed in the other's time base (which the documentation requires).\<close>

theorem compare_ts_exact:
  assumes "rational_ok tb_a" "rational_ok tb_b" "\<bar>ts_a\<bar> \<le> INT64_MAX" "\<bar>ts_b\<bar> \<le> INT64_MAX"
    "\<bar>ts_a * (num tb_a * den tb_b) div (num tb_b * den tb_a)\<bar> \<le> INT64_MAX"
    "\<bar>ts_b * (num tb_b * den tb_a) div (num tb_a * den tb_b)\<bar> \<le> INT64_MAX"
  shows "av_compare_ts ts_a tb_a ts_b tb_b
       = sgn (ts_a * (num tb_a * den tb_b) - ts_b * (num tb_b * den tb_a))"
  using assms by (rule compare_ts_correct)

theorem compare_ts_exact_witness:
  "av_compare_ts 9000000000000 \<lparr>num = 1, den = 90000\<rparr> 99999999 \<lparr>num = 1, den = 1\<rparr> = 1"
proof -
  have h: "rational_ok \<lparr>num = 1, den = 90000\<rparr>" "rational_ok \<lparr>num = 1, den = 1\<rparr>"
    by (simp_all add: rational_ok_def)
  show ?thesis using compare_ts_exact[OF h, of 9000000000000 99999999] by simp
qed

text \<open>for a modulus \<open>2 ^ k\<close>, \<open>0 < k \<le> 63\<close>, \<open>av_compare_mod\<close> returns the representative of
  \<open>a - b\<close> in the half-open interval from \<open>-2 ^ (k-1)\<close> (excluded) to \<open>2 ^ (k-1)\<close>: the signed
  distance of two wrapping counters.\<close>

theorem compare_mod_exact:
  assumes "0 \<le> a" "a < 2 ^ 64" "0 \<le> b" "b < 2 ^ 64" "0 < k" "k \<le> 63"
  shows "(a - b - av_compare_mod a b (2 ^ k)) mod 2 ^ k = 0 \<and>
     - (2 ^ k div 2) < av_compare_mod a b (2 ^ k) \<and> av_compare_mod a b (2 ^ k) \<le> 2 ^ k div 2"
  using assms by (rule compare_mod_correct)

theorem compare_mod_exact_witness:
  "(5 - 250 - av_compare_mod 5 250 256) mod 256 = 0 \<and> - 128 < av_compare_mod 5 250 256"
  using compare_mod_exact[of 5 250 8] by simp

end
