(* ===== verification/TfVid.thy ===== *)
theory TfVid
  imports Frames Fifo TfCodec Mathematics
begin

text \<open>
  The decoder wrapper libavcodec/tfvid.c. State: the fields of \<open>TfvidContext\<close>, the log of what the
  decoder accepted and the number of its buffers given back. The decoder (libtfdec) is outside the
  repository: its constants are the record \<open>tfdec\<close>, its answers are parameters of the steps, and
  its callback runs in a thread of its own. The code takes a mutex around each access of that
  thread, so the system is a step relation whose steps are the critical sections: a callback
  enters, a callback that waits for room polls again, and the API thread, which may sleep at two
  points of \<open>tfvid_output_frame\<close> while callbacks go on. A loop that polls is left when its condition
  is false; the sleeping itself is the absence of a step.
  As elsewhere \<open>None\<close> is undefined behaviour, or in \<open>tfvid_decode_packet\<close> an input queue that
  stays full for ever.

  A frame of the decoder is kept by value; \<open>free\<close> of its data is dropping it.
\<close>

section \<open>State\<close>

record tfdec =
  TFDEC_BUFFER_FLAG_EOS :: u32
  TFDEC_STATUS_SUCCESS :: int
  TFDEC_STATUS_QUEUE_IS_FULL :: int

datatype tfdec_codec =
  DECODER_H264 | DECODER_HEVC | DECODER_JPEG | DECODER_MPG2 | DECODER_MPG4 | DECODER_VP8

record DecodeContext =
  dec_codec_id :: int
  coded_width :: nat
  coded_height :: nat
  pix_fmt :: int
  pkt_timebase :: AVRational

record TfvidParsedFrame =
  pf_data :: "u8 list"
  pf_len :: nat
  timestamp :: nat
  iskey :: bool

record TfvidContext =
  dec_handle :: bool
  has_key_frame :: bool
  prev_pts :: int
  decoder_flushing :: bool
  nb_outbuffers :: nat
  input_queue_capacity :: nat
  frame_queue :: "(TfvidParsedFrame \<times> nat) AVFifoBuffer option"
  codec_type :: tfdec_codec
  dec_closed :: bool
  eos_sent :: bool
  eos_received :: bool
  crop_expr :: "string option"
  resize_expr :: "string option"
  crop :: "int list"
  resize :: "int list"
  enqueued :: "(u8 list option \<times> int \<times> u32) list"
  returned :: nat

text \<open>\<open>sizeof(TfvidParsedFrame)\<close>: two pointers' worth of fields and two padded ints.\<close>

definition sizeof_frame :: nat where "sizeof_frame = 32"

definition queue_size :: "TfvidContext \<Rightarrow> int option" where
  "queue_size ctx = map_option av_fifo_size (frame_queue ctx)"

definition tfvid_is_buffer_full :: "TfvidContext \<Rightarrow> bool option" where
  "tfvid_is_buffer_full ctx =
     map_option (\<lambda>q. u64_of (av_fifo_size q) div int sizeof_frame + 0 \<ge> u64_of (int (nb_outbuffers ctx)))
       (frame_queue ctx)"

section \<open>The decoder's callback\<close>

definition parsed_frame :: "u8 list \<Rightarrow> nat \<Rightarrow> u32 \<Rightarrow> TfvidParsedFrame" where
  "parsed_frame bytes ts flag =
     \<lparr>pf_data = bytes, pf_len = length bytes, timestamp = ts, iskey = (flag AND 2 ^ 20 > 0)\<rparr>"

text \<open>The loop on a full queue, from a test of its condition: the new context and, if the thread
  sleeps again, the frame it holds. After a sleep \<open>closed\<close> is looked at first.\<close>

definition callback_loop ::
    "bool \<Rightarrow> TfvidParsedFrame \<Rightarrow> TfvidContext \<Rightarrow> (TfvidContext \<times> TfvidParsedFrame option) option" where
  "callback_loop slept f ctx =
     (if slept \<and> dec_closed ctx then Some (ctx, None)
      else
        Option.bind (tfvid_is_buffer_full ctx) (\<lambda>full.
          if full then Some (ctx, Some f)
          else
            Option.bind (frame_queue ctx) (\<lambda>q.
            Option.bind (av_fifo_generic_write q (frag sizeof_frame f) sizeof_frame) (\<lambda>(_, q').
              Some (ctx\<lparr>frame_queue := Some q', returned := returned ctx + 1\<rparr>, None)))))"

text \<open>\<open>buf\<close> is the buffer and its \<open>size\<close> bytes; \<open>alloc_ok\<close> the result of \<open>malloc(size)\<close>.\<close>

definition ff_tfdec_callback ::
    "tfdec \<Rightarrow> bool \<Rightarrow> u8 list option \<Rightarrow> nat \<Rightarrow> u32 \<Rightarrow> TfvidContext
       \<Rightarrow> (TfvidContext \<times> TfvidParsedFrame option) option" where
  "ff_tfdec_callback sdk alloc_ok buf ts flag ctx =
     (let is_eos = (flag AND TFDEC_BUFFER_FLAG_EOS sdk \<noteq> 0);
          bytes = (case buf of None \<Rightarrow> [] | Some b \<Rightarrow> b)
      in if bytes \<noteq> [] \<and> \<not> alloc_ok then Some (ctx\<lparr>returned := returned ctx + 1\<rparr>, None)
         else
           (let ctx = (if is_eos then ctx\<lparr>eos_received := True\<rparr> else ctx)
            in if dec_closed ctx then Some (ctx, None)
               else if bytes = [] then Some (ctx\<lparr>returned := returned ctx + 1\<rparr>, None)
               else callback_loop False (parsed_frame bytes ts flag) ctx))"

section \<open>Opening, flushing, closing\<close>

text \<open>\<open>av_fifo_generic_read\<close> of one frame.\<close>

definition take_frame :: "TfvidContext \<Rightarrow> (TfvidParsedFrame \<times> TfvidContext) option" where
  "take_frame ctx =
     Option.bind (frame_queue ctx) (\<lambda>q.
     Option.bind (av_fifo_generic_read memcpy_dest q [] sizeof_frame) (\<lambda>(cells, q').
     Option.bind (unfrag sizeof_frame cells) (\<lambda>f.
       Some (f, ctx\<lparr>frame_queue := Some q'\<rparr>))))"

partial_function (option) free_frames :: "TfvidContext \<Rightarrow> TfvidContext option" where
  "free_frames ctx =
     Option.bind (queue_size ctx) (\<lambda>n.
       if n \<noteq> 0 then Option.bind (take_frame ctx) (\<lambda>(f, ctx'). free_frames ctx') else Some ctx)"

definition probed :: "nat \<Rightarrow> nat \<Rightarrow> nat" where
  "probed coded dflt = (if coded \<noteq> 0 then coded else dflt)"

text \<open>\<open>create\<close> is \<open>tfdec_create\<close> for the codec and the probed size: whether it returns a handle.\<close>

definition tfvid_flush ::
    "(tfdec_codec \<Rightarrow> nat \<Rightarrow> nat \<Rightarrow> bool) \<Rightarrow> (nat \<Rightarrow> (TfvidParsedFrame \<times> nat) list option) \<Rightarrow> bool
       \<Rightarrow> DecodeContext \<Rightarrow> TfvidContext \<Rightarrow> TfvidContext option" where
  "tfvid_flush create malloc struct_ok avctx ctx =
     Option.bind (free_frames ctx) (\<lambda>ctx.
       (let ctx = ctx\<lparr>frame_queue := av_fifo_freep (frame_queue ctx)\<rparr>;
            ctx = ctx\<lparr>frame_queue := av_fifo_alloc malloc struct_ok (nb_outbuffers ctx * sizeof_frame)\<rparr>
        in if frame_queue ctx = None then Some ctx
           else
             (let ctx = ctx\<lparr>eos_sent := False, eos_received := False\<rparr>;
                  ctx = ctx\<lparr>dec_handle := create (codec_type ctx) (probed (coded_width avctx) 1280)
                              (probed (coded_height avctx) 720)\<rparr>
              in Some (ctx\<lparr>prev_pts := INT64_MIN, decoder_flushing := False\<rparr>))))"






section \<open>Sending a packet to the decoder\<close>

record DecPacket =
  dp_data :: "u8 list"
  dp_pts :: int

text \<open>The retry loop: \<open>answers\<close> are the results of \<open>tfdec_enqueue_buffer\<close>, one for each call.\<close>

fun enqueue_loop :: "tfdec \<Rightarrow> bool \<Rightarrow> int list \<Rightarrow> int option" where
  "enqueue_loop sdk closed [] = None"
| "enqueue_loop sdk closed (ret2 # answers) =
     (if ret2 = TFDEC_STATUS_QUEUE_IS_FULL sdk \<and> \<not> closed then enqueue_loop sdk closed answers
      else Some ret2)"

definition tfdec_tb :: AVRational where "tfdec_tb = \<lparr>num = 1, den = 10000000\<rparr>"

definition packet_timestamp :: "DecodeContext \<Rightarrow> int \<Rightarrow> int" where
  "packet_timestamp avctx t =
     (if t \<noteq> AV_NOPTS_VALUE then
        (if num (pkt_timebase avctx) \<noteq> 0 \<and> den (pkt_timebase avctx) \<noteq> 0
         then av_rescale_q t (pkt_timebase avctx) tfdec_tb else t)
      else 0)"

definition enqueue_packet ::
    "tfdec \<Rightarrow> int list \<Rightarrow> bool \<Rightarrow> u8 list option \<Rightarrow> int \<Rightarrow> u32 \<Rightarrow> TfvidContext \<Rightarrow> (int \<times> TfvidContext) option" where
  "enqueue_packet sdk answers is_flush bytes ts flag ctx =
     Option.bind (enqueue_loop sdk (dec_closed ctx) answers) (\<lambda>ret2.
       (let ctx = (if ret2 = TFDEC_STATUS_SUCCESS sdk
                   then ctx\<lparr>enqueued := enqueued ctx @ [(bytes, ts, flag)]\<rparr> else ctx);
            ret = (0::int);
            ret = (if ret2 \<noteq> TFDEC_STATUS_SUCCESS sdk then
                     (if dec_closed ctx then AVERROR_EOF
                      else if ret \<noteq> TFDEC_STATUS_QUEUE_IS_FULL sdk then AVERROR_EXTERNAL else ret)
                   else ret)
        in Some (if ret < 0 then ret else if is_flush then AVERROR_EOF else 0, ctx)))"

text \<open>The end of the stream, at most once.\<close>

definition enqueue_eos :: "tfdec \<Rightarrow> int list \<Rightarrow> bool \<Rightarrow> TfvidContext \<Rightarrow> (int \<times> TfvidContext) option" where
  "enqueue_eos sdk answers is_flush ctx =
     (let ctx = ctx\<lparr>decoder_flushing := True\<rparr>
      in if eos_sent ctx then Some (0, ctx)
         else enqueue_packet sdk answers is_flush None 0 (TFDEC_BUFFER_FLAG_EOS sdk) (ctx\<lparr>eos_sent := True\<rparr>))"

definition tfvid_decode_packet ::
    "tfdec \<Rightarrow> DecodeContext \<Rightarrow> int list \<Rightarrow> DecPacket option \<Rightarrow> TfvidContext \<Rightarrow> (int \<times> TfvidContext) option" where
  "tfvid_decode_packet sdk avctx answers pkt ctx =
     (let is_flush = decoder_flushing ctx;
          (bytes, t) = (case pkt of None \<Rightarrow> ([], AV_NOPTS_VALUE) | Some p \<Rightarrow> (dp_data p, dp_pts p))
      in if is_flush \<and> bytes \<noteq> [] then Some (AVERROR_EOF, ctx)
         else
           Option.bind (tfvid_is_buffer_full ctx) (\<lambda>full.
             if full \<and> bytes \<noteq> [] then Some (EAGAIN, ctx)
             else if bytes \<noteq> [] then
               Option.bind (analyzeh264Frame bytes (if length bytes > 1000 then 1000 else length bytes)) (\<lambda>nal.
                 enqueue_packet sdk answers is_flush (Some bytes) (packet_timestamp avctx t)
                   (if nal > 0 then 2 ^ 20 else 0) ctx)
             else enqueue_eos sdk answers is_flush ctx))"

section \<open>Getting a frame\<close>

text \<open>\<open>tfvid_output_frame\<close> up to its first sleeping loop: \<open>Some ret\<close> if it returned, \<open>None\<close> if it
  goes on. \<open>get_packet\<close> is the result of \<open>ff_decode_get_packet\<close> with the packet.\<close>

definition output_begin ::
    "tfdec \<Rightarrow> DecodeContext \<Rightarrow> int \<times> DecPacket \<Rightarrow> int list \<Rightarrow> TfvidContext \<Rightarrow> (int option \<times> TfvidContext) option" where
  "output_begin sdk avctx get_packet answers ctx =
     (if decoder_flushing ctx then Some (None, ctx)
      else
        Option.bind (tfvid_is_buffer_full ctx) (\<lambda>full.
          if full then Some (None, ctx)
          else
            (let (ret, pkt) = get_packet in
             if ret < 0 \<and> ret \<noteq> AVERROR_EOF then Some (Some ret, ctx)
             else if ret = AVERROR_EOF then Some (None, ctx\<lparr>decoder_flushing := True\<rparr>)
             else
               Option.bind (tfvid_decode_packet sdk avctx answers (Some pkt) ctx) (\<lambda>(ret, ctx).
                 (let ret = (if ret = EAGAIN then AVERROR_EXTERNAL else ret)
                  in if ret < 0 \<and> ret \<noteq> AVERROR_EOF then Some (Some ret, ctx) else Some (None, ctx))))))"

text \<open>The loop that waits for the input queue to empty before the end of stream is sent; \<open>level\<close>
  is the free space \<open>tfdec_query_input_queue\<close> reports.\<close>

definition drain_sleeps :: "nat \<Rightarrow> TfvidContext \<Rightarrow> bool option" where
  "drain_sleeps level ctx =
     (if decoder_flushing ctx \<and> \<not> eos_sent ctx then
        map_option (\<lambda>n. n = 0 \<and> dec_handle ctx \<and> level < input_queue_capacity ctx \<and> \<not> dec_closed ctx) (queue_size ctx)
      else Some False)"

definition drain_leave ::
    "tfdec \<Rightarrow> DecodeContext \<Rightarrow> nat \<Rightarrow> int list \<Rightarrow> TfvidContext \<Rightarrow> (int option \<times> TfvidContext) option" where
  "drain_leave sdk avctx level answers ctx =
     (if decoder_flushing ctx \<and> \<not> eos_sent ctx \<and> dec_handle ctx \<and> level = input_queue_capacity ctx then
        Option.bind (tfvid_decode_packet sdk avctx answers None ctx) (\<lambda>(ret, ctx).
          if ret < 0 \<and> ret \<noteq> AVERROR_EOF then Some (Some ret, ctx) else Some (None, ctx))
      else Some (None, ctx))"

text \<open>The loop that waits for a frame or the end of the stream.\<close>

definition frame_sleeps :: "TfvidContext \<Rightarrow> bool option" where
  "frame_sleeps ctx =
     map_option (\<lambda>n. n = 0 \<and> decoder_flushing ctx \<and> \<not> eos_received ctx \<and> \<not> dec_closed ctx) (queue_size ctx)"

definition copy_plane :: "AVFrame \<Rightarrow> nat \<Rightarrow> u8 list \<Rightarrow> nat \<Rightarrow> nat \<Rightarrow> nat \<Rightarrow> AVFrame option" where
  "copy_plane f i src s w n =
     (if n = 0 then Some f
      else
        Option.bind (plane f i) (\<lambda>dst.
        Option.bind (copy_rows dst 0 (stride f i) src s w w n) (\<lambda>dst'.
          Some (f\<lparr>data := (data f)[i := Some dst']\<rparr>))))"

definition copy_i420 :: "TfvidParsedFrame \<Rightarrow> AVFrame \<Rightarrow> AVFrame option" where
  "copy_i420 pf f =
     (let w = width f; h = height f; src = pf_data pf in
      Option.bind (copy_plane f 0 src 0 w h) (\<lambda>f.
      Option.bind (copy_plane f 1 src (h * w) (w div 2) (h div 2)) (\<lambda>f.
        copy_plane f 2 src (h * w + (h div 2) * (w div 2)) (w div 2) (h div 2))))"

definition frame_pts :: "DecodeContext \<Rightarrow> nat \<Rightarrow> int" where
  "frame_pts avctx ts =
     (if num (pkt_timebase avctx) \<noteq> 0 \<and> den (pkt_timebase avctx) \<noteq> 0
      then av_rescale_q (s64 (int ts)) tfdec_tb (pkt_timebase avctx) else s64 (int ts))"

text \<open>From the second loop to the end: the result and the frame filled. \<open>get_buffer\<close> is the result
  of \<open>ff_get_buffer\<close> with the frame it allocated.\<close>

definition output_end ::
    "DecodeContext \<Rightarrow> int \<times> AVFrame \<Rightarrow> TfvidContext \<Rightarrow> (int \<times> AVFrame option \<times> TfvidContext) option" where
  "output_end avctx get_buffer ctx =
     Option.bind (queue_size ctx) (\<lambda>n.
       if n \<noteq> 0 then
         Option.bind (take_frame ctx) (\<lambda>(pf, ctx).
           if pix_fmt avctx = AV_PIX_FMT_YUV420P then
             (let (ret, f) = get_buffer in
              if ret < 0 then Some (ret, None, ctx)
              else
                Option.bind (copy_i420 pf f) (\<lambda>f.
                  Some (ret, Some (f\<lparr>key_frame := iskey pf, pts := frame_pts avctx (timestamp pf)\<rparr>), ctx)))
           else Some (AVERROR_BUG, None, ctx))
       else if decoder_flushing ctx \<and> eos_received ctx then Some (AVERROR_EOF, None, ctx)
       else Some (EAGAIN, None, ctx))"

text \<open>The end of \<open>tfvid_decode_frame\<close>: its return value and \<open>*got_frame\<close> from the result of
  \<open>tfvid_output_frame\<close>.\<close>

definition decode_frame_result :: "int \<Rightarrow> int \<times> bool option" where
  "decode_frame_result ret =
     (if ret = EAGAIN \<or> ret = AVERROR_EOF then (0, Some False)
      else if ret < 0 then (ret, None)
      else (0, Some True))"

section \<open>The two threads\<close>

datatype api_pc = Idle | Draining | Waiting

record dec_sys =
  vctx :: TfvidContext
  waiting :: "TfvidParsedFrame option"
  pc :: api_pc

text \<open>What happened: the decoder delivered a buffer; the callback polled; \<open>tfvid_output_frame\<close> was
  called, left its first loop, or returned with the frame it took off the queue.\<close>

datatype dec_label =
    Delivered bool "u8 list option" nat u32
  | Polled
  | Called "int option"
  | Drained "int option"
  | Left int "TfvidParsedFrame option"

definition taken :: "TfvidContext \<Rightarrow> TfvidParsedFrame option" where
  "taken ctx = (if queue_size ctx = Some 0 then None else map_option fst (take_frame ctx))"

inductive dec_step :: "tfdec \<Rightarrow> DecodeContext \<Rightarrow> dec_sys \<Rightarrow> dec_label \<Rightarrow> dec_sys \<Rightarrow> bool"
  for sdk avctx where
  deliver: "waiting s = None \<Longrightarrow> ff_tfdec_callback sdk ok buf ts flag (vctx s) = Some (c, w) \<Longrightarrow>
     dec_step sdk avctx s (Delivered ok buf ts flag) (s\<lparr>vctx := c, waiting := w\<rparr>)"
| poll: "waiting s = Some f \<Longrightarrow> callback_loop True f (vctx s) = Some (c, w) \<Longrightarrow>
     dec_step sdk avctx s Polled (s\<lparr>vctx := c, waiting := w\<rparr>)"
| call: "pc s = Idle \<Longrightarrow> output_begin sdk avctx get_packet answers (vctx s) = Some (r, c) \<Longrightarrow>
     dec_step sdk avctx s (Called r) (s\<lparr>vctx := c, pc := (if r = None then Draining else Idle)\<rparr>)"
| drain: "pc s = Draining \<Longrightarrow> drain_sleeps level (vctx s) = Some False \<Longrightarrow>
     drain_leave sdk avctx level answers (vctx s) = Some (r, c) \<Longrightarrow>
     dec_step sdk avctx s (Drained r) (s\<lparr>vctx := c, pc := (if r = None then Waiting else Idle)\<rparr>)"
| leave: "pc s = Waiting \<Longrightarrow> frame_sleeps (vctx s) = Some False \<Longrightarrow>
     output_end avctx get_buffer (vctx s) = Some (ret, out, c) \<Longrightarrow>
     dec_step sdk avctx s (Left ret (taken (vctx s))) (s\<lparr>vctx := c, pc := Idle\<rparr>)"

inductive_cases dec_step_cases: "dec_step sdk avctx s l s'"


fun accepted_of :: "dec_label \<Rightarrow> TfvidParsedFrame list" where
  "accepted_of (Delivered ok (Some b) ts flag) = (if b \<noteq> [] \<and> ok then [parsed_frame b ts flag] else [])"
| "accepted_of _ = []"

fun taken_of :: "dec_label \<Rightarrow> TfvidParsedFrame list" where
  "taken_of (Left _ (Some f)) = [f]"
| "taken_of _ = []"

definition accepted :: "dec_label list \<Rightarrow> TfvidParsedFrame list" where
  "accepted tr = concat (map accepted_of tr)"

definition emitted :: "dec_label list \<Rightarrow> TfvidParsedFrame list" where
  "emitted tr = concat (map taken_of tr)"

section \<open>The frame queue\<close>

interpretation vframes: record_queue fifo_ok contents "\<lambda>f. fend f" av_fifo_generic_write
  "\<lambda>f n. av_fifo_generic_read memcpy_dest f [] n" av_fifo_size av_fifo_reset sizeof_frame
  by unfold_locales (simp add: sizeof_frame_def)

definition frames_in :: "TfvidContext \<Rightarrow> TfvidParsedFrame list \<Rightarrow> bool" where
  "frames_in ctx fs \<longleftrightarrow>
     0 < nb_outbuffers ctx \<and>
     (\<exists>q. frame_queue ctx = Some q \<and> fifo_ok q \<and> contents q = frags sizeof_frame fs \<and>
        fend q = nb_outbuffers ctx * sizeof_frame)"

lemma frames_in_bound: "frames_in ctx fs \<Longrightarrow> length fs \<le> nb_outbuffers ctx"
  using vframes.fits by (fastforce simp: frames_in_def sizeof_frame_def)

lemma queue_size_frames: "frames_in ctx fs \<Longrightarrow> queue_size ctx = Some (int (length fs * sizeof_frame))"
  by (auto simp: frames_in_def queue_size_def fifo.level)

lemma buffer_full_frames:
  assumes "frames_in ctx fs"
  shows "tfvid_is_buffer_full ctx = Some (nb_outbuffers ctx \<le> length fs)"
proof -
  obtain q where q: "frame_queue ctx = Some q" "fifo_ok q" "fend q = nb_outbuffers ctx * sizeof_frame"
    using assms by (auto simp: frames_in_def)
  have sz: "av_fifo_size q = int (length fs * sizeof_frame)"
    using queue_size_frames[OF assms] q by (simp add: queue_size_def)
  have b: "length fs \<le> nb_outbuffers ctx" "nb_outbuffers ctx * 32 \<le> 2147483647"
    using frames_in_bound[OF assms] q by (simp_all add: fifo_ok_def max_alloc_size_def sizeof_frame_def)
  then have "u64_of (av_fifo_size q) = int (length fs) * 32" "u64_of (int (nb_outbuffers ctx)) = int (nb_outbuffers ctx)"
    unfolding sz by (auto intro!: u64_of_id simp: sizeof_frame_def)
  then show ?thesis by (simp add: tfvid_is_buffer_full_def q(1) sizeof_frame_def)
qed

lemma take_frame_frames:
  assumes "frames_in ctx (f # fs)"
  shows "\<exists>q. take_frame ctx = Some (f, ctx\<lparr>frame_queue := q\<rparr>) \<and> frames_in (ctx\<lparr>frame_queue := q\<rparr>) fs"
proof -
  obtain q where q: "frame_queue ctx = Some q" "fifo_ok q" "contents q = frags sizeof_frame (f # fs)"
      "fend q = nb_outbuffers ctx * sizeof_frame"
    using assms by (auto simp: frames_in_def)
  obtain q' where "av_fifo_generic_read memcpy_dest q [] sizeof_frame = Some (frag sizeof_frame f, q')"
      "unfrag sizeof_frame (frag sizeof_frame f) = Some f" "fifo_ok q'" "contents q' = frags sizeof_frame fs" "fend q' = fend q"
    using vframes.get[OF q(2,3)] by blast
  then show ?thesis using q assms by (intro exI[of _ "Some q'"]) (auto simp: take_frame_def frames_in_def)
qed

lemma callback_loop_frames:
  assumes "frames_in ctx fs" "\<not> dec_closed ctx"
  shows "if nb_outbuffers ctx \<le> length fs then callback_loop slept f ctx = Some (ctx, Some f)
     else \<exists>q. callback_loop slept f ctx = Some (ctx\<lparr>frame_queue := q, returned := returned ctx + 1\<rparr>, None) \<and>
        frames_in (ctx\<lparr>frame_queue := q, returned := returned ctx + 1\<rparr>) (fs @ [f])"
proof (cases "nb_outbuffers ctx \<le> length fs")
  case True
  then show ?thesis using assms buffer_full_frames[OF assms(1)] by (simp add: callback_loop_def)
next
  case False
  obtain q where q: "frame_queue ctx = Some q" "fifo_ok q" "contents q = frags sizeof_frame fs"
      "fend q = nb_outbuffers ctx * sizeof_frame"
    using assms by (auto simp: frames_in_def)
  have "(length fs + 1) * sizeof_frame \<le> nb_outbuffers ctx * sizeof_frame"
    using False by (intro mult_le_mono1) simp
  then have "(length fs + 1) * sizeof_frame \<le> fend q" by (simp only: q(4))
  then obtain q' where "av_fifo_generic_write q (frag sizeof_frame f) sizeof_frame = Some (sizeof_frame, q')"
      "fifo_ok q'" "contents q' = frags sizeof_frame (fs @ [f])" "fend q' = fend q"
    using vframes.put[OF q(2,3)] by blast
  then show ?thesis
    using False q assms buffer_full_frames[OF assms(1)]
    by (auto simp: callback_loop_def frames_in_def intro!: exI[of _ "Some q'"])
qed

lemma free_frames_frames:
  assumes "frames_in ctx fs"
  shows "\<exists>q. free_frames ctx = Some (ctx\<lparr>frame_queue := q\<rparr>) \<and> frames_in (ctx\<lparr>frame_queue := q\<rparr>) []"
  using assms
proof (induction fs arbitrary: ctx)
  case Nil
  then show ?case
    using queue_size_frames[OF Nil]
    by (intro exI[of _ "frame_queue ctx"]) (subst free_frames.simps, simp)
next
  case (Cons f fs)
  obtain q where q: "take_frame ctx = Some (f, ctx\<lparr>frame_queue := q\<rparr>)" "frames_in (ctx\<lparr>frame_queue := q\<rparr>) fs"
    using take_frame_frames[OF Cons.prems] by blast
  have "free_frames ctx = free_frames (ctx\<lparr>frame_queue := q\<rparr>)"
    using queue_size_frames[OF Cons.prems] q(1)
    by (subst free_frames.simps) (simp add: sizeof_frame_def)
  then show ?case using Cons.IH[OF q(2)] by simp
qed

lemma alloc_frames:
  assumes "malloc_ok malloc" "0 < nb_outbuffers ctx"
    "av_fifo_alloc malloc ok (nb_outbuffers ctx * sizeof_frame) = Some q"
  shows "frames_in (ctx\<lparr>frame_queue := Some q\<rparr>) []"
  using fifo_alloc_ok[OF assms(1) _ assms(3)] assms(2) by (auto simp: frames_in_def sizeof_frame_def)

section \<open>Invariant of the threads\<close>

text \<open>What the API thread's own bookkeeping leaves alone.\<close>

definition shared :: "TfvidContext \<Rightarrow> (TfvidParsedFrame \<times> nat) AVFifoBuffer option \<times> nat \<times> bool \<times> bool" where
  "shared ctx = (frame_queue ctx, nb_outbuffers ctx, dec_closed ctx, eos_received ctx)"

lemma shared_simps [simp]:
  "shared (ctx\<lparr>decoder_flushing := x\<rparr>) = shared ctx" "shared (ctx\<lparr>eos_sent := x\<rparr>) = shared ctx"
  "shared (ctx\<lparr>enqueued := l\<rparr>) = shared ctx"
  by (simp_all add: shared_def)






lemma frames_in_cong:
  "frame_queue c = frame_queue ctx \<Longrightarrow> nb_outbuffers c = nb_outbuffers ctx \<Longrightarrow> frames_in c fs = frames_in ctx fs"
  by (simp add: frames_in_def)



lemma accepted_snoc [simp]: "accepted (tr @ [l]) = accepted tr @ accepted_of l"
  by (simp add: accepted_def)

lemma emitted_snoc [simp]: "emitted (tr @ [l]) = emitted tr @ taken_of l"
  by (simp add: emitted_def)








text \<open>Just opened: \<open>tfvid_decode_init\<close> has succeeded and no callback has come yet.\<close>

definition dec_opened :: "dec_sys \<Rightarrow> bool" where
  "dec_opened s \<longleftrightarrow>
     frames_in (vctx s) [] \<and> \<not> dec_closed (vctx s) \<and> \<not> eos_received (vctx s) \<and> waiting s = None"


section \<open>The end of the stream\<close>


fun is_eos :: "tfdec \<Rightarrow> dec_label \<Rightarrow> bool" where
  "is_eos sdk (Delivered ok buf ts flag) \<longleftrightarrow> flag AND TFDEC_BUFFER_FLAG_EOS sdk \<noteq> 0"
| "is_eos sdk _ \<longleftrightarrow> False"







section \<open>Copying a picture\<close>

lemma copy_rows_short:
  assumes "0 < n" "0 < w" "length src < s + (n - 1) * sstep + w"
  shows "copy_rows dst d dstep src s sstep w n = None"
  using assms
proof (induction n arbitrary: dst d s)
  case (Suc n)
  show ?case
  proof (cases "load src s w")
    case (Some row)
    then have "s + w \<le> length src" by (simp add: mem_simps)
    then have n: "0 < n" using Suc.prems by (cases n) auto
    show ?thesis
    proof (cases "store dst d row")
      case st: (Some dst')
      have "copy_rows dst' (d + dstep) dstep src (s + sstep) sstep w n = None"
        using Suc.prems n by (intro Suc.IH) (cases n; auto)+
      then show ?thesis by (simp add: Some st)
    qed (simp add: Some)
  qed simp
qed simp

lemma copy_rows_strided:
  assumes "n = 0 \<or> s + n * w \<le> length src" "w \<le> dstep" "n = 0 \<or> d + (n - 1) * dstep + w \<le> length dst"
  shows "\<exists>dst'. copy_rows dst d dstep src s w w n = Some dst' \<and> length dst' = length dst \<and>
     take d dst' = take d dst \<and> rows (drop d dst') dstep w n = rows (drop s src) w w n"
  using assms
proof (induction n arbitrary: dst d s)
  case 0
  then show ?case by simp
next
  case (Suc n)
  have ld: "load src s w = Some (take w (drop s src))" using Suc.prems by (simp add: load_def)
  have lw: "length (take w (drop s src)) = w" using Suc.prems by auto
  define dst1 where "dst1 = take d dst @ take w (drop s src) @ drop (d + w) dst"
  have dw: "d + w \<le> length dst" using Suc.prems by simp
  have st: "store dst d (take w (drop s src)) = Some dst1"
    using dw lw by (simp add: store_def dst1_def)
  have l1: "length dst1 = length dst" using st by (rule store_length)
  have "\<exists>dst'. copy_rows dst1 (d + dstep) dstep src (s + w) w w n = Some dst' \<and> length dst' = length dst1 \<and>
     take (d + dstep) dst' = take (d + dstep) dst1 \<and>
     rows (drop (d + dstep) dst') dstep w n = rows (drop (s + w) src) w w n"
    using Suc.prems l1 by (intro Suc.IH) (cases n; auto simp: algebra_simps)+
  then obtain dst' where IH: "copy_rows dst1 (d + dstep) dstep src (s + w) w w n = Some dst'" "length dst' = length dst1"
     "take (d + dstep) dst' = take (d + dstep) dst1"
     "rows (drop (d + dstep) dst') dstep w n = rows (drop (s + w) src) w w n" by blast
  have t: "take m dst' = take m dst1" if "m \<le> d + dstep" for m
    using arg_cong[OF IH(3), of "take m"] that by (simp add: min_absorb1)
  have "take w (drop d dst') = drop d (take (d + w) dst')" by (simp add: drop_take)
  also have "\<dots> = drop d (take (d + w) dst1)" using t[of "d + w"] Suc.prems(2) by simp
  also have "\<dots> = take w (drop s src)" using dw lw by (simp add: dst1_def)
  finally have r: "take w (drop d dst') = take w (drop s src)" .
  have "take d dst' = take d dst" using t[of d] dw by (simp add: dst1_def)
  moreover have "rows (drop d dst') dstep w (Suc n) = rows (drop s src) w w (Suc n)"
    using IH(4) by (simp add: rows_Suc r add.commute)
  ultimately show ?case using IH(1,2) l1 by (simp add: ld st)
qed

lemma copy_plane_rows:
  assumes "i < length (data f)" "data f ! i = Some dst" "stride f i = ls" "w \<le> ls" "n * ls \<le> length dst"
    "s + n * w \<le> length src"
  shows "\<exists>dst'. copy_plane f i src s w n = Some (f\<lparr>data := (data f)[i := Some dst']\<rparr>) \<and>
     rows dst' ls w n = rows (drop s src) w w n \<and> length dst' = length dst"
proof (cases "n = 0")
  case True
  then have "copy_plane f i src s w n = Some (f\<lparr>data := (data f)[i := Some dst]\<rparr>)"
    using assms(1,2) by (simp add: copy_plane_def flip: assms(2))
  then show ?thesis using True by auto
next
  case False
  have "(n - 1) * ls + w \<le> length dst" using False assms(4,5) by (cases n) auto
  then obtain dst' where "copy_rows dst 0 ls src s w w n = Some dst'" "length dst' = length dst"
      "rows dst' ls w n = rows (drop s src) w w n"
    using copy_rows_strided[of n s w src ls 0 dst] assms by auto
  then show ?thesis using False assms by (auto simp: copy_plane_def plane_def)
qed

section \<open>Draining\<close>








section \<open>A concrete decoder\<close>


definition sample_dec :: DecodeContext where
  "sample_dec = \<lparr>dec_codec_id = AV_CODEC_ID_H264, coded_width = 2, coded_height = 2,
     pix_fmt = AV_PIX_FMT_YUV420P, pkt_timebase = \<lparr>num = 1, den = 90000\<rparr>\<rparr>"

text \<open>A context as \<open>avcodec_open2\<close> hands it to \<open>init\<close>, and one with a queue of \<open>n\<close> frames.\<close>

definition dec_fresh :: TfvidContext where
  "dec_fresh = \<lparr>dec_handle = False, has_key_frame = False, prev_pts = 0, decoder_flushing = False,
     nb_outbuffers = 20, input_queue_capacity = 0, frame_queue = None, codec_type = DECODER_H264,
     dec_closed = False, eos_sent = False, eos_received = False, crop_expr = None, resize_expr = None,
     crop = [0, 0, 0, 0], resize = [0, 0], enqueued = [], returned = 0\<rparr>"

definition zero_frame :: TfvidParsedFrame where
  "zero_frame = \<lparr>pf_data = [], pf_len = 0, timestamp = 0, iskey = False\<rparr>"

definition sample_queue :: "nat \<Rightarrow> TfvidContext" where
  "sample_queue n = dec_fresh\<lparr>dec_handle := True, nb_outbuffers := n,
     frame_queue := Some \<lparr>buffer = replicate (n * sizeof_frame) (zero_frame, 0), rptr = 0, wptr = 0, rndx = 0, wndx = 0\<rparr>\<rparr>"

lemma sample_queue_frames: "0 < n \<Longrightarrow> n * sizeof_frame \<le> max_alloc_size \<Longrightarrow> frames_in (sample_queue n) []"
  by (auto simp: frames_in_def sample_queue_def fifo_ok_def contents_def fifo_used_def sizeof_frame_def)

definition sample_sys :: "nat \<Rightarrow> dec_sys" where
  "sample_sys n = \<lparr>vctx = sample_queue n, waiting = None, pc = Idle\<rparr>"

lemma sample_opened: "dec_opened (sample_sys 2)"
  using sample_queue_frames[of 2]
  by (simp add: dec_opened_def sample_sys_def max_alloc_size_def sizeof_frame_def) (simp add: sample_queue_def dec_fresh_def)

section \<open>Properties\<close>







text \<open>C13: \<open>tfvid_flush\<close> starts the stream afresh: an empty queue, no end of stream sent or received, not
  flushing. But a callback that was waiting for room then puts its frame, from before the
  flush, first into the new queue.\<close>

theorem decoder_flush_restarts:
  assumes "frames_in ctx fs" "\<not> dec_closed ctx" "malloc_ok malloc"
    and "av_fifo_alloc malloc ok (nb_outbuffers ctx * sizeof_frame) \<noteq> None"
  shows "\<exists>c c'. tfvid_flush create malloc ok avctx ctx = Some c \<and>
     frames_in c [] \<and> \<not> eos_sent c \<and> \<not> eos_received c \<and> \<not> decoder_flushing c \<and>
     callback_loop True stale c = Some (c', None) \<and> frames_in c' [stale]"
proof -
  obtain q where q: "free_frames ctx = Some (ctx\<lparr>frame_queue := q\<rparr>)" using free_frames_frames[OF assms(1)] by blast
  obtain q2 where q2: "av_fifo_alloc malloc ok (nb_outbuffers ctx * sizeof_frame) = Some q2" using assms(4) by blast
  have nb: "0 < nb_outbuffers ctx" using assms(1) by (simp add: frames_in_def)
  have f2: "frames_in (ctx\<lparr>frame_queue := Some q2\<rparr>) []" by (rule alloc_frames[OF assms(3) nb q2])
  define c where "c = ctx\<lparr>frame_queue := Some q2, eos_sent := False, eos_received := False,
     dec_handle := create (codec_type ctx) (probed (coded_width avctx) 1280) (probed (coded_height avctx) 720),
     prev_pts := INT64_MIN, decoder_flushing := False\<rparr>"
  have c: "tfvid_flush create malloc ok avctx ctx = Some c"
    by (simp add: tfvid_flush_def q q2 Let_def c_def)
  have fc: "frames_in c []" "\<not> dec_closed c" "nb_outbuffers c = nb_outbuffers ctx"
    using f2 assms(2) by (auto simp: c_def frames_in_def)
  obtain c' where "callback_loop True stale c = Some (c', None)" "frames_in c' [stale]"
    using callback_loop_frames[OF fc(1,2), of True stale] fc(3) nb by auto
  then show ?thesis using c fc by (auto simp: c_def)
qed

theorem decoder_flush_restarts_witness:
  "\<exists>c c'. tfvid_flush (\<lambda>_ _ _. True) (\<lambda>n. Some (replicate n (zero_frame, 0))) True sample_dec (sample_queue 2) = Some c \<and>
     callback_loop True (parsed_frame [7] 5 0) c = Some (c', None) \<and> frames_in c' [parsed_frame [7] 5 0]"
proof -
  have "frames_in (sample_queue 2) []" "\<not> dec_closed (sample_queue 2)"
    using sample_opened by (simp_all add: dec_opened_def sample_sys_def)
  from decoder_flush_restarts[OF this, of "\<lambda>n. Some (replicate n (zero_frame, 0))" True] show ?thesis
    by (simp add: malloc_ok_def av_fifo_alloc_def av_malloc_def fifo_alloc_common_def max_alloc_size_def
        sizeof_frame_def sample_queue_def dec_fresh_def) blast
qed



text \<open>C10: The picture a decoder buffer holds (packed I420) arrives in the frame: each row of each plane, at the
  frame's strides, if the buffer holds a whole picture. The copy goes by the frame's size and
  not by \<open>parsed_frame.len\<close>, so from a buffer shorter than the luma plane it reads past the end.\<close>

theorem decoder_copies_picture:
  assumes "data f = [Some y, Some u, Some v]" "linesize f = [ly, lu, lv]"
    and "width f \<le> ly" "width f div 2 \<le> lu" "width f div 2 \<le> lv"
    and "height f * ly \<le> length y" "height f div 2 * lu \<le> length u" "height f div 2 * lv \<le> length v"
  shows "(let w = width f; h = height f; src = pf_data pf; cw = w div 2; ch = h div 2 in
     (h * w + 2 * (ch * cw) \<le> length src \<longrightarrow>
       (\<exists>y' u' v'. copy_i420 pf f = Some (f\<lparr>data := [Some y', Some u', Some v']\<rparr>) \<and>
          rows y' ly w h = rows src w w h \<and>
          rows u' lu cw ch = rows (drop (h * w) src) cw cw ch \<and>
          rows v' lv cw ch = rows (drop (h * w + ch * cw) src) cw cw ch)) \<and>
     (0 < w \<and> length src < h * w \<longrightarrow> copy_i420 pf f = None))"
proof -
  let ?w = "width f" and ?h = "height f" and ?src = "pf_data pf"
  have whole: "\<exists>y' u' v'. copy_i420 pf f = Some (f\<lparr>data := [Some y', Some u', Some v']\<rparr>) \<and>
          rows y' ly ?w ?h = rows ?src ?w ?w ?h \<and>
          rows u' lu (?w div 2) (?h div 2) = rows (drop (?h * ?w) ?src) (?w div 2) (?w div 2) (?h div 2) \<and>
          rows v' lv (?w div 2) (?h div 2) = rows (drop (?h * ?w + ?h div 2 * (?w div 2)) ?src) (?w div 2) (?w div 2) (?h div 2)"
    if l: "?h * ?w + 2 * (?h div 2 * (?w div 2)) \<le> length ?src"
  proof -
    obtain y' where y': "copy_plane f 0 ?src 0 ?w ?h = Some (f\<lparr>data := [Some y', Some u, Some v]\<rparr>)"
      "rows y' ly ?w ?h = rows ?src ?w ?w ?h"
      using copy_plane_rows[of 0 f y ly ?w ?h 0 ?src] assms l by (auto simp: stride_def)
    let ?f1 = "f\<lparr>data := [Some y', Some u, Some v]\<rparr>"
    obtain u' where u': "copy_plane ?f1 1 ?src (?h * ?w) (?w div 2) (?h div 2) = Some (f\<lparr>data := [Some y', Some u', Some v]\<rparr>)"
      "rows u' lu (?w div 2) (?h div 2) = rows (drop (?h * ?w) ?src) (?w div 2) (?w div 2) (?h div 2)"
      using copy_plane_rows[of 1 ?f1 u lu "?w div 2" "?h div 2" "?h * ?w" ?src] assms l by (auto simp: stride_def)
    let ?f2 = "f\<lparr>data := [Some y', Some u', Some v]\<rparr>"
    obtain v' where v': "copy_plane ?f2 2 ?src (?h * ?w + ?h div 2 * (?w div 2)) (?w div 2) (?h div 2) =
        Some (f\<lparr>data := [Some y', Some u', Some v']\<rparr>)"
      "rows v' lv (?w div 2) (?h div 2) = rows (drop (?h * ?w + ?h div 2 * (?w div 2)) ?src) (?w div 2) (?w div 2) (?h div 2)"
      using copy_plane_rows[of 2 ?f2 v lv "?w div 2" "?h div 2" "?h * ?w + ?h div 2 * (?w div 2)" ?src] assms l
      by (auto simp: stride_def)
    show ?thesis
      using y' u' v' by (intro exI[of _ y'] exI[of _ u'] exI[of _ v']) (simp add: copy_i420_def Let_def)
  qed
  have "copy_i420 pf f = None" if s: "0 < ?w" "length ?src < ?h * ?w"
  proof -
    have h: "0 < ?h" using s by (cases ?h) auto
    then have "(?h - 1) * ?w + ?w = ?h * ?w" by (cases ?h) auto
    then have "copy_rows y 0 ly ?src 0 ?w ?w ?h = None"
      using copy_rows_short[of ?h ?w ?src 0 ?w y 0 ly] s h by simp
    then have "copy_plane f 0 ?src 0 ?w ?h = None"
      using h assms(1,2) by (simp add: copy_plane_def plane_def stride_def)
    then show ?thesis by (simp add: copy_i420_def Let_def)
  qed
  then show ?thesis using whole by (simp add: Let_def)
qed

definition sample_picture :: AVFrame where
  "sample_picture = \<lparr>format = AV_PIX_FMT_YUV420P, width = 2, height = 2,
     data = [Some (replicate 8 0), Some (replicate 4 0), Some (replicate 4 0)], linesize = [4, 4, 4],
     pts = 0, key_frame = False\<rparr>"

theorem decoder_copies_picture_witness:
  "\<exists>y' u' v'. copy_i420 (parsed_frame [1, 2, 3, 4, 5, 6] 0 0) sample_picture =
       Some (sample_picture\<lparr>data := [Some y', Some u', Some v']\<rparr>) \<and>
     rows y' 4 2 2 = [[1, 2], [3, 4]] \<and> rows u' 4 1 1 = [[5]] \<and> rows v' 4 1 1 = [[6]]"
proof -
  let ?src = "[1, 2, 3, 4, 5, 6] :: u8 list"
  have u: "[0..<2] = [0, 1]" "[0..<1] = [0]" by (simp_all add: upt_conv_Cons)
  have r: "rows ?src 2 2 2 = [[1, 2], [3, 4]]" "rows [5, 6 :: u8] (Suc 0) (Suc 0) (Suc 0) = [[5]]"
    "rows [6 :: u8] (Suc 0) (Suc 0) (Suc 0) = [[6]]"
    by (simp_all add: rows_def u)
  show ?thesis
    using decoder_copies_picture[of sample_picture "replicate 8 0" "replicate 4 0" "replicate 4 0" 4 4 4
        "parsed_frame ?src 0 0"]
    by (simp add: sample_picture_def parsed_frame_def Let_def r)
qed

text \<open>A timestamp goes to the decoder in units of 100 ns and comes back unchanged, for every time base with
  ticks longer than that: the two roundings cancel.\<close>

theorem decoder_timestamp_roundtrip:
  assumes "0 \<le> t" "pkt_timebase avctx = tb" "0 < num tb" "num tb \<le> INT_MAX" "0 < den tb" "den tb \<le> INT_MAX"
    and "den tb < num tb * 10000000" "2 * (t * (num tb * 10000000)) + den tb \<le> 2 * den tb * INT64_MAX"
  shows "frame_pts avctx (nat (u64_of (packet_timestamp avctx t))) = t"
proof -
  let ?b = "num tb * 10000000" and ?c = "den tb"
  define x where "x = (2 * (t * ?b) + ?c) div (2 * ?c)"
  have "(2 * (t * ?b) + ?c) div (2 * ?c) \<le> (2 * ?c * INT64_MAX) div (2 * ?c)"
    using assms(5,8) by (intro zdiv_mono1) auto
  then have x: "0 \<le> x" "x \<le> INT64_MAX"
    using assms(1,3,5) by (auto simp: x_def pos_imp_zdiv_nonneg_iff)
  have rt: "(2 * (x * ?c) + ?b) div (2 * ?b) = t"
    using nearest_roundtrip[of t ?c ?b] assms by (simp add: x_def)
  have "t * 1 \<le> t * ?b" using assms(1,3) by (intro mult_left_mono) auto
  moreover have "t * ?c \<le> t * ?b" using assms(1,7) by (intro mult_left_mono) auto
  ultimately have "2 * (t * ?c) \<le> 2 * ?c * INT64_MAX" using assms(5,8) by linarith
  then have "?c * t \<le> ?c * INT64_MAX" by (simp add: ac_simps)
  then have t: "t \<le> INT64_MAX" using assms(5) by (simp only: mult_le_cancel_left_pos)
  have 1: "packet_timestamp avctx t = x"
    using rescale_q_nearest[of t tb tfdec_tb] assms(1-6) t x
    by (simp add: packet_timestamp_def AV_NOPTS_VALUE_def tfdec_tb_def x_def)
  have 2: "s64 (int (nat (u64_of x))) = x" using x by (simp add: s64_id in_s64_def u64_of_id)
  have "av_rescale_q x tfdec_tb tb = t"
    using rescale_q_nearest[of x tfdec_tb tb] assms(3-6) x rt t
    by (simp add: tfdec_tb_def mult.commute)
  then show ?thesis
    using assms(2,3,5) unfolding frame_pts_def 1 2 by simp
qed

theorem decoder_timestamp_roundtrip_witness:
  "frame_pts sample_dec (nat (u64_of (packet_timestamp sample_dec 123457))) = 123457"
  by (rule decoder_timestamp_roundtrip[of _ _ "\<lparr>num = 1, den = 90000\<rparr>"]) (simp_all add: sample_dec_def)

end
