(* ===== verification/Bytes.thy ===== *)
theory Bytes
  imports Prelude
begin

text \<open>
  Multi-byte accesses (libavutil/intreadwrite.h) on lists of bytes: \<open>AV_RB32\<close>, \<open>AV_WB32\<close> and their
  little-endian and 64-bit relatives, with the round trips the ciphers, the hashes and base64
  rest on, and byte-wise exclusive or.
\<close>

section \<open>Definitions\<close>

definition AV_RB32 :: "u8 list \<Rightarrow> u32" where
  "AV_RB32 b = push_bit 24 (ucast (b ! 0)) OR push_bit 16 (ucast (b ! 1)) OR
     push_bit 8 (ucast (b ! 2)) OR ucast (b ! 3)"

definition AV_RL32 :: "u8 list \<Rightarrow> u32" where
  "AV_RL32 b = push_bit 24 (ucast (b ! 3)) OR push_bit 16 (ucast (b ! 2)) OR
     push_bit 8 (ucast (b ! 1)) OR ucast (b ! 0)"

definition AV_WB32 :: "u32 \<Rightarrow> u8 list" where
  "AV_WB32 d = [ucast (drop_bit 24 d), ucast (drop_bit 16 d), ucast (drop_bit 8 d), ucast d]"

definition AV_WL32 :: "u32 \<Rightarrow> u8 list" where
  "AV_WL32 d = [ucast d, ucast (drop_bit 8 d), ucast (drop_bit 16 d), ucast (drop_bit 24 d)]"

definition AV_RB64 :: "u8 list \<Rightarrow> u64" where
  "AV_RB64 b = push_bit 32 (ucast (AV_RB32 b)) OR ucast (AV_RB32 (drop 4 b))"

definition AV_RL64 :: "u8 list \<Rightarrow> u64" where
  "AV_RL64 b = push_bit 32 (ucast (AV_RL32 (drop 4 b))) OR ucast (AV_RL32 b)"

definition AV_WB64 :: "u64 \<Rightarrow> u8 list" where
  "AV_WB64 d = AV_WB32 (ucast (drop_bit 32 d)) @ AV_WB32 (ucast d)"

definition AV_WL64 :: "u64 \<Rightarrow> u8 list" where
  "AV_WL64 d = AV_WL32 (ucast d) @ AV_WL32 (ucast (drop_bit 32 d))"

definition xor_bytes :: "u8 list \<Rightarrow> u8 list \<Rightarrow> u8 list" where
  "xor_bytes a b = map2 (XOR) a b"

section \<open>Lengths\<close>

lemma length_AV_W [simp]:
  "length (AV_WB32 d) = 4" "length (AV_WL32 d) = 4" "length (AV_WB64 e) = 8" "length (AV_WL64 e) = 8"
  by (simp_all add: AV_WB32_def AV_WL32_def AV_WB64_def AV_WL64_def)

lemma length_xor_bytes [simp]: "length (xor_bytes a b) = min (length a) (length b)"
  by (simp add: xor_bytes_def)

lemma xor_bytes_append:
  "length a = length c \<Longrightarrow> xor_bytes (a @ b) (c @ d) = xor_bytes a c @ xor_bytes b d"
  by (simp add: xor_bytes_def)

lemma xor_bytes_cancel [simp]: "length a = length b \<Longrightarrow> xor_bytes (xor_bytes a b) b = a"
  by (induction a b rule: list_induct2) (auto simp: xor_bytes_def xor.assoc)

section \<open>Round trips\<close>

lemma length_4E: "length b = 4 \<Longrightarrow> (\<And>p q r s. b = [p, q, r, s] \<Longrightarrow> P) \<Longrightarrow> P"
  by (auto simp: eval_nat_numeral length_Suc_conv)

lemma RB32_WB32_append [simp]: "AV_RB32 (AV_WB32 d @ bs) = d"
proof (rule bit_word_eqI)
  fix n :: nat
  assume n: "n < LENGTH(32)"
  then consider "n < 8" | "8 \<le> n" "n < 16" | "16 \<le> n" "n < 24" | "24 \<le> n" "n < 32" by fastforce
  then show "bit (AV_RB32 (AV_WB32 d @ bs)) n = bit d n"
    by cases (auto simp: AV_RB32_def AV_WB32_def bit_simps nth_append)
qed

lemma RB32_WB32 [simp]: "AV_RB32 (AV_WB32 d) = d"
  using RB32_WB32_append[of d "[]"] by (simp del: RB32_WB32_append)

lemma RL32_WL32_append [simp]: "AV_RL32 (AV_WL32 d @ bs) = d"
proof (rule bit_word_eqI)
  fix n :: nat
  assume n: "n < LENGTH(32)"
  then consider "n < 8" | "8 \<le> n" "n < 16" | "16 \<le> n" "n < 24" | "24 \<le> n" "n < 32" by fastforce
  then show "bit (AV_RL32 (AV_WL32 d @ bs)) n = bit d n"
    by cases (auto simp: AV_RL32_def AV_WL32_def bit_simps nth_append)
qed

lemma RL32_WL32 [simp]: "AV_RL32 (AV_WL32 d) = d"
  using RL32_WL32_append[of d "[]"] by (simp del: RL32_WL32_append)

lemma byte_lt: "bit (w :: u8) n \<Longrightarrow> n < 8"
  using bit_imp_le_length[of w n] by simp

lemma word_lt: "bit (w :: u32) n \<Longrightarrow> n < 32"
  using bit_imp_le_length[of w n] by simp

lemma byte_bits: "8 \<le> n \<Longrightarrow> bit (w :: u8) n = False"
  using bit_imp_le_length[of w n] by auto

lemma WB32_RB32 [simp]: "length b = 4 \<Longrightarrow> AV_WB32 (AV_RB32 b) = b"
  by (elim length_4E) (auto simp: AV_RB32_def AV_WB32_def bit_simps byte_bits intro!: bit_word_eqI)

lemma WL32_RL32 [simp]: "length b = 4 \<Longrightarrow> AV_WL32 (AV_RL32 b) = b"
  by (elim length_4E) (auto simp: AV_RL32_def AV_WL32_def bit_simps byte_bits intro!: bit_word_eqI)

lemma AV_RB32_append [simp]: "4 \<le> length b \<Longrightarrow> AV_RB32 (b @ c) = AV_RB32 b"
  by (cases b) (auto simp: AV_RB32_def nth_append)

lemma AV_RL32_append [simp]: "4 \<le> length b \<Longrightarrow> AV_RL32 (b @ c) = AV_RL32 b"
  by (cases b) (auto simp: AV_RL32_def nth_append)

lemma AV_RB32_take [simp]: "4 \<le> n \<Longrightarrow> AV_RB32 (take n b) = AV_RB32 b"
  by (simp add: AV_RB32_def)

lemma AV_RL32_take [simp]: "4 \<le> n \<Longrightarrow> AV_RL32 (take n b) = AV_RL32 b"
  by (simp add: AV_RL32_def)

lemma WB32_RB32_take [simp]: "4 \<le> length b \<Longrightarrow> AV_WB32 (AV_RB32 b) = take 4 b"
  using WB32_RB32[of "take 4 b"] by simp

lemma WL32_RL32_take [simp]: "4 \<le> length b \<Longrightarrow> AV_WL32 (AV_RL32 b) = take 4 b"
  using WL32_RL32[of "take 4 b"] by simp

lemma WB32_xor: "AV_WB32 (x XOR y) = xor_bytes (AV_WB32 x) (AV_WB32 y)"
  by (auto simp: AV_WB32_def xor_bytes_def bit_simps intro!: bit_word_eqI)

lemma WL32_xor: "AV_WL32 (x XOR y) = xor_bytes (AV_WL32 x) (AV_WL32 y)"
  by (auto simp: AV_WL32_def xor_bytes_def bit_simps intro!: bit_word_eqI)

text \<open>A block of eight bytes as two words.\<close>

lemma WB32_pair [simp]: "length b = 8 \<Longrightarrow> AV_WB32 (AV_RB32 b) @ AV_WB32 (AV_RB32 (drop 4 b)) = b"
  using WB32_RB32[of "take 4 b"] WB32_RB32[of "drop 4 b"] append_take_drop_id[of 4 b] by simp

lemma WL32_pair [simp]: "length b = 8 \<Longrightarrow> AV_WL32 (AV_RL32 b) @ AV_WL32 (AV_RL32 (drop 4 b)) = b"
  using WL32_RL32[of "take 4 b"] WL32_RL32[of "drop 4 b"] append_take_drop_id[of 4 b] by simp

text \<open>And as one word of 64 bits.\<close>

lemma RB64_WB64 [simp]: "AV_RB64 (AV_WB64 d) = d"
  by (rule bit_word_eqI) (auto simp: AV_RB64_def AV_WB64_def bit_simps)

lemma RB64_parts:
  "ucast (drop_bit 32 (AV_RB64 b)) = AV_RB32 b" "ucast (AV_RB64 b) = AV_RB32 (drop 4 b)"
proof -
  have z: "\<not> bit (w :: u32) (32 + n)" for w n
    using bit_imp_le_length[of w "32 + n"] by auto
  show "ucast (drop_bit 32 (AV_RB64 b)) = AV_RB32 b" "ucast (AV_RB64 b) = AV_RB32 (drop 4 b)"
    by (rule bit_word_eqI; auto simp: AV_RB64_def bit_simps z)+
qed

lemma WB64_RB64 [simp]: "length b = 8 \<Longrightarrow> AV_WB64 (AV_RB64 b) = b"
  by (simp add: AV_WB64_def RB64_parts)

lemma WB64_xor: "length v = 8 \<Longrightarrow> AV_WB64 (x XOR AV_RB64 v) = xor_bytes (AV_WB64 x) v"
proof -
  assume v: "length v = 8"
  have "AV_WB64 (x XOR y) = xor_bytes (AV_WB64 x) (AV_WB64 y)" for y
  proof -
    have "ucast (drop_bit 32 (x XOR y)) = (ucast (drop_bit 32 x) XOR ucast (drop_bit 32 y) :: u32)"
      "ucast (x XOR y) = (ucast x XOR ucast y :: u32)"
      by (rule bit_word_eqI; simp add: bit_simps)+
    then show ?thesis by (simp only: AV_WB64_def xor_bytes_append length_AV_W WB32_xor)
  qed
  then show ?thesis using v by simp
qed

lemma RB64_xor:
  assumes "length a = 8" "length b = 8"
  shows "AV_RB64 (xor_bytes a b) = AV_RB64 a XOR AV_RB64 b"
proof -
  have "AV_WB64 (AV_RB64 a XOR AV_RB64 b) = xor_bytes a b"
    using assms by (simp add: WB64_xor)
  then show ?thesis using RB64_WB64 by metis
qed

end
