(* ===== verification/Ciphers.thy ===== *)
theory Ciphers
  imports Bytes
begin

text \<open>
  The interface between a block cipher and its modes of operation. Every block cipher of
  libavutil comes with a function that en- or decrypts \<open>count\<close> blocks, chained through \<open>iv\<close> (CBC)
  if it is not null; its loop is the same in each file and is given here once, over the cipher's
  one-block function. The locale states what a one-block function has to do, and proves that
  decryption undoes encryption for any number of blocks, with and without chaining.
\<close>

text \<open>
  One-block functions take the block, the direction and the initialisation vector (\<open>None\<close> for
  null) and return the block written to \<open>dst\<close> and the vector afterwards. The loop reads a block,
  writes a block and steps both pointers, so \<open>dst\<close> may be \<open>src\<close>; \<open>None\<close> is a read past \<open>src\<close>.
\<close>

fun crypt_loop ::
    "nat \<Rightarrow> (u8 list \<Rightarrow> bool \<Rightarrow> u8 list option \<Rightarrow> u8 list \<times> u8 list option) \<Rightarrow> nat \<Rightarrow> u8 list
       \<Rightarrow> u8 list option \<Rightarrow> bool \<Rightarrow> (u8 list \<times> u8 list option) option" where
  "crypt_loop bs crypt 0 src iv decrypt = Some ([], iv)"
| "crypt_loop bs crypt (Suc count) src iv decrypt =
     Option.bind (load src 0 bs) (\<lambda>block.
       (let (dst, iv') =
              (if decrypt then crypt block True iv
               else (case iv of
                       Some v \<Rightarrow> (let d = fst (crypt (xor_bytes block v) False None) in (d, Some d))
                     | None \<Rightarrow> (fst (crypt block False None), None)))
        in Option.bind (crypt_loop bs crypt count (drop bs src) iv' decrypt) (\<lambda>(rest, iv'').
             Some (dst @ rest, iv''))))"

locale block_cipher =
  fixes bs :: nat
    and crypt :: "u8 list \<Rightarrow> bool \<Rightarrow> u8 list option \<Rightarrow> u8 list \<times> u8 list option"
  assumes enc_length: "length b = bs \<Longrightarrow> length (fst (crypt b False None)) = bs"
    and dec_enc: "length b = bs \<Longrightarrow> fst (crypt (fst (crypt b False None)) True None) = b"
    and dec_null: "length b = bs \<Longrightarrow> snd (crypt b True None) = None"
    and dec_iv: "length b = bs \<Longrightarrow> length v = bs \<Longrightarrow>
      crypt b True (Some v) = (xor_bytes (fst (crypt b True None)) v, Some b)"
begin

lemma roundtrip:
  assumes "length src = n * bs" "\<And>v. iv = Some v \<Longrightarrow> length v = bs"
  shows "\<exists>dst iv'. crypt_loop bs crypt n src iv False = Some (dst, iv') \<and> length dst = n * bs \<and>
     crypt_loop bs crypt n dst iv True = Some (src, iv')"
  using assms
proof (induction n arbitrary: src iv)
  case 0
  then show ?case by simp
next
  case (Suc n)
  let ?b = "take bs src" and ?rest = "drop bs src"
  have l: "length ?b = bs" "length ?rest = n * bs" and ld: "load src 0 bs = Some ?b"
    using Suc.prems by (auto simp: load_def)
  define x where "x = (case iv of None \<Rightarrow> ?b | Some v \<Rightarrow> xor_bytes ?b v)"
  define c where "c = fst (crypt x False None)"
  define iv1 where "iv1 = (case iv of None \<Rightarrow> None | Some v \<Rightarrow> Some c)"
  have lx: "length x = bs" using l Suc.prems(2) by (auto simp: x_def split: option.splits)
  have lc: "length c = bs" unfolding c_def by (rule enc_length[OF lx])
  have iv1: "length v = bs" if "iv1 = Some v" for v
    using that lc by (auto simp: iv1_def split: option.splits)
  obtain dst iv' where IH: "crypt_loop bs crypt n ?rest iv1 False = Some (dst, iv')" "length dst = n * bs"
     "crypt_loop bs crypt n dst iv1 True = Some (?rest, iv')"
    using Suc.IH[OF l(2) iv1] by blast
  have e: "crypt_loop bs crypt (Suc n) src iv False = Some (c @ dst, iv')"
    using IH(1) by (cases iv) (simp_all add: ld x_def c_def iv1_def Let_def)
  have "crypt c True iv = (?b, iv1)"
  proof (cases iv)
    case None
    then show ?thesis using dec_enc[OF lx] dec_null[OF lc] by (simp add: x_def c_def iv1_def prod_eq_iff)
  next
    case (Some v)
    then have "crypt c True iv = (xor_bytes x v, iv1)"
      using dec_iv[OF lc, of v] dec_enc[OF lx] Suc.prems(2) by (simp add: c_def iv1_def)
    then show ?thesis using Some l Suc.prems(2) by (simp add: x_def)
  qed
  moreover have "load (c @ dst) 0 bs = Some c" using lc by (simp add: load_def)
  ultimately have "crypt_loop bs crypt (Suc n) (c @ dst) iv True = Some (?b @ ?rest, iv')"
    using IH(3) lc by simp
  then show ?case using e lc IH(2) by auto
qed

end

section \<open>Ciphers on two 32-bit words\<close>

text \<open>The end of a one-block function on a pair of words: chaining after decryption, and the output,
  big-endian and little-endian.\<close>

definition finish_be :: "u8 list \<Rightarrow> bool \<Rightarrow> u8 list option \<Rightarrow> u32 \<times> u32 \<Rightarrow> u8 list \<times> u8 list option" where
  "finish_be src decrypt iv = (\<lambda>(v0, v1).
     (case iv of
        Some v \<Rightarrow>
          if decrypt then (AV_WB32 (v0 XOR AV_RB32 v) @ AV_WB32 (v1 XOR AV_RB32 (drop 4 v)), Some src)
          else (AV_WB32 v0 @ AV_WB32 v1, iv)
      | None \<Rightarrow> (AV_WB32 v0 @ AV_WB32 v1, None)))"

definition finish_le :: "u8 list \<Rightarrow> bool \<Rightarrow> u8 list option \<Rightarrow> u32 \<times> u32 \<Rightarrow> u8 list \<times> u8 list option" where
  "finish_le src decrypt iv = (\<lambda>(v0, v1).
     (case iv of
        Some v \<Rightarrow>
          if decrypt then (AV_WL32 (v0 XOR AV_RL32 v) @ AV_WL32 (v1 XOR AV_RL32 (drop 4 v)), Some src)
          else (AV_WL32 v0 @ AV_WL32 v1, iv)
      | None \<Rightarrow> (AV_WL32 v0 @ AV_WL32 v1, None)))"

text \<open>A permutation of pairs of words with its inverse is a block cipher in either byte order.\<close>

locale pair_cipher =
  fixes E D :: "u32 \<times> u32 \<Rightarrow> u32 \<times> u32"
  assumes inverse: "D (E v) = v"

lemma chain_be:
  assumes "length v = 8"
  shows "AV_WB32 (x XOR AV_RB32 v) @ AV_WB32 (y XOR AV_RB32 (drop 4 v)) = xor_bytes (AV_WB32 x @ AV_WB32 y) v"
proof -
  have "xor_bytes (AV_WB32 x @ AV_WB32 y) v =
      xor_bytes (AV_WB32 x @ AV_WB32 y) (AV_WB32 (AV_RB32 v) @ AV_WB32 (AV_RB32 (drop 4 v)))"
    using assms by (simp only: WB32_pair)
  then show ?thesis by (simp only: xor_bytes_append length_AV_W WB32_xor)
qed

lemma chain_le:
  assumes "length v = 8"
  shows "AV_WL32 (x XOR AV_RL32 v) @ AV_WL32 (y XOR AV_RL32 (drop 4 v)) = xor_bytes (AV_WL32 x @ AV_WL32 y) v"
proof -
  have "xor_bytes (AV_WL32 x @ AV_WL32 y) v =
      xor_bytes (AV_WL32 x @ AV_WL32 y) (AV_WL32 (AV_RL32 v) @ AV_WL32 (AV_RL32 (drop 4 v)))"
    using assms by (simp only: WL32_pair)
  then show ?thesis by (simp only: xor_bytes_append length_AV_W WL32_xor)
qed

context pair_cipher begin

lemma inverse_pair: "E v = (x, y) \<Longrightarrow> D (x, y) = v"
  using inverse[of v] by simp

end

sublocale pair_cipher \<subseteq> be: block_cipher 8
  "\<lambda>src decrypt iv. finish_be src decrypt iv ((if decrypt then D else E) (AV_RB32 src, AV_RB32 (drop 4 src)))"
  by unfold_locales (auto simp: finish_be_def chain_be dest!: inverse_pair split: prod.splits)

sublocale pair_cipher \<subseteq> le: block_cipher 8
  "\<lambda>src decrypt iv. finish_le src decrypt iv ((if decrypt then D else E) (AV_RL32 src, AV_RL32 (drop 4 src)))"
  by unfold_locales (auto simp: finish_le_def chain_le dest!: inverse_pair split: prod.splits)

section \<open>Rounds and their inverses\<close>

lemma funpow_inverse:
  fixes f g :: "'s \<Rightarrow> 's"
  assumes "\<And>s. g (f s) = s"
  shows "(g ^^ n) ((f ^^ n) s) = s"
proof (induction n)
  case (Suc n)
  have "(g ^^ Suc n) ((f ^^ Suc n) s) = (g ^^ n) (g (f ((f ^^ n) s)))" by (simp add: funpow_swap1)
  then show ?case using Suc assms by simp
qed simp

lemma fold_inverse:
  "(\<And>x s. g x (f x s) = s) \<Longrightarrow> fold g (rev xs) (fold f xs s) = s"
  by (induction xs arbitrary: s) auto

end
