(* ===== verification/Twofish.thy ===== *)
theory Twofish
  imports Ciphers
begin

text \<open>
  libavutil/twofish.c: the key schedule with its tables, the two one-block functions and the loop
  over blocks. A block is four 32-bit words \<open>P\<close>; a cycle of the code's loop is two rounds.
\<close>

section \<open>Tables\<close>

definition MD1 :: "u8 list" where
  "MD1 =
    [0x00, 0x5b, 0xb6, 0xed, 0x05, 0x5e, 0xb3, 0xe8, 0x0a, 0x51, 0xbc, 0xe7, 0x0f, 0x54, 0xb9, 0xe2,
     0x14, 0x4f, 0xa2, 0xf9, 0x11, 0x4a, 0xa7, 0xfc, 0x1e, 0x45, 0xa8, 0xf3, 0x1b, 0x40, 0xad, 0xf6,
     0x28, 0x73, 0x9e, 0xc5, 0x2d, 0x76, 0x9b, 0xc0, 0x22, 0x79, 0x94, 0xcf, 0x27, 0x7c, 0x91, 0xca,
     0x3c, 0x67, 0x8a, 0xd1, 0x39, 0x62, 0x8f, 0xd4, 0x36, 0x6d, 0x80, 0xdb, 0x33, 0x68, 0x85, 0xde,
     0x50, 0x0b, 0xe6, 0xbd, 0x55, 0x0e, 0xe3, 0xb8, 0x5a, 0x01, 0xec, 0xb7, 0x5f, 0x04, 0xe9, 0xb2,
     0x44, 0x1f, 0xf2, 0xa9, 0x41, 0x1a, 0xf7, 0xac, 0x4e, 0x15, 0xf8, 0xa3, 0x4b, 0x10, 0xfd, 0xa6,
     0x78, 0x23, 0xce, 0x95, 0x7d, 0x26, 0xcb, 0x90, 0x72, 0x29, 0xc4, 0x9f, 0x77, 0x2c, 0xc1, 0x9a,
     0x6c, 0x37, 0xda, 0x81, 0x69, 0x32, 0xdf, 0x84, 0x66, 0x3d, 0xd0, 0x8b, 0x63, 0x38, 0xd5, 0x8e,
     0xa0, 0xfb, 0x16, 0x4d, 0xa5, 0xfe, 0x13, 0x48, 0xaa, 0xf1, 0x1c, 0x47, 0xaf, 0xf4, 0x19, 0x42,
     0xb4, 0xef, 0x02, 0x59, 0xb1, 0xea, 0x07, 0x5c, 0xbe, 0xe5, 0x08, 0x53, 0xbb, 0xe0, 0x0d, 0x56,
     0x88, 0xd3, 0x3e, 0x65, 0x8d, 0xd6, 0x3b, 0x60, 0x82, 0xd9, 0x34, 0x6f, 0x87, 0xdc, 0x31, 0x6a,
     0x9c, 0xc7, 0x2a, 0x71, 0x99, 0xc2, 0x2f, 0x74, 0x96, 0xcd, 0x20, 0x7b, 0x93, 0xc8, 0x25, 0x7e,
     0xf0, 0xab, 0x46, 0x1d, 0xf5, 0xae, 0x43, 0x18, 0xfa, 0xa1, 0x4c, 0x17, 0xff, 0xa4, 0x49, 0x12,
     0xe4, 0xbf, 0x52, 0x09, 0xe1, 0xba, 0x57, 0x0c, 0xee, 0xb5, 0x58, 0x03, 0xeb, 0xb0, 0x5d, 0x06,
     0xd8, 0x83, 0x6e, 0x35, 0xdd, 0x86, 0x6b, 0x30, 0xd2, 0x89, 0x64, 0x3f, 0xd7, 0x8c, 0x61, 0x3a,
     0xcc, 0x97, 0x7a, 0x21, 0xc9, 0x92, 0x7f, 0x24, 0xc6, 0x9d, 0x70, 0x2b, 0xc3, 0x98, 0x75, 0x2e]"

definition MD2 :: "u8 list" where
  "MD2 =
    [0x00, 0xef, 0xb7, 0x58, 0x07, 0xe8, 0xb0, 0x5f, 0x0e, 0xe1, 0xb9, 0x56, 0x09, 0xe6, 0xbe, 0x51,
     0x1c, 0xf3, 0xab, 0x44, 0x1b, 0xf4, 0xac, 0x43, 0x12, 0xfd, 0xa5, 0x4a, 0x15, 0xfa, 0xa2, 0x4d,
     0x38, 0xd7, 0x8f, 0x60, 0x3f, 0xd0, 0x88, 0x67, 0x36, 0xd9, 0x81, 0x6e, 0x31, 0xde, 0x86, 0x69,
     0x24, 0xcb, 0x93, 0x7c, 0x23, 0xcc, 0x94, 0x7b, 0x2a, 0xc5, 0x9d, 0x72, 0x2d, 0xc2, 0x9a, 0x75,
     0x70, 0x9f, 0xc7, 0x28, 0x77, 0x98, 0xc0, 0x2f, 0x7e, 0x91, 0xc9, 0x26, 0x79, 0x96, 0xce, 0x21,
     0x6c, 0x83, 0xdb, 0x34, 0x6b, 0x84, 0xdc, 0x33, 0x62, 0x8d, 0xd5, 0x3a, 0x65, 0x8a, 0xd2, 0x3d,
     0x48, 0xa7, 0xff, 0x10, 0x4f, 0xa0, 0xf8, 0x17, 0x46, 0xa9, 0xf1, 0x1e, 0x41, 0xae, 0xf6, 0x19,
     0x54, 0xbb, 0xe3, 0x0c, 0x53, 0xbc, 0xe4, 0x0b, 0x5a, 0xb5, 0xed, 0x02, 0x5d, 0xb2, 0xea, 0x05,
     0xe0, 0x0f, 0x57, 0xb8, 0xe7, 0x08, 0x50, 0xbf, 0xee, 0x01, 0x59, 0xb6, 0xe9, 0x06, 0x5e, 0xb1,
     0xfc, 0x13, 0x4b, 0xa4, 0xfb, 0x14, 0x4c, 0xa3, 0xf2, 0x1d, 0x45, 0xaa, 0xf5, 0x1a, 0x42, 0xad,
     0xd8, 0x37, 0x6f, 0x80, 0xdf, 0x30, 0x68, 0x87, 0xd6, 0x39, 0x61, 0x8e, 0xd1, 0x3e, 0x66, 0x89,
     0xc4, 0x2b, 0x73, 0x9c, 0xc3, 0x2c, 0x74, 0x9b, 0xca, 0x25, 0x7d, 0x92, 0xcd, 0x22, 0x7a, 0x95,
     0x90, 0x7f, 0x27, 0xc8, 0x97, 0x78, 0x20, 0xcf, 0x9e, 0x71, 0x29, 0xc6, 0x99, 0x76, 0x2e, 0xc1,
     0x8c, 0x63, 0x3b, 0xd4, 0x8b, 0x64, 0x3c, 0xd3, 0x82, 0x6d, 0x35, 0xda, 0x85, 0x6a, 0x32, 0xdd,
     0xa8, 0x47, 0x1f, 0xf0, 0xaf, 0x40, 0x18, 0xf7, 0xa6, 0x49, 0x11, 0xfe, 0xa1, 0x4e, 0x16, 0xf9,
     0xb4, 0x5b, 0x03, 0xec, 0xb3, 0x5c, 0x04, 0xeb, 0xba, 0x55, 0x0d, 0xe2, 0xbd, 0x52, 0x0a, 0xe5]"

definition tf_q0 :: "u8 list" where
  "tf_q0 =
    [0xa9, 0x67, 0xb3, 0xe8, 0x04, 0xfd, 0xa3, 0x76, 0x9a, 0x92, 0x80, 0x78, 0xe4, 0xdd, 0xd1, 0x38,
     0x0d, 0xc6, 0x35, 0x98, 0x18, 0xf7, 0xec, 0x6c, 0x43, 0x75, 0x37, 0x26, 0xfa, 0x13, 0x94, 0x48,
     0xf2, 0xd0, 0x8b, 0x30, 0x84, 0x54, 0xdf, 0x23, 0x19, 0x5b, 0x3d, 0x59, 0xf3, 0xae, 0xa2, 0x82,
     0x63, 0x01, 0x83, 0x2e, 0xd9, 0x51, 0x9b, 0x7c, 0xa6, 0xeb, 0xa5, 0xbe, 0x16, 0x0c, 0xe3, 0x61,
     0xc0, 0x8c, 0x3a, 0xf5, 0x73, 0x2c, 0x25, 0x0b, 0xbb, 0x4e, 0x89, 0x6b, 0x53, 0x6a, 0xb4, 0xf1,
     0xe1, 0xe6, 0xbd, 0x45, 0xe2, 0xf4, 0xb6, 0x66, 0xcc, 0x95, 0x03, 0x56, 0xd4, 0x1c, 0x1e, 0xd7,
     0xfb, 0xc3, 0x8e, 0xb5, 0xe9, 0xcf, 0xbf, 0xba, 0xea, 0x77, 0x39, 0xaf, 0x33, 0xc9, 0x62, 0x71,
     0x81, 0x79, 0x09, 0xad, 0x24, 0xcd, 0xf9, 0xd8, 0xe5, 0xc5, 0xb9, 0x4d, 0x44, 0x08, 0x86, 0xe7,
     0xa1, 0x1d, 0xaa, 0xed, 0x06, 0x70, 0xb2, 0xd2, 0x41, 0x7b, 0xa0, 0x11, 0x31, 0xc2, 0x27, 0x90,
     0x20, 0xf6, 0x60, 0xff, 0x96, 0x5c, 0xb1, 0xab, 0x9e, 0x9c, 0x52, 0x1b, 0x5f, 0x93, 0x0a, 0xef,
     0x91, 0x85, 0x49, 0xee, 0x2d, 0x4f, 0x8f, 0x3b, 0x47, 0x87, 0x6d, 0x46, 0xd6, 0x3e, 0x69, 0x64,
     0x2a, 0xce, 0xcb, 0x2f, 0xfc, 0x97, 0x05, 0x7a, 0xac, 0x7f, 0xd5, 0x1a, 0x4b, 0x0e, 0xa7, 0x5a,
     0x28, 0x14, 0x3f, 0x29, 0x88, 0x3c, 0x4c, 0x02, 0xb8, 0xda, 0xb0, 0x17, 0x55, 0x1f, 0x8a, 0x7d,
     0x57, 0xc7, 0x8d, 0x74, 0xb7, 0xc4, 0x9f, 0x72, 0x7e, 0x15, 0x22, 0x12, 0x58, 0x07, 0x99, 0x34,
     0x6e, 0x50, 0xde, 0x68, 0x65, 0xbc, 0xdb, 0xf8, 0xc8, 0xa8, 0x2b, 0x40, 0xdc, 0xfe, 0x32, 0xa4,
     0xca, 0x10, 0x21, 0xf0, 0xd3, 0x5d, 0x0f, 0x00, 0x6f, 0x9d, 0x36, 0x42, 0x4a, 0x5e, 0xc1, 0xe0]"

definition tf_q1 :: "u8 list" where
  "tf_q1 =
    [0x75, 0xf3, 0xc6, 0xf4, 0xdb, 0x7b, 0xfb, 0xc8, 0x4a, 0xd3, 0xe6, 0x6b, 0x45, 0x7d, 0xe8, 0x4b,
     0xd6, 0x32, 0xd8, 0xfd, 0x37, 0x71, 0xf1, 0xe1, 0x30, 0x0f, 0xf8, 0x1b, 0x87, 0xfa, 0x06, 0x3f,
     0x5e, 0xba, 0xae, 0x5b, 0x8a, 0x00, 0xbc, 0x9d, 0x6d, 0xc1, 0xb1, 0x0e, 0x80, 0x5d, 0xd2, 0xd5,
     0xa0, 0x84, 0x07, 0x14, 0xb5, 0x90, 0x2c, 0xa3, 0xb2, 0x73, 0x4c, 0x54, 0x92, 0x74, 0x36, 0x51,
     0x38, 0xb0, 0xbd, 0x5a, 0xfc, 0x60, 0x62, 0x96, 0x6c, 0x42, 0xf7, 0x10, 0x7c, 0x28, 0x27, 0x8c,
     0x13, 0x95, 0x9c, 0xc7, 0x24, 0x46, 0x3b, 0x70, 0xca, 0xe3, 0x85, 0xcb, 0x11, 0xd0, 0x93, 0xb8,
     0xa6, 0x83, 0x20, 0xff, 0x9f, 0x77, 0xc3, 0xcc, 0x03, 0x6f, 0x08, 0xbf, 0x40, 0xe7, 0x2b, 0xe2,
     0x79, 0x0c, 0xaa, 0x82, 0x41, 0x3a, 0xea, 0xb9, 0xe4, 0x9a, 0xa4, 0x97, 0x7e, 0xda, 0x7a, 0x17,
     0x66, 0x94, 0xa1, 0x1d, 0x3d, 0xf0, 0xde, 0xb3, 0x0b, 0x72, 0xa7, 0x1c, 0xef, 0xd1, 0x53, 0x3e,
     0x8f, 0x33, 0x26, 0x5f, 0xec, 0x76, 0x2a, 0x49, 0x81, 0x88, 0xee, 0x21, 0xc4, 0x1a, 0xeb, 0xd9,
     0xc5, 0x39, 0x99, 0xcd, 0xad, 0x31, 0x8b, 0x01, 0x18, 0x23, 0xdd, 0x1f, 0x4e, 0x2d, 0xf9, 0x48,
     0x4f, 0xf2, 0x65, 0x8e, 0x78, 0x5c, 0x58, 0x19, 0x8d, 0xe5, 0x98, 0x57, 0x67, 0x7f, 0x05, 0x64,
     0xaf, 0x63, 0xb6, 0xfe, 0xf5, 0xb7, 0x3c, 0xa5, 0xce, 0xe9, 0x68, 0x44, 0xe0, 0x4d, 0x43, 0x69,
     0x29, 0x2e, 0xac, 0x15, 0x59, 0xa8, 0x0a, 0x9e, 0x6e, 0x47, 0xdf, 0x34, 0x35, 0x6a, 0xcf, 0xdc,
     0x22, 0xc9, 0xc0, 0x9b, 0x89, 0xd4, 0xed, 0xab, 0x12, 0xa2, 0x0d, 0x52, 0xbb, 0x02, 0x2f, 0xa9,
     0xd7, 0x61, 0x1e, 0xb4, 0x50, 0x04, 0xf6, 0xc2, 0x16, 0x25, 0x86, 0x56, 0x55, 0x09, 0xbe, 0x91]"

section \<open>Key schedule\<close>

record AVTWOFISH =
  tf_K :: "u32 list"
  tf_S :: "u32 list"
  ksize :: nat
  MDS1 :: "u32 list"
  MDS2 :: "u32 list"
  MDS3 :: "u32 list"
  MDS4 :: "u32 list"

abbreviation LR :: "u32 \<Rightarrow> nat \<Rightarrow> u32" where
  "LR x n \<equiv> word_rotl n x"

abbreviation RR :: "u32 \<Rightarrow> nat \<Rightarrow> u32" where
  "RR x n \<equiv> word_rotr n x"

text \<open>The loop of \<open>gfmul\<close> ends when \<open>a\<close> has no bits left, so eight times at most.\<close>

fun gfmul_loop :: "nat \<Rightarrow> u8 \<Rightarrow> u8 \<Rightarrow> u8 \<Rightarrow> u8" where
  "gfmul_loop 0 a b r = r"
| "gfmul_loop (Suc n) a b r =
     (if a \<noteq> 0 \<and> b \<noteq> 0 then
        (let r = (if a AND 1 \<noteq> 0 then r XOR b else r);
             t = b AND 0x80;
             b = push_bit 1 b;
             b = (if t \<noteq> 0 then b XOR 0x4d else b)
         in gfmul_loop n (drop_bit 1 a) b r)
      else r)"

definition gfmul :: "u8 \<Rightarrow> u8 \<Rightarrow> u8" where
  "gfmul a b = gfmul_loop 8 a b 0"

definition gf_row :: "u8 list \<Rightarrow> u8 list \<Rightarrow> u8" where
  "gf_row cs m = fold (XOR) (map2 gfmul cs m) 0"

definition tf_RS :: "u32 \<Rightarrow> u32 \<Rightarrow> u32" where
  "tf_RS k0 k1 =
     (let m = AV_WL32 k0 @ AV_WL32 k1 in
      AV_RL32
       [gf_row [0x01, 0xa4, 0x55, 0x87, 0x5a, 0x58, 0xdb, 0x9e] m,
        gf_row [0xa4, 0x56, 0x82, 0xf3, 0x1e, 0xc6, 0x68, 0xe5] m,
        gf_row [0x02, 0xa1, 0xfc, 0xc1, 0x47, 0xae, 0x3d, 0x19] m,
        gf_row [0xa4, 0x55, 0x87, 0x5a, 0x58, 0xdb, 0x9e, 0x03] m])"

definition tbl :: "u8 list \<Rightarrow> u8 \<Rightarrow> u8" where
  "tbl t i = t ! unat i"

text \<open>\<open>y\<close> and \<open>l\<close> are lists of four bytes.\<close>

definition tf_h0 :: "u8 list \<Rightarrow> u32 list \<Rightarrow> nat \<Rightarrow> u8 list" where
  "tf_h0 y L k =
     (let q0 = tbl tf_q0; q1 = tbl tf_q1;
          l = AV_WL32 (L ! 3);
          y = (if k = 4
               then [q1 (y ! 0) XOR l ! 0, q0 (y ! 1) XOR l ! 1, q0 (y ! 2) XOR l ! 2, q1 (y ! 3) XOR l ! 3]
               else y);
          l = AV_WL32 (L ! 2);
          y = (if k \<ge> 3
               then [q1 (y ! 0) XOR l ! 0, q1 (y ! 1) XOR l ! 1, q0 (y ! 2) XOR l ! 2, q0 (y ! 3) XOR l ! 3]
               else y);
          l = AV_WL32 (L ! 1); m = AV_WL32 (L ! 0)
      in [q1 (q0 (q0 (y ! 0) XOR l ! 0) XOR m ! 0),
          q0 (q0 (q1 (y ! 1) XOR l ! 1) XOR m ! 1),
          q1 (q1 (q0 (y ! 2) XOR l ! 2) XOR m ! 2),
          q0 (q1 (q1 (y ! 3) XOR l ! 3) XOR m ! 3)])"

definition tf_h :: "u32 \<Rightarrow> u32 list \<Rightarrow> nat \<Rightarrow> u32" where
  "tf_h X L k =
     (let y = tf_h0 (AV_WL32 X) L k; d1 = tbl MD1; d2 = tbl MD2 in
      AV_RL32
       [y ! 0 XOR d2 (y ! 1) XOR d1 (y ! 2) XOR d1 (y ! 3),
        d1 (y ! 0) XOR d2 (y ! 1) XOR d2 (y ! 2) XOR y ! 3,
        d2 (y ! 0) XOR d1 (y ! 1) XOR y ! 2 XOR d2 (y ! 3),
        d2 (y ! 0) XOR y ! 1 XOR d2 (y ! 2) XOR d1 (y ! 3)])"

definition MDS_mul :: "AVTWOFISH \<Rightarrow> u32 \<Rightarrow> u32" where
  "MDS_mul cs X =
     MDS1 cs ! unat (X AND 0xff) XOR MDS2 cs ! unat (drop_bit 8 X AND 0xff) XOR
     MDS3 cs ! unat (drop_bit 16 X AND 0xff) XOR MDS4 cs ! unat (drop_bit 24 X)"

definition pack4 :: "u8 \<Rightarrow> u8 \<Rightarrow> u8 \<Rightarrow> u8 \<Rightarrow> u32" where
  "pack4 a b c d = ucast a XOR push_bit 8 (ucast b) XOR push_bit 16 (ucast c) XOR push_bit 24 (ucast d)"

definition precomputeMDS :: "AVTWOFISH \<Rightarrow> AVTWOFISH" where
  "precomputeMDS cs =
     (let y = (\<lambda>i. tf_h0 (replicate 4 (of_nat i)) (tf_S cs) (ksize cs)); d1 = tbl MD1; d2 = tbl MD2 in
      cs\<lparr>MDS1 := map (\<lambda>i. let a = y i ! 0 in pack4 a (d1 a) (d2 a) (d2 a)) [0..<256],
         MDS2 := map (\<lambda>i. let a = y i ! 1 in pack4 (d2 a) (d2 a) (d1 a) a) [0..<256],
         MDS3 := map (\<lambda>i. let a = y i ! 2 in pack4 (d1 a) (d2 a) a (d2 a)) [0..<256],
         MDS4 := map (\<lambda>i. let a = y i ! 3 in pack4 (d1 a) a (d2 a) (d1 a)) [0..<256]\<rparr>)"

text \<open>\<open>key\<close> has \<open>key_bits >> 3\<close> bytes, of which 32 are used. Unset entries of \<open>Key\<close> and \<open>S\<close> are 0.\<close>

definition av_twofish_init :: "AVTWOFISH \<Rightarrow> u8 list \<Rightarrow> int \<Rightarrow> int \<times> AVTWOFISH" where
  "av_twofish_init cs key key_bits =
     (if key_bits < 0 then (EINVAL, cs)
      else
        (let k = (if key_bits \<le> 128 then 2 else if key_bits \<le> 192 then 3 else 4);
             used = (if key_bits \<le> 256 then take (nat key_bits div 8) key else take 32 key);
             keypad = used @ replicate (32 - length used) 0;
             Key = map (\<lambda>i. if i < 2 * k then AV_RL32 (drop (4 * i) keypad) else 0) [0..<8];
             Me = map (\<lambda>i. Key ! (2 * i)) [0..<4];
             Mo = map (\<lambda>i. Key ! (2 * i + 1)) [0..<4];
             S = map (\<lambda>i. if i < k then tf_RS (Me ! (k - i - 1)) (Mo ! (k - i - 1)) else 0) [0..<4];
             cs = precomputeMDS (cs\<lparr>ksize := k, tf_S := S\<rparr>);
             A = (\<lambda>i. tf_h (of_nat (2 * i) * 0x01010101) Me k);
             B = (\<lambda>i. LR (tf_h (of_nat (2 * i + 1) * 0x01010101) Mo k) 8);
             K = concat (map (\<lambda>i. [A i + B i, LR (A i + 2 * B i) 9]) [0..<20])
         in (if int k * 64 \<noteq> key_bits then 1 else 0, cs\<lparr>tf_K := K\<rparr>)))"

section \<open>Blocks\<close>

type_synonym block4 = "u32 \<times> u32 \<times> u32 \<times> u32"

definition twofish_enc_cycle :: "AVTWOFISH \<Rightarrow> nat \<Rightarrow> block4 \<Rightarrow> block4" where
  "twofish_enc_cycle cs i = (\<lambda>(p0, p1, p2, p3).
     (let t0 = MDS_mul cs p0; t1 = MDS_mul cs (LR p1 8);
          p2 = RR (p2 XOR (t0 + t1 + tf_K cs ! (2 * i + 8))) 1;
          p3 = LR p3 1 XOR (t0 + 2 * t1 + tf_K cs ! (2 * i + 9));
          t0 = MDS_mul cs p2; t1 = MDS_mul cs (LR p3 8);
          p0 = RR (p0 XOR (t0 + t1 + tf_K cs ! (2 * i + 10))) 1;
          p1 = LR p1 1 XOR (t0 + 2 * t1 + tf_K cs ! (2 * i + 11))
      in (p0, p1, p2, p3)))"

definition twofish_encrypt :: "AVTWOFISH \<Rightarrow> u8 list \<Rightarrow> u8 list" where
  "twofish_encrypt cs src =
     (let P = (AV_RL32 src XOR tf_K cs ! 0, AV_RL32 (drop 4 src) XOR tf_K cs ! 1,
               AV_RL32 (drop 8 src) XOR tf_K cs ! 2, AV_RL32 (drop 12 src) XOR tf_K cs ! 3);
          (p0, p1, p2, p3) = fold (twofish_enc_cycle cs) [0, 2, 4, 6, 8, 10, 12, 14] P
      in AV_WL32 (p2 XOR tf_K cs ! 4) @ AV_WL32 (p3 XOR tf_K cs ! 5) @
         AV_WL32 (p0 XOR tf_K cs ! 6) @ AV_WL32 (p1 XOR tf_K cs ! 7))"

definition twofish_dec_cycle :: "AVTWOFISH \<Rightarrow> nat \<Rightarrow> block4 \<Rightarrow> block4" where
  "twofish_dec_cycle cs i = (\<lambda>(p0, p1, p2, p3).
     (let t0 = MDS_mul cs p2; t1 = MDS_mul cs (LR p3 8);
          p0 = LR p0 1 XOR (t0 + t1 + tf_K cs ! (2 * i + 8));
          p1 = RR (p1 XOR (t0 + 2 * t1 + tf_K cs ! (2 * i + 9))) 1;
          t0 = MDS_mul cs p0; t1 = MDS_mul cs (LR p1 8);
          p2 = LR p2 1 XOR (t0 + t1 + tf_K cs ! (2 * i + 6));
          p3 = RR (p3 XOR (t0 + 2 * t1 + tf_K cs ! (2 * i + 7))) 1
      in (p0, p1, p2, p3)))"

definition twofish_decrypt :: "AVTWOFISH \<Rightarrow> u8 list \<Rightarrow> u8 list option \<Rightarrow> u8 list \<times> u8 list option" where
  "twofish_decrypt cs src iv =
     (let P = (AV_RL32 (drop 8 src) XOR tf_K cs ! 6, AV_RL32 (drop 12 src) XOR tf_K cs ! 7,
               AV_RL32 src XOR tf_K cs ! 4, AV_RL32 (drop 4 src) XOR tf_K cs ! 5);
          (p0, p1, p2, p3) = fold (twofish_dec_cycle cs) [15, 13, 11, 9, 7, 5, 3, 1] P;
          (p0, p1, p2, p3) = (p0 XOR tf_K cs ! 0, p1 XOR tf_K cs ! 1, p2 XOR tf_K cs ! 2, p3 XOR tf_K cs ! 3);
          (p0, p1, p2, p3) =
            (case iv of
               None \<Rightarrow> (p0, p1, p2, p3)
             | Some v \<Rightarrow> (p0 XOR AV_RL32 v, p1 XOR AV_RL32 (drop 4 v),
                         p2 XOR AV_RL32 (drop 8 v), p3 XOR AV_RL32 (drop 12 v)))
      in (AV_WL32 p2 @ AV_WL32 p3 @ AV_WL32 p0 @ AV_WL32 p1,
          case iv of None \<Rightarrow> None | Some v \<Rightarrow> Some src))"

definition twofish_block :: "AVTWOFISH \<Rightarrow> u8 list \<Rightarrow> bool \<Rightarrow> u8 list option \<Rightarrow> u8 list \<times> u8 list option" where
  "twofish_block cs src decrypt iv = (if decrypt then twofish_decrypt cs src iv else (twofish_encrypt cs src, iv))"

definition av_twofish_crypt ::
    "AVTWOFISH \<Rightarrow> nat \<Rightarrow> u8 list \<Rightarrow> u8 list option \<Rightarrow> bool \<Rightarrow> (u8 list \<times> u8 list option) option" where
  "av_twofish_crypt cs count src iv decrypt = crypt_loop 16 (twofish_block cs) count src iv decrypt"

section \<open>Decryption\<close>

lemma dec_cycle_inverse: "twofish_dec_cycle cs (Suc i) (twofish_enc_cycle cs i P) = P"
  by (cases P) (simp add: twofish_dec_cycle_def twofish_enc_cycle_def Let_def word_rot_lr word_rot_rl xor.assoc ac_simps)

lemma cycles_inverse:
  "fold (twofish_dec_cycle cs) [15, 13, 11, 9, 7, 5, 3, 1] (fold (twofish_enc_cycle cs) [0, 2, 4, 6, 8, 10, 12, 14] P) = P"
proof -
  have "fold (\<lambda>i. twofish_dec_cycle cs (Suc i)) (rev [0, 2, 4, 6, 8, 10, 12, 14])
      (fold (twofish_enc_cycle cs) [0, 2, 4, 6, 8, 10, 12, 14] P) = P"
    by (rule fold_inverse) (rule dec_cycle_inverse)
  moreover have "[15, 13, 11, 9, 7, 5, 3, 1] = map Suc (rev [0, 2, 4, 6, 8, 10, 12, 14])" by simp
  ultimately show ?thesis by (simp only: fold_map comp_def)
qed

text \<open>Exchanging the two halves of a block.\<close>

definition swap_halves :: "u8 list \<Rightarrow> u8 list" where
  "swap_halves b = take 8 (drop 8 b) @ take 8 b"

lemma swap_halves_swap [simp]: "length b = 16 \<Longrightarrow> swap_halves (swap_halves b) = b"
  using append_take_drop_id[of 8 b] by (simp add: swap_halves_def)

lemma length_swap_halves [simp]: "length b = 16 \<Longrightarrow> length (swap_halves b) = 16"
  by (simp add: swap_halves_def)

lemma length_twofish_encrypt [simp]: "length (twofish_encrypt cs b) = 16"
  by (simp add: twofish_encrypt_def Let_def split: prod.splits)

lemma block_words:
  assumes "length b = 16"
  shows "AV_WL32 (AV_RL32 b) @ AV_WL32 (AV_RL32 (drop 4 b)) @ AV_WL32 (AV_RL32 (drop 8 b)) @ AV_WL32 (AV_RL32 (drop 12 b)) = b"
proof -
  have "take 4 b @ take 4 (drop 4 b) @ take 4 (drop 8 b) @ take 4 (drop 12 b) = b"
    using assms append_take_drop_id[of 4 b] append_take_drop_id[of 4 "drop 4 b"] append_take_drop_id[of 4 "drop 8 b"]
    by simp
  then show ?thesis using assms by simp
qed

lemma twofish_decrypt_encrypt:
  assumes "length b = 16"
  shows "fst (twofish_decrypt cs (twofish_encrypt cs b) None) = swap_halves b"
proof -
  define P where "P = (AV_RL32 b XOR tf_K cs ! 0, AV_RL32 (drop 4 b) XOR tf_K cs ! 1,
     AV_RL32 (drop 8 b) XOR tf_K cs ! 2, AV_RL32 (drop 12 b) XOR tf_K cs ! 3)"
  obtain p0 p1 p2 p3 where p: "fold (twofish_enc_cycle cs) [0, 2, 4, 6, 8, 10, 12, 14] P = (p0, p1, p2, p3)"
    by (cases "fold (twofish_enc_cycle cs) [0, 2, 4, 6, 8, 10, 12, 14] P")
  have e: "twofish_encrypt cs b = AV_WL32 (p2 XOR tf_K cs ! 4) @ AV_WL32 (p3 XOR tf_K cs ! 5) @
         AV_WL32 (p0 XOR tf_K cs ! 6) @ AV_WL32 (p1 XOR tf_K cs ! 7)"
    unfolding twofish_encrypt_def Let_def P_def[symmetric] p by simp
  have i: "fold (twofish_dec_cycle cs) [15, 13, 11, 9, 7, 5, 3, 1] (p0, p1, p2, p3) = P"
    using cycles_inverse[of cs P] by (simp only: p)
  have "fst (twofish_decrypt cs (twofish_encrypt cs b) None) =
      AV_WL32 (AV_RL32 (drop 8 b)) @ AV_WL32 (AV_RL32 (drop 12 b)) @ AV_WL32 (AV_RL32 b) @ AV_WL32 (AV_RL32 (drop 4 b))"
    unfolding twofish_decrypt_def Let_def e using i by (simp add: xor.assoc P_def)
  also have "\<dots> = swap_halves b"
    using arg_cong[OF block_words[OF assms], of swap_halves] by (simp add: swap_halves_def)
  finally show ?thesis .
qed

text \<open>With the halves exchanged back the cipher meets the interface.\<close>

definition repaired :: "AVTWOFISH \<Rightarrow> u8 list \<Rightarrow> bool \<Rightarrow> u8 list option \<Rightarrow> u8 list \<times> u8 list option" where
  "repaired cs src decrypt iv =
     (let (d, v) = twofish_block cs src decrypt iv in (if decrypt then swap_halves d else d, v))"

lemma length_16E: "length b = 16 \<Longrightarrow> (\<And>p q r s. b = p @ q @ r @ s \<Longrightarrow> length p = 4 \<Longrightarrow> length q = 4 \<Longrightarrow>
    length r = 4 \<Longrightarrow> length s = 4 \<Longrightarrow> P) \<Longrightarrow> P"
proof -
  assume l: "length b = 16" and P: "\<And>p q r s. b = p @ q @ r @ s \<Longrightarrow> length p = 4 \<Longrightarrow> length q = 4 \<Longrightarrow>
    length r = 4 \<Longrightarrow> length s = 4 \<Longrightarrow> P"
  have "b = take 4 b @ take 4 (drop 4 b) @ take 4 (drop 8 b) @ drop 12 b"
    using append_take_drop_id[of 4 b] append_take_drop_id[of 4 "drop 4 b"] append_take_drop_id[of 4 "drop 8 b"] by simp
  from P[OF this] l show P by simp
qed

lemma twofish_decrypt_iv:
  assumes "length b = 16" "length v = 16"
  shows "twofish_decrypt cs b (Some v) = (swap_halves (xor_bytes (swap_halves (fst (twofish_decrypt cs b None))) v), Some b)"
proof -
  obtain p q r s where v: "v = p @ q @ r @ s" and l: "length p = 4" "length q = 4" "length r = 4" "length s = 4"
    using assms(2) by (rule length_16E)
  show ?thesis
    unfolding twofish_decrypt_def Let_def v
    by (auto simp: l WL32_xor swap_halves_def xor_bytes_append split: prod.splits)
qed

interpretation twofish: block_cipher 16 "repaired cs" for cs
proof unfold_locales
  fix b v :: "u8 list"
  assume b: "length b = 16"
  show "length (fst (repaired cs b False None)) = 16"
    by (simp add: repaired_def twofish_block_def)
  show "fst (repaired cs (fst (repaired cs b False None)) True None) = b"
    using twofish_decrypt_encrypt[OF b, of cs] b
    by (auto simp: repaired_def twofish_block_def split: prod.splits)
  show "snd (repaired cs b True None) = None"
    by (auto simp: repaired_def twofish_block_def twofish_decrypt_def Let_def split: prod.splits)
  assume v: "length v = 16"
  have "length (fst (twofish_decrypt cs b None)) = 16"
    by (auto simp: twofish_decrypt_def Let_def split: prod.splits)
  then show "repaired cs b True (Some v) = (xor_bytes (fst (repaired cs b True None)) v, Some b)"
    using twofish_decrypt_iv[OF b v, of cs] v
    by (auto simp: repaired_def twofish_block_def split: prod.splits)
qed

fun swap_blocks :: "nat \<Rightarrow> u8 list \<Rightarrow> u8 list" where
  "swap_blocks 0 s = []"
| "swap_blocks (Suc n) s = swap_halves (take 16 s) @ swap_blocks n (drop 16 s)"

lemma length_twofish_decrypt [simp]: "length (fst (twofish_decrypt cs b iv)) = 16"
  by (auto simp: twofish_decrypt_def Let_def split: prod.splits)

lemma repaired_enc [simp]: "repaired cs b False v = twofish_block cs b False v"
  by (simp add: repaired_def split: prod.splits)

lemma repaired_dec: "twofish_block cs b True v = (d, w) \<Longrightarrow> repaired cs b True v = (swap_halves d, w)"
  by (simp add: repaired_def)

lemma loop_encrypt: "crypt_loop 16 (repaired cs) n src iv False = crypt_loop 16 (twofish_block cs) n src iv False"
proof (induction n arbitrary: src iv)
  case (Suc n)
  then show ?case by (cases iv; cases "load src 0 16") simp_all
qed simp

lemma loop_decrypt:
  "crypt_loop 16 (twofish_block cs) n src iv True =
     map_option (\<lambda>(out, v). (swap_blocks n out, v)) (crypt_loop 16 (repaired cs) n src iv True)"
proof (induction n arbitrary: src iv)
  case (Suc n)
  show ?case
  proof (cases "load src 0 16")
    case (Some b)
    obtain d v where d: "twofish_block cs b True iv = (d, v)" by (cases "twofish_block cs b True iv")
    have "length (fst (twofish_block cs b True iv)) = 16" by (simp add: twofish_block_def)
    then have ld: "length d = 16" by (simp add: d)
    then show ?thesis
      using Suc[of "drop 16 src" v] d repaired_dec[OF d]
      by (cases "crypt_loop 16 (repaired cs) n (drop 16 src) v True") (auto simp: Some)
  qed simp
qed simp

text \<open>A context as \<open>av_twofish_alloc\<close> returns it.\<close>

definition fresh_twofish :: AVTWOFISH where
  "fresh_twofish = \<lparr>tf_K = replicate 40 0, tf_S = replicate 4 0, ksize = 0, MDS1 = replicate 256 0,
     MDS2 = replicate 256 0, MDS3 = replicate 256 0, MDS4 = replicate 256 0\<rparr>"

section \<open>Properties\<close>

text \<open>C19: Decrypting what Twofish encrypted, for any key, any number of blocks, chained or not, does not give
  the plaintext: each block comes back with its two halves exchanged, because
  \<open>twofish_decrypt\<close> writes \<open>P[2], P[3], P[0], P[1]\<close> like the encryption. The rounds themselves
  are undone exactly, and the vector left is the one encryption left.\<close>

theorem twofish_decrypt_swaps_halves:
  assumes "length src = n * 16" "iv = None \<or> (\<exists>v. iv = Some v \<and> length v = 16)"
  shows "\<exists>dst iv'. av_twofish_crypt cs n src iv False = Some (dst, iv') \<and> length dst = n * 16 \<and>
     av_twofish_crypt cs n dst iv True = Some (swap_blocks n src, iv')"
proof -
  have iv: "\<And>v. iv = Some v \<Longrightarrow> length v = 16" using assms(2) by auto
  obtain dst iv' where "crypt_loop 16 (repaired cs) n src iv False = Some (dst, iv')" "length dst = n * 16"
     "crypt_loop 16 (repaired cs) n dst iv True = Some (src, iv')"
    using twofish.roundtrip[OF assms(1) iv] by blast
  then show ?thesis by (auto simp: av_twofish_crypt_def loop_encrypt loop_decrypt)
qed

theorem twofish_decrypt_swaps_halves_witness:
  "\<exists>dst iv'. av_twofish_crypt (snd (av_twofish_init fresh_twofish [1, 2] 16)) 1 [1, 2, 3, 4, 5, 6, 7, 8, 9, 10, 11, 12, 13, 14, 15, 16] None False = Some (dst, iv') \<and>
     av_twofish_crypt (snd (av_twofish_init fresh_twofish [1, 2] 16)) 1 dst None True =
       Some ([9, 10, 11, 12, 13, 14, 15, 16, 1, 2, 3, 4, 5, 6, 7, 8], iv')"
  using twofish_decrypt_swaps_halves[of "[1, 2, 3, 4, 5, 6, 7, 8, 9, 10, 11, 12, 13, 14, 15, 16]" 1 None
      "snd (av_twofish_init fresh_twofish [1, 2] 16)"]
  by (auto simp: swap_halves_def)

end
