(* ===== verification/Des.thy ===== *)
theory Des
  imports Ciphers
begin

text \<open>
  DES and triple DES (libavutil/des.c): the bit permutations \<open>shuffle\<close> and \<open>shuffle_inv\<close>, the round
  function in the two builds the file has (\<open>CONFIG_SMALL\<close> computes the S-boxes and the permutation P,
  the other one looks up their composition), the round keys, and \<open>av_des_crypt_mac\<close> with its chained
  modes. The tables are the file's; the macro \<open>T\<close> that turns the standard's bit numbers
  into shifts is applied in them.
\<close>

section \<open>Tables\<close>

definition IP_shuffle :: "nat list" where
  "IP_shuffle =
    [6, 14, 22, 30, 38, 46, 54, 62,
     4, 12, 20, 28, 36, 44, 52, 60,
     2, 10, 18, 26, 34, 42, 50, 58,
     0, 8, 16, 24, 32, 40, 48, 56,
     7, 15, 23, 31, 39, 47, 55, 63,
     5, 13, 21, 29, 37, 45, 53, 61,
     3, 11, 19, 27, 35, 43, 51, 59,
     1, 9, 17, 25, 33, 41, 49, 57]"

definition P_shuffle :: "nat list" where
  "P_shuffle =
    [16, 25, 12, 11,
     3, 20, 4, 15,
     31, 17, 9, 6,
     27, 14, 1, 22,
     30, 24, 8, 18,
     0, 5, 29, 23,
     13, 19, 2, 26,
     10, 21, 28, 7]"

definition PC1_shuffle :: "nat list" where
  "PC1_shuffle =
    [7, 15, 23, 31, 39, 47, 55,
     63, 6, 14, 22, 30, 38, 46,
     54, 62, 5, 13, 21, 29, 37,
     45, 53, 61, 4, 12, 20, 28,
     1, 9, 17, 25, 33, 41, 49,
     57, 2, 10, 18, 26, 34, 42,
     50, 58, 3, 11, 19, 27, 35,
     43, 51, 59, 36, 44, 52, 60]"

definition PC2_shuffle :: "nat list" where
  "PC2_shuffle =
    [42, 39, 45, 32, 55, 51,
     53, 28, 41, 50, 35, 46,
     33, 37, 44, 52, 30, 48,
     40, 49, 29, 36, 43, 54,
     15, 4, 25, 19, 9, 1,
     26, 16, 5, 11, 23, 8,
     12, 7, 17, 0, 22, 3,
     10, 14, 6, 20, 27, 24]"

definition S_boxes :: "u8 list list" where
  "S_boxes =
    [[0x0e, 0xf4, 0x7d, 0x41, 0xe2, 0x2f, 0xdb, 0x18,
      0xa3, 0x6a, 0xc6, 0xbc, 0x95, 0x59, 0x30, 0x87,
      0xf4, 0xc1, 0x8e, 0x28, 0x4d, 0x96, 0x12, 0x7b,
      0x5f, 0xbc, 0x39, 0xe7, 0xa3, 0x0a, 0x65, 0xd0],
     [0x3f, 0xd1, 0x48, 0x7e, 0xf6, 0x2b, 0x83, 0xe4,
      0xc9, 0x07, 0x12, 0xad, 0x6c, 0x90, 0xb5, 0x5a,
      0xd0, 0x8e, 0xa7, 0x1b, 0x3a, 0xf4, 0x4d, 0x21,
      0xb5, 0x68, 0x7c, 0xc6, 0x09, 0x53, 0xe2, 0x9f],
     [0xda, 0x70, 0x09, 0x9e, 0x36, 0x43, 0x6f, 0xa5,
      0x21, 0x8d, 0x5c, 0xe7, 0xcb, 0xb4, 0xf2, 0x18,
      0x1d, 0xa6, 0xd4, 0x09, 0x68, 0x9f, 0x83, 0x70,
      0x4b, 0xf1, 0xe2, 0x3c, 0xb5, 0x5a, 0x2e, 0xc7],
     [0xd7, 0x8d, 0xbe, 0x53, 0x60, 0xf6, 0x09, 0x3a,
      0x41, 0x72, 0x28, 0xc5, 0x1b, 0xac, 0xe4, 0x9f,
      0x3a, 0xf6, 0x09, 0x60, 0xac, 0x1b, 0xd7, 0x8d,
      0x9f, 0x41, 0x53, 0xbe, 0xc5, 0x72, 0x28, 0xe4],
     [0xe2, 0xbc, 0x24, 0xc1, 0x47, 0x7a, 0xdb, 0x16,
      0x58, 0x05, 0xf3, 0xaf, 0x3d, 0x90, 0x8e, 0x69,
      0xb4, 0x82, 0xc1, 0x7b, 0x1a, 0xed, 0x27, 0xd8,
      0x6f, 0xf9, 0x0c, 0x95, 0xa6, 0x43, 0x50, 0x3e],
     [0xac, 0xf1, 0x4a, 0x2f, 0x79, 0xc2, 0x96, 0x58,
      0x60, 0x1d, 0xd3, 0xe4, 0x0e, 0xb7, 0x35, 0x8b,
      0x49, 0x3e, 0x2f, 0xc5, 0x92, 0x58, 0xfc, 0xa3,
      0xb7, 0xe0, 0x14, 0x7a, 0x61, 0x0d, 0x8b, 0xd6],
     [0xd4, 0x0b, 0xb2, 0x7e, 0x4f, 0x90, 0x18, 0xad,
      0xe3, 0x3c, 0x59, 0xc7, 0x25, 0xfa, 0x86, 0x61,
      0x61, 0xb4, 0xdb, 0x8d, 0x1c, 0x43, 0xa7, 0x7e,
      0x9a, 0x5f, 0x06, 0xf8, 0xe0, 0x25, 0x39, 0xc2],
     [0x1d, 0xf2, 0xd8, 0x84, 0xa6, 0x3f, 0x7b, 0x41,
      0xca, 0x59, 0x63, 0xbe, 0x05, 0xe0, 0x9c, 0x27,
      0x27, 0x1b, 0xe4, 0x71, 0x49, 0xac, 0x8e, 0xd2,
      0xf0, 0xc6, 0x9a, 0x0d, 0x3f, 0x53, 0x65, 0xb8]]"

definition S_boxes_P_shuffle :: "u32 list list" where
  "S_boxes_P_shuffle =
    [[0x00808200, 0x00000000, 0x00008000, 0x00808202, 0x00808002, 0x00008202, 0x00000002, 0x00008000,
      0x00000200, 0x00808200, 0x00808202, 0x00000200, 0x00800202, 0x00808002, 0x00800000, 0x00000002,
      0x00000202, 0x00800200, 0x00800200, 0x00008200, 0x00008200, 0x00808000, 0x00808000, 0x00800202,
      0x00008002, 0x00800002, 0x00800002, 0x00008002, 0x00000000, 0x00000202, 0x00008202, 0x00800000,
      0x00008000, 0x00808202, 0x00000002, 0x00808000, 0x00808200, 0x00800000, 0x00800000, 0x00000200,
      0x00808002, 0x00008000, 0x00008200, 0x00800002, 0x00000200, 0x00000002, 0x00800202, 0x00008202,
      0x00808202, 0x00008002, 0x00808000, 0x00800202, 0x00800002, 0x00000202, 0x00008202, 0x00808200,
      0x00000202, 0x00800200, 0x00800200, 0x00000000, 0x00008002, 0x00008200, 0x00000000, 0x00808002],
     [0x40084010, 0x40004000, 0x00004000, 0x00084010, 0x00080000, 0x00000010, 0x40080010, 0x40004010,
      0x40000010, 0x40084010, 0x40084000, 0x40000000, 0x40004000, 0x00080000, 0x00000010, 0x40080010,
      0x00084000, 0x00080010, 0x40004010, 0x00000000, 0x40000000, 0x00004000, 0x00084010, 0x40080000,
      0x00080010, 0x40000010, 0x00000000, 0x00084000, 0x00004010, 0x40084000, 0x40080000, 0x00004010,
      0x00000000, 0x00084010, 0x40080010, 0x00080000, 0x40004010, 0x40080000, 0x40084000, 0x00004000,
      0x40080000, 0x40004000, 0x00000010, 0x40084010, 0x00084010, 0x00000010, 0x00004000, 0x40000000,
      0x00004010, 0x40084000, 0x00080000, 0x40000010, 0x00080010, 0x40004010, 0x40000010, 0x00080010,
      0x00084000, 0x00000000, 0x40004000, 0x00004010, 0x40000000, 0x40080010, 0x40084010, 0x00084000],
     [0x00000104, 0x04010100, 0x00000000, 0x04010004, 0x04000100, 0x00000000, 0x00010104, 0x04000100,
      0x00010004, 0x04000004, 0x04000004, 0x00010000, 0x04010104, 0x00010004, 0x04010000, 0x00000104,
      0x04000000, 0x00000004, 0x04010100, 0x00000100, 0x00010100, 0x04010000, 0x04010004, 0x00010104,
      0x04000104, 0x00010100, 0x00010000, 0x04000104, 0x00000004, 0x04010104, 0x00000100, 0x04000000,
      0x04010100, 0x04000000, 0x00010004, 0x00000104, 0x00010000, 0x04010100, 0x04000100, 0x00000000,
      0x00000100, 0x00010004, 0x04010104, 0x04000100, 0x04000004, 0x00000100, 0x00000000, 0x04010004,
      0x04000104, 0x00010000, 0x04000000, 0x04010104, 0x00000004, 0x00010104, 0x00010100, 0x04000004,
      0x04010000, 0x04000104, 0x00000104, 0x04010000, 0x00010104, 0x00000004, 0x04010004, 0x00010100],
     [0x80401000, 0x80001040, 0x80001040, 0x00000040, 0x00401040, 0x80400040, 0x80400000, 0x80001000,
      0x00000000, 0x00401000, 0x00401000, 0x80401040, 0x80000040, 0x00000000, 0x00400040, 0x80400000,
      0x80000000, 0x00001000, 0x00400000, 0x80401000, 0x00000040, 0x00400000, 0x80001000, 0x00001040,
      0x80400040, 0x80000000, 0x00001040, 0x00400040, 0x00001000, 0x00401040, 0x80401040, 0x80000040,
      0x00400040, 0x80400000, 0x00401000, 0x80401040, 0x80000040, 0x00000000, 0x00000000, 0x00401000,
      0x00001040, 0x00400040, 0x80400040, 0x80000000, 0x80401000, 0x80001040, 0x80001040, 0x00000040,
      0x80401040, 0x80000040, 0x80000000, 0x00001000, 0x80400000, 0x80001000, 0x00401040, 0x80400040,
      0x80001000, 0x00001040, 0x00400000, 0x80401000, 0x00000040, 0x00400000, 0x00001000, 0x00401040],
     [0x00000080, 0x01040080, 0x01040000, 0x21000080, 0x00040000, 0x00000080, 0x20000000, 0x01040000,
      0x20040080, 0x00040000, 0x01000080, 0x20040080, 0x21000080, 0x21040000, 0x00040080, 0x20000000,
      0x01000000, 0x20040000, 0x20040000, 0x00000000, 0x20000080, 0x21040080, 0x21040080, 0x01000080,
      0x21040000, 0x20000080, 0x00000000, 0x21000000, 0x01040080, 0x01000000, 0x21000000, 0x00040080,
      0x00040000, 0x21000080, 0x00000080, 0x01000000, 0x20000000, 0x01040000, 0x21000080, 0x20040080,
      0x01000080, 0x20000000, 0x21040000, 0x01040080, 0x20040080, 0x00000080, 0x01000000, 0x21040000,
      0x21040080, 0x00040080, 0x21000000, 0x21040080, 0x01040000, 0x00000000, 0x20040000, 0x21000000,
      0x00040080, 0x01000080, 0x20000080, 0x00040000, 0x00000000, 0x20040000, 0x01040080, 0x20000080],
     [0x10000008, 0x10200000, 0x00002000, 0x10202008, 0x10200000, 0x00000008, 0x10202008, 0x00200000,
      0x10002000, 0x00202008, 0x00200000, 0x10000008, 0x00200008, 0x10002000, 0x10000000, 0x00002008,
      0x00000000, 0x00200008, 0x10002008, 0x00002000, 0x00202000, 0x10002008, 0x00000008, 0x10200008,
      0x10200008, 0x00000000, 0x00202008, 0x10202000, 0x00002008, 0x00202000, 0x10202000, 0x10000000,
      0x10002000, 0x00000008, 0x10200008, 0x00202000, 0x10202008, 0x00200000, 0x00002008, 0x10000008,
      0x00200000, 0x10002000, 0x10000000, 0x00002008, 0x10000008, 0x10202008, 0x00202000, 0x10200000,
      0x00202008, 0x10202000, 0x00000000, 0x10200008, 0x00000008, 0x00002000, 0x10200000, 0x00202008,
      0x00002000, 0x00200008, 0x10002008, 0x00000000, 0x10202000, 0x10000000, 0x00200008, 0x10002008],
     [0x00100000, 0x02100001, 0x02000401, 0x00000000, 0x00000400, 0x02000401, 0x00100401, 0x02100400,
      0x02100401, 0x00100000, 0x00000000, 0x02000001, 0x00000001, 0x02000000, 0x02100001, 0x00000401,
      0x02000400, 0x00100401, 0x00100001, 0x02000400, 0x02000001, 0x02100000, 0x02100400, 0x00100001,
      0x02100000, 0x00000400, 0x00000401, 0x02100401, 0x00100400, 0x00000001, 0x02000000, 0x00100400,
      0x02000000, 0x00100400, 0x00100000, 0x02000401, 0x02000401, 0x02100001, 0x02100001, 0x00000001,
      0x00100001, 0x02000000, 0x02000400, 0x00100000, 0x02100400, 0x00000401, 0x00100401, 0x02100400,
      0x00000401, 0x02000001, 0x02100401, 0x02100000, 0x00100400, 0x00000000, 0x00000001, 0x02100401,
      0x00000000, 0x00100401, 0x02100000, 0x00000400, 0x02000001, 0x02000400, 0x00000400, 0x00100001],
     [0x08000820, 0x00000800, 0x00020000, 0x08020820, 0x08000000, 0x08000820, 0x00000020, 0x08000000,
      0x00020020, 0x08020000, 0x08020820, 0x00020800, 0x08020800, 0x00020820, 0x00000800, 0x00000020,
      0x08020000, 0x08000020, 0x08000800, 0x00000820, 0x00020800, 0x00020020, 0x08020020, 0x08020800,
      0x00000820, 0x00000000, 0x00000000, 0x08020020, 0x08000020, 0x08000800, 0x00020820, 0x00020000,
      0x00020820, 0x00020000, 0x08020800, 0x00000800, 0x00000020, 0x08020020, 0x00000800, 0x00020820,
      0x08000800, 0x00000020, 0x08000020, 0x08020000, 0x08020020, 0x08000000, 0x00020000, 0x08000820,
      0x00000000, 0x08020820, 0x00020020, 0x08000020, 0x08020000, 0x08000800, 0x08000820, 0x00000000,
      0x08020820, 0x00020800, 0x00020800, 0x00000820, 0x00000820, 0x00020020, 0x08000000, 0x08020800]]"

section \<open>Bit permutations\<close>

definition shuffle :: "u64 \<Rightarrow> nat list \<Rightarrow> u64" where
  "shuffle inp sh = fold (\<lambda>s res. res + (res + (drop_bit s inp AND 1))) sh 0"

text \<open>The table is read from its end.\<close>

definition shuffle_inv_step :: "nat \<Rightarrow> u64 \<times> u64 \<Rightarrow> u64 \<times> u64" where
  "shuffle_inv_step s = (\<lambda>(res, inp). (res OR push_bit s (inp AND 1), drop_bit 1 inp))"

definition shuffle_inv :: "u64 \<Rightarrow> nat list \<Rightarrow> u64" where
  "shuffle_inv inp sh = fst (fold shuffle_inv_step (rev sh) (0, inp))"

section \<open>Round function and round keys\<close>

text \<open>One step of the loop of \<open>f_func\<close>: \<open>out\<close>, \<open>r\<close>, \<open>k\<close> for S-box \<open>i\<close>. The loop counts down from 7.
  In the build with \<open>CONFIG_SMALL\<close> two entries share a byte.\<close>

definition f_step :: "nat \<Rightarrow> u32 \<times> u32 \<times> u64 \<Rightarrow> u32 \<times> u32 \<times> u64" where
  "f_step i = (\<lambda>(out, r, k).
     (let tmp = ((ucast r XOR k) AND 0x3f)
      in (out OR S_boxes_P_shuffle ! i ! unat tmp, drop_bit 4 r OR push_bit 28 r, drop_bit 6 k)))"

definition f_func :: "u32 \<Rightarrow> u64 \<Rightarrow> u32" where
  "f_func r k = fst (fold f_step [7, 6, 5, 4, 3, 2, 1, 0] (0, push_bit 1 r OR drop_bit 31 r, k))"

definition small_box :: "nat \<Rightarrow> u64 \<Rightarrow> u8" where
  "small_box i tmp =
     (let v = S_boxes ! i ! unat (drop_bit 1 tmp) in if tmp AND 1 \<noteq> 0 then drop_bit 4 v else v)"

definition f_step_small :: "nat \<Rightarrow> u32 \<times> u32 \<times> u64 \<Rightarrow> u32 \<times> u32 \<times> u64" where
  "f_step_small i = (\<lambda>(out, r, k).
     (let tmp = ((ucast r XOR k) AND 0x3f)
      in (drop_bit 4 out OR push_bit 28 (ucast (small_box i tmp)), drop_bit 4 r OR push_bit 28 r, drop_bit 6 k)))"

definition f_func_small :: "u32 \<Rightarrow> u64 \<Rightarrow> u32" where
  "f_func_small r k =
     (let out = fst (fold f_step_small [7, 6, 5, 4, 3, 2, 1, 0] (0, push_bit 1 r OR drop_bit 31 r, k))
      in ucast (shuffle (ucast out) P_shuffle))"

definition key_shift_left :: "u64 \<Rightarrow> u64" where
  "key_shift_left CDn =
     (let carries = drop_bit 27 CDn AND 0x10000001
      in (push_bit 1 CDn AND NOT 0x10000001) OR carries)"

text \<open>\<open>gen_key_loop i n CDn\<close> is the \<open>n\<close> round keys from \<open>K[i]\<close> on.\<close>

fun gen_key_loop :: "nat \<Rightarrow> nat \<Rightarrow> u64 \<Rightarrow> u64 list" where
  "gen_key_loop i 0 CDn = []"
| "gen_key_loop i (Suc n) CDn =
     (let CDn = key_shift_left CDn;
          CDn = (if i > 1 \<and> i \<noteq> 8 \<and> i \<noteq> 15 then key_shift_left CDn else CDn)
      in shuffle CDn PC2_shuffle # gen_key_loop (Suc i) n CDn)"

definition gen_roundkeys :: "u64 \<Rightarrow> u64 list" where
  "gen_roundkeys key = gen_key_loop 0 16 (shuffle key PC1_shuffle)"

section \<open>Blocks\<close>

definition des_round :: "u64 \<Rightarrow> u64 \<Rightarrow> u64" where
  "des_round k inp =
     (let f_res = f_func (ucast inp) k
      in (push_bit 32 inp OR drop_bit 32 inp) XOR ucast f_res)"

definition des_encdec :: "u64 \<Rightarrow> u64 list \<Rightarrow> bool \<Rightarrow> u64" where
  "des_encdec inp K decrypt =
     (let dec = (if decrypt then 15 else 0);
          inp = shuffle inp IP_shuffle;
          inp = fold (\<lambda>i. des_round (K ! (dec XOR i))) [0..<16] inp;
          inp = push_bit 32 inp OR drop_bit 32 inp
      in shuffle_inv inp IP_shuffle)"

record AVDES =
  round_keys :: "u64 list list"
  triple_des :: bool

definition av_des_init :: "AVDES \<Rightarrow> u8 list \<Rightarrow> int \<Rightarrow> int \<times> AVDES" where
  "av_des_init d key key_bits =
     (if key_bits \<noteq> 64 \<and> key_bits \<noteq> 192 then (EINVAL, d)
      else
        (let ks = (round_keys d)[0 := gen_roundkeys (AV_RB64 key)];
             ks = (if key_bits > 64
                   then ks[1 := gen_roundkeys (AV_RB64 (drop 8 key)), 2 := gen_roundkeys (AV_RB64 (drop 16 key))]
                   else ks)
         in (0, \<lparr>round_keys = ks, triple_des = (key_bits > 64)\<rparr>)))"

definition des_decrypt_val :: "AVDES \<Rightarrow> u64 \<Rightarrow> u64" where
  "des_decrypt_val d v =
     (let v = (if triple_des d
               then des_encdec (des_encdec v (round_keys d ! 2) True) (round_keys d ! 1) False
               else v)
      in des_encdec v (round_keys d ! 0) True)"

definition des_encrypt_val :: "AVDES \<Rightarrow> u64 \<Rightarrow> u64" where
  "des_encrypt_val d v =
     (let v = des_encdec v (round_keys d ! 0) False
      in if triple_des d
         then des_encdec (des_encdec v (round_keys d ! 1) True) (round_keys d ! 2) False
         else v)"

text \<open>The loop of \<open>av_des_crypt_mac\<close> returns the values written to \<open>dst\<close>, one per block, and \<open>iv_val\<close>. A null
  \<open>src\<close> is \<open>None\<close> and reads as zero; \<open>src += 8\<close> then makes a pointer that is not null and points to
  nothing, \<open>Some []\<close>.\<close>

fun des_loop :: "AVDES \<Rightarrow> nat \<Rightarrow> u8 list option \<Rightarrow> bool \<Rightarrow> u64 \<Rightarrow> bool \<Rightarrow> (u64 list \<times> u64) option" where
  "des_loop d 0 src has_iv iv_val decrypt = Some ([], iv_val)"
| "des_loop d (Suc count) src has_iv iv_val decrypt =
     Option.bind (case src of None \<Rightarrow> Some 0 | Some s \<Rightarrow> map_option AV_RB64 (load s 0 8)) (\<lambda>src_val.
       (let dst_val = (if decrypt then des_decrypt_val d src_val XOR iv_val
                       else des_encrypt_val d (src_val XOR iv_val));
            iv_val = (if has_iv then (if decrypt then src_val else dst_val) else 0)
        in Option.bind (des_loop d count (Some (case src of None \<Rightarrow> [] | Some s \<Rightarrow> drop 8 s)) has_iv iv_val decrypt)
             (\<lambda>(vals, iv_val). Some (dst_val # vals, iv_val))))"

text \<open>\<open>mac\<close> keeps \<open>dst\<close> where it is, so that the last block overwrites the others.\<close>

definition av_des_crypt_mac ::
    "AVDES \<Rightarrow> nat \<Rightarrow> u8 list option \<Rightarrow> u8 list option \<Rightarrow> bool \<Rightarrow> bool \<Rightarrow> (u8 list \<times> u8 list option) option" where
  "av_des_crypt_mac d count src iv decrypt mac =
     Option.bind (des_loop d count src (iv \<noteq> None) (case iv of None \<Rightarrow> 0 | Some v \<Rightarrow> AV_RB64 v) decrypt) (\<lambda>(vals, iv_val).
       Some (if mac then (if vals = [] then [] else AV_WB64 (last vals)) else concat (map AV_WB64 vals),
             case iv of None \<Rightarrow> None | Some _ \<Rightarrow> Some (AV_WB64 iv_val)))"

definition av_des_crypt ::
    "AVDES \<Rightarrow> nat \<Rightarrow> u8 list option \<Rightarrow> u8 list option \<Rightarrow> bool \<Rightarrow> (u8 list \<times> u8 list option) option" where
  "av_des_crypt d count src iv decrypt = av_des_crypt_mac d count src iv decrypt False"

definition av_des_mac :: "AVDES \<Rightarrow> nat \<Rightarrow> u8 list option \<Rightarrow> u8 list option" where
  "av_des_mac d count src = map_option fst (av_des_crypt_mac d count src (Some (replicate 8 0)) False True)"

section \<open>The permutations are inverse to each other\<close>

lemma shuffle_snoc: "shuffle inp (sh @ [s]) = push_bit 1 (shuffle inp sh) OR (drop_bit s inp AND 1)"
proof -
  let ?r = "shuffle inp sh" and ?b = "drop_bit s inp AND 1"
  have "?r + (?r + ?b) = push_bit 1 ?r + ?b"
    by (simp add: push_bit_eq_mult)
  also have "push_bit 1 ?r AND ?b = 0"
    by (rule bit_word_eqI) (simp only: bit_simps, auto simp: bit_1_iff)
  then have "push_bit 1 ?r + ?b = push_bit 1 ?r OR ?b"
    by (rule disjunctive_add_eq_or)
  finally show ?thesis by (simp add: shuffle_def)
qed

lemma bit_shuffle:
  "bit (shuffle inp sh) n \<longleftrightarrow> n < length sh \<and> n < 64 \<and> bit inp (rev sh ! n)"
proof (induction sh arbitrary: n rule: rev_induct)
  case Nil
  then show ?case by (simp add: shuffle_def)
next
  case (snoc s sh)
  have e: "bit (shuffle inp (sh @ [s])) n \<longleftrightarrow> (if n = 0 then bit inp s else n < 64 \<and> bit (shuffle inp sh) (n - 1))"
    unfolding shuffle_snoc by (simp only: bit_simps) (auto simp: bit_1_iff)
  show ?case unfolding e snoc by (cases n) auto
qed

lemma bit_shuffle_inv_fold:
  "bit (fst (fold shuffle_inv_step sh (res, inp))) n \<longleftrightarrow>
     bit res n \<or> (n < 64 \<and> (\<exists>j < length sh. sh ! j = n \<and> bit inp j))"
proof (induction sh arbitrary: res inp)
  case (Cons s sh)
  have "bit (res OR push_bit s (inp AND 1)) n \<longleftrightarrow> bit res n \<or> (n < 64 \<and> s = n \<and> bit inp 0)"
    by (simp only: bit_simps) (auto simp: bit_1_iff)
  moreover have "(\<exists>j < length (s # sh). (s # sh) ! j = n \<and> bit inp j) \<longleftrightarrow>
      (s = n \<and> bit inp 0) \<or> (\<exists>j < length sh. sh ! j = n \<and> bit (drop_bit 1 inp) j)"
    by (auto simp: less_Suc_eq_0_disj bit_simps)
  moreover have st: "shuffle_inv_step s (res, inp) = (res OR push_bit s (inp AND 1), drop_bit 1 inp)"
    by (simp only: shuffle_inv_step_def prod.case)
  ultimately show ?case unfolding fold_simps st Cons by blast
qed simp

lemma bit_shuffle_inv:
  "bit (shuffle_inv inp sh) n \<longleftrightarrow> n < 64 \<and> (\<exists>j < length sh. rev sh ! j = n \<and> bit inp j)"
  unfolding shuffle_inv_def bit_shuffle_inv_fold by simp

lemma shuffle_inverses:
  assumes "length sh = 64" "distinct sh" "set sh = {..<64}"
  shows "shuffle_inv (shuffle x sh) sh = x" "shuffle (shuffle_inv x sh) sh = x"
proof -
  have s: "\<exists>j<64. rev sh ! j = n" if "n < 64" for n
    using that assms by (metis in_set_conv_nth length_rev lessThan_iff set_rev)
  have b: "rev sh ! j < 64" if "j < 64" for j
    using that assms by (metis length_rev lessThan_iff nth_mem set_rev)
  have i: "i = j" if "rev sh ! i = rev sh ! j" "i < 64" "j < 64" for i j
    using that assms by (metis distinct_rev length_rev nth_eq_iff_index_eq)
  show "shuffle_inv (shuffle x sh) sh = x"
    by (rule bit_word_eqI) (use s assms(1) in \<open>fastforce simp: bit_shuffle_inv bit_shuffle\<close>)
  show "shuffle (shuffle_inv x sh) sh = x"
    by (rule bit_word_eqI) (use b i assms(1) in \<open>force simp: bit_shuffle_inv bit_shuffle\<close>)
qed

lemma IP_inverses [simp]:
  "shuffle_inv (shuffle x IP_shuffle) IP_shuffle = x" "shuffle (shuffle_inv x IP_shuffle) IP_shuffle = x"
proof -
  have "length IP_shuffle = 64" "distinct IP_shuffle" "\<forall>x \<in> set IP_shuffle. x < 64"
    by (simp_all add: IP_shuffle_def)
  moreover from this have "set IP_shuffle = {..<64}"
    by (intro card_subset_eq) (auto simp: distinct_card)
  ultimately show "shuffle_inv (shuffle x IP_shuffle) IP_shuffle = x" "shuffle (shuffle_inv x IP_shuffle) IP_shuffle = x"
    using shuffle_inverses by auto
qed

section \<open>Decryption undoes encryption\<close>

abbreviation rot32 :: "u64 \<Rightarrow> u64" where
  "rot32 x \<equiv> push_bit 32 x OR drop_bit 32 x"

lemma rot32_rot32 [simp]: "rot32 (rot32 x) = x"
  by (rule bit_word_eqI) (auto simp: bit_simps)

lemma des_round_inverse: "des_round k (rot32 (des_round k x)) = rot32 x"
proof -
  define f where "f = f_func (ucast x) k"
  have nf: "\<not> bit f (32 + n)" for n
    using bit_imp_le_length[of f "32 + n"] by auto
  have nf': "\<not> bit f n" if "\<not> n < 32" for n
    using bit_imp_le_length[of f n] that by auto
  have r: "des_round k x = rot32 x XOR ucast f" by (simp add: des_round_def f_def Let_def)
  have r': "rot32 (des_round k x) = x XOR push_bit 32 (ucast f)"
    unfolding r by (rule bit_word_eqI) (auto simp: bit_simps nf dest: bit_imp_le_length)
  have "(ucast (x XOR push_bit 32 (ucast f)) :: u32) = ucast x"
    by (rule bit_word_eqI) (auto simp: bit_simps)
  then have "des_round k (rot32 (des_round k x)) = rot32 (x XOR push_bit 32 (ucast f)) XOR ucast f"
    unfolding r' by (simp add: des_round_def f_def Let_def)
  also have "\<dots> = rot32 x"
    by (rule bit_word_eqI) (auto simp: bit_simps nf nf')
  finally show ?thesis .
qed

lemma des_rounds_inverse:
  "fold des_round (rev ks) (rot32 (fold des_round ks x)) = rot32 x"
proof (induction ks arbitrary: x)
  case (Cons k ks)
  show ?case by (simp only: rev.simps fold_append fold_simps comp_apply Cons des_round_inverse)
qed simp

lemma round_keys_order:
  "fold (\<lambda>i. des_round (K ! (0 XOR i))) [0..<16] = fold des_round (map ((!) K) [0..<16])"
  "fold (\<lambda>i. des_round (K ! (15 XOR i))) [0..<16] = fold des_round (rev (map ((!) K) [0..<16]))"
proof -
  have u: "[0..<16] = [0, 1, 2, 3, 4, 5, 6, 7, 8, 9, 10, 11, 12, 13, 14, 15]"
    by (simp add: upt_rec)
  have e: "map (\<lambda>i. K ! (15 XOR i)) [0..<16] = rev (map ((!) K) [0..<16])"
    unfolding u by simp (simp add: numeral_3_eq_3)
  show "fold (\<lambda>i. des_round (K ! (15 XOR i))) [0..<16] = fold des_round (rev (map ((!) K) [0..<16]))"
    unfolding e[symmetric] fold_map comp_def ..
  show "fold (\<lambda>i. des_round (K ! (0 XOR i))) [0..<16] = fold des_round (map ((!) K) [0..<16])"
    unfolding fold_map comp_def xor.left_neutral ..
qed

lemma des_encdec_inverse: "des_encdec (des_encdec x K b) K (\<not> b) = x"
proof -
  let ?K = "map ((!) K) [0..<16]"
  have f: "des_encdec x K False = shuffle_inv (rot32 (fold des_round ?K (shuffle x IP_shuffle))) IP_shuffle" for x
    unfolding des_encdec_def Let_def if_False round_keys_order ..
  have t: "des_encdec x K True = shuffle_inv (rot32 (fold des_round (rev ?K) (shuffle x IP_shuffle))) IP_shuffle" for x
    unfolding des_encdec_def Let_def if_True round_keys_order ..
  have r: "fold des_round ?K (rot32 (fold des_round (rev ?K) x)) = rot32 x" for x
    using des_rounds_inverse[of "rev ?K"] by (simp only: rev_rev_ident)
  show ?thesis
    by (cases b) (simp_all only: f t r IP_inverses des_rounds_inverse rot32_rot32 not_True_eq_False not_False_eq_True)
qed

lemma des_val_inverse: "des_decrypt_val d (des_encrypt_val d v) = v"
  using des_encdec_inverse[of _ "round_keys d ! 0" False] des_encdec_inverse[of _ "round_keys d ! 1" True]
    des_encdec_inverse[of _ "round_keys d ! 2" False]
  by (simp add: des_decrypt_val_def des_encrypt_val_def Let_def)

section \<open>The interface to the modes\<close>

definition des_block :: "AVDES \<Rightarrow> u8 list \<Rightarrow> bool \<Rightarrow> u8 list option \<Rightarrow> u8 list \<times> u8 list option" where
  "des_block d src decrypt iv =
     (if decrypt
      then (AV_WB64 (des_decrypt_val d (AV_RB64 src) XOR (case iv of None \<Rightarrow> 0 | Some v \<Rightarrow> AV_RB64 v)),
            map_option (\<lambda>_. src) iv)
      else (AV_WB64 (des_encrypt_val d (AV_RB64 src)), iv))"

interpretation des: block_cipher 8 "des_block d" for d
  by unfold_locales (auto simp: des_block_def des_val_inverse WB64_xor)

text \<open>The values and the vector that the loop keeps as words are the blocks of the interface's loop.\<close>

lemma des_loop_blocks:
  assumes "\<And>v. iv = Some v \<Longrightarrow> length v = 8"
  shows "crypt_loop 8 (des_block d) n src iv decrypt =
     map_option (\<lambda>(vals, v). (concat (map AV_WB64 vals), if iv = None then None else Some (AV_WB64 v)))
       (des_loop d n (Some src) (iv \<noteq> None) (case iv of None \<Rightarrow> 0 | Some v \<Rightarrow> AV_RB64 v) decrypt)"
  using assms
proof (induction n arbitrary: src iv)
  case 0
  then show ?case by (cases iv) auto
next
  case (Suc n)
  show ?case
  proof (cases "load src 0 8")
    case (Some b)
    then have l: "length b = 8" by (auto simp: load_def split: if_splits)
    show ?thesis
    proof (cases iv)
      case None
      then show ?thesis
        using Suc.IH[of None "drop 8 src"] Some
        by (cases decrypt; cases "des_loop d n (Some (drop 8 src)) False 0 decrypt") (auto simp: des_block_def Let_def)
    next
      case iv: (Some v)
      then have lv: "length v = 8" using Suc.prems by simp
      have x: "AV_RB64 (xor_bytes b v) = AV_RB64 b XOR AV_RB64 v" using l lv by (rule RB64_xor)
      let ?e = "des_encrypt_val d (AV_RB64 b XOR AV_RB64 v)"
      show ?thesis
        using Suc.IH[of "Some b" "drop 8 src"] Suc.IH[of "Some (AV_WB64 ?e)" "drop 8 src"] Some iv l
        by (cases decrypt; cases "des_loop d n (Some (drop 8 src)) True (AV_RB64 b) True";
            cases "des_loop d n (Some (drop 8 src)) True ?e False")
          (auto simp: des_block_def Let_def x split: prod.splits)
    qed
  qed simp
qed

lemma av_des_crypt_loop:
  assumes "\<And>v. iv = Some v \<Longrightarrow> length v = 8"
  shows "av_des_crypt d n (Some src) iv decrypt = crypt_loop 8 (des_block d) n src iv decrypt"
  using des_loop_blocks[of iv d n src decrypt] assms unfolding av_des_crypt_def av_des_crypt_mac_def
  by (cases iv; cases "des_loop d n (Some src) (iv \<noteq> None) (case iv of None \<Rightarrow> 0 | Some v \<Rightarrow> AV_RB64 v) decrypt") auto

lemma des_loop_length: "des_loop d n src b v decrypt = Some (vals, w) \<Longrightarrow> length vals = n"
  by (induction d n src b v decrypt arbitrary: vals w rule: des_loop.induct)
    (auto simp: bind_eq_Some_conv Let_def split: prod.splits)

lemma drop_last_block: "vals \<noteq> [] \<Longrightarrow> drop (8 * (length vals - 1)) (concat (map AV_WB64 vals)) = AV_WB64 (last vals)"
  by (induction vals rule: rev_induct) (auto simp: length_concat comp_def sum_list_triv)

section \<open>The two builds\<close>

text \<open>The nibble of S-box \<open>i\<close> reaches bit \<open>28 - 4 i\<close> in the \<open>CONFIG_SMALL\<close> build, where P takes it to the bits of the
  table's entry.\<close>

definition P_nib :: "nat \<Rightarrow> u64 \<Rightarrow> u32" where
  "P_nib k n = ucast (shuffle (push_bit k n) P_shuffle)"

lemma P_nib_0:
  "P_nib 0 0 = 0"
  "P_nib 0 1 = 2048"
  "P_nib 0 2 = 131072"
  "P_nib 0 3 = 133120"
  "P_nib 0 4 = 32"
  "P_nib 0 5 = 2080"
  "P_nib 0 6 = 131104"
  "P_nib 0 7 = 133152"
  "P_nib 0 8 = 134217728"
  "P_nib 0 9 = 134219776"
  "P_nib 0 10 = 134348800"
  "P_nib 0 11 = 134350848"
  "P_nib 0 12 = 134217760"
  "P_nib 0 13 = 134219808"
  "P_nib 0 14 = 134348832"
  "P_nib 0 15 = 134350880"
  by (simp_all add: P_nib_def shuffle_def P_shuffle_def)

lemma P_nib_4:
  "P_nib 4 0 = 0"
  "P_nib 4 1 = 33554432"
  "P_nib 4 2 = 1024"
  "P_nib 4 3 = 33555456"
  "P_nib 4 4 = 1048576"
  "P_nib 4 5 = 34603008"
  "P_nib 4 6 = 1049600"
  "P_nib 4 7 = 34604032"
  "P_nib 4 8 = 1"
  "P_nib 4 9 = 33554433"
  "P_nib 4 10 = 1025"
  "P_nib 4 11 = 33555457"
  "P_nib 4 12 = 1048577"
  "P_nib 4 13 = 34603009"
  "P_nib 4 14 = 1049601"
  "P_nib 4 15 = 34604033"
  by (simp_all add: P_nib_def shuffle_def P_shuffle_def)

lemma P_nib_8:
  "P_nib 8 0 = 0"
  "P_nib 8 1 = 8192"
  "P_nib 8 2 = 2097152"
  "P_nib 8 3 = 2105344"
  "P_nib 8 4 = 8"
  "P_nib 8 5 = 8200"
  "P_nib 8 6 = 2097160"
  "P_nib 8 7 = 2105352"
  "P_nib 8 8 = 268435456"
  "P_nib 8 9 = 268443648"
  "P_nib 8 10 = 270532608"
  "P_nib 8 11 = 270540800"
  "P_nib 8 12 = 268435464"
  "P_nib 8 13 = 268443656"
  "P_nib 8 14 = 270532616"
  "P_nib 8 15 = 270540808"
  by (simp_all add: P_nib_def shuffle_def P_shuffle_def)

lemma P_nib_12:
  "P_nib 12 0 = 0"
  "P_nib 12 1 = 536870912"
  "P_nib 12 2 = 128"
  "P_nib 12 3 = 536871040"
  "P_nib 12 4 = 262144"
  "P_nib 12 5 = 537133056"
  "P_nib 12 6 = 262272"
  "P_nib 12 7 = 537133184"
  "P_nib 12 8 = 16777216"
  "P_nib 12 9 = 553648128"
  "P_nib 12 10 = 16777344"
  "P_nib 12 11 = 553648256"
  "P_nib 12 12 = 17039360"
  "P_nib 12 13 = 553910272"
  "P_nib 12 14 = 17039488"
  "P_nib 12 15 = 553910400"
  by (simp_all add: P_nib_def shuffle_def P_shuffle_def)

lemma P_nib_16:
  "P_nib 16 0 = 0"
  "P_nib 16 1 = 2147483648"
  "P_nib 16 2 = 4194304"
  "P_nib 16 3 = 2151677952"
  "P_nib 16 4 = 4096"
  "P_nib 16 5 = 2147487744"
  "P_nib 16 6 = 4198400"
  "P_nib 16 7 = 2151682048"
  "P_nib 16 8 = 64"
  "P_nib 16 9 = 2147483712"
  "P_nib 16 10 = 4194368"
  "P_nib 16 11 = 2151678016"
  "P_nib 16 12 = 4160"
  "P_nib 16 13 = 2147487808"
  "P_nib 16 14 = 4198464"
  "P_nib 16 15 = 2151682112"
  by (simp_all add: P_nib_def shuffle_def P_shuffle_def)

lemma P_nib_20:
  "P_nib 20 0 = 0"
  "P_nib 20 1 = 67108864"
  "P_nib 20 2 = 4"
  "P_nib 20 3 = 67108868"
  "P_nib 20 4 = 65536"
  "P_nib 20 5 = 67174400"
  "P_nib 20 6 = 65540"
  "P_nib 20 7 = 67174404"
  "P_nib 20 8 = 256"
  "P_nib 20 9 = 67109120"
  "P_nib 20 10 = 260"
  "P_nib 20 11 = 67109124"
  "P_nib 20 12 = 65792"
  "P_nib 20 13 = 67174656"
  "P_nib 20 14 = 65796"
  "P_nib 20 15 = 67174660"
  by (simp_all add: P_nib_def shuffle_def P_shuffle_def)

lemma P_nib_24:
  "P_nib 24 0 = 0"
  "P_nib 24 1 = 16384"
  "P_nib 24 2 = 1073741824"
  "P_nib 24 3 = 1073758208"
  "P_nib 24 4 = 16"
  "P_nib 24 5 = 16400"
  "P_nib 24 6 = 1073741840"
  "P_nib 24 7 = 1073758224"
  "P_nib 24 8 = 524288"
  "P_nib 24 9 = 540672"
  "P_nib 24 10 = 1074266112"
  "P_nib 24 11 = 1074282496"
  "P_nib 24 12 = 524304"
  "P_nib 24 13 = 540688"
  "P_nib 24 14 = 1074266128"
  "P_nib 24 15 = 1074282512"
  by (simp_all add: P_nib_def shuffle_def P_shuffle_def)

lemma P_nib_28:
  "P_nib 28 0 = 0"
  "P_nib 28 1 = 2"
  "P_nib 28 2 = 512"
  "P_nib 28 3 = 514"
  "P_nib 28 4 = 32768"
  "P_nib 28 5 = 32770"
  "P_nib 28 6 = 33280"
  "P_nib 28 7 = 33282"
  "P_nib 28 8 = 8388608"
  "P_nib 28 9 = 8388610"
  "P_nib 28 10 = 8389120"
  "P_nib 28 11 = 8389122"
  "P_nib 28 12 = 8421376"
  "P_nib 28 13 = 8421378"
  "P_nib 28 14 = 8421888"
  "P_nib 28 15 = 8421890"
  by (simp_all add: P_nib_def shuffle_def P_shuffle_def)

definition P_entry :: "nat \<Rightarrow> u64 \<Rightarrow> u32" where
  "P_entry i tmp = P_nib (28 - 4 * i) (ucast (small_box i tmp) AND 15)"

lemma box_0: "map (P_entry 0) (map of_nat [0..<64]) = S_boxes_P_shuffle ! 0"
  by (simp add: upt_rec P_entry_def small_box_def S_boxes_def S_boxes_P_shuffle_def P_nib_28)

lemma box_1: "map (P_entry 1) (map of_nat [0..<64]) = S_boxes_P_shuffle ! 1"
  by (simp add: upt_rec P_entry_def small_box_def S_boxes_def S_boxes_P_shuffle_def P_nib_24)

lemma box_2: "map (P_entry 2) (map of_nat [0..<64]) = S_boxes_P_shuffle ! 2"
  by (simp add: upt_rec P_entry_def small_box_def S_boxes_def S_boxes_P_shuffle_def P_nib_20)

lemma box_3: "map (P_entry 3) (map of_nat [0..<64]) = S_boxes_P_shuffle ! 3"
  by (simp add: upt_rec P_entry_def small_box_def S_boxes_def S_boxes_P_shuffle_def P_nib_16)

lemma box_4: "map (P_entry 4) (map of_nat [0..<64]) = S_boxes_P_shuffle ! 4"
  by (simp add: upt_rec P_entry_def small_box_def S_boxes_def S_boxes_P_shuffle_def P_nib_12)

lemma box_5: "map (P_entry 5) (map of_nat [0..<64]) = S_boxes_P_shuffle ! 5"
  by (simp add: upt_rec P_entry_def small_box_def S_boxes_def S_boxes_P_shuffle_def P_nib_8)

lemma box_6: "map (P_entry 6) (map of_nat [0..<64]) = S_boxes_P_shuffle ! 6"
  by (simp add: upt_rec P_entry_def small_box_def S_boxes_def S_boxes_P_shuffle_def P_nib_4)

lemma box_7: "map (P_entry 7) (map of_nat [0..<64]) = S_boxes_P_shuffle ! 7"
  by (simp add: upt_rec P_entry_def small_box_def S_boxes_def S_boxes_P_shuffle_def P_nib_0)

lemma S_boxes_P_shuffle_entry:
  assumes "i < 8"
  shows "S_boxes_P_shuffle ! i ! unat (x AND 0x3f) = P_entry i (x AND 0x3f)"
proof -
  have lt: "unat (x AND 0x3f) < 64"
    using word_and_le1[of x "0x3f"] by (simp add: word_le_nat_alt)
  then have "P_entry i (x AND 0x3f) = map (P_entry i) (map of_nat [0..<64]) ! unat (x AND 0x3f)"
    by (simp add: nth_map)
  moreover have "i = 0 \<or> i = 1 \<or> i = 2 \<or> i = 3 \<or> i = 4 \<or> i = 5 \<or> i = 6 \<or> i = 7"
    using assms by linarith
  then have "map (P_entry i) (map of_nat [0..<64]) = S_boxes_P_shuffle ! i"
    using box_0 box_1 box_2 box_3 box_4 box_5 box_6 box_7 by (elim disjE) simp_all
  ultimately show ?thesis by simp
qed

definition P_word :: "u32 \<Rightarrow> u32" where
  "P_word x = ucast (shuffle (ucast x) P_shuffle)"

lemma P_word_or: "P_word (x OR y) = P_word x OR P_word y"
  unfolding P_word_def by (rule bit_word_eqI) (auto simp: bit_simps bit_shuffle dest: bit_imp_le_length)

lemma P_word_nibble:
  assumes "i < 8"
  shows "P_word (drop_bit (4 * i) (push_bit 28 (ucast (v :: u8)))) = P_nib (28 - 4 * i) (ucast v AND 15)"
proof -
  have "mask 4 = (15 :: u64)" by (simp add: mask_eq_exp_minus_1)
  then have m: "ucast v AND 15 = (take_bit 4 (ucast v) :: u64)" by (simp add: take_bit_eq_mask)
  have "(ucast (drop_bit (4 * i) (push_bit 28 (ucast v)) :: u32) :: u64) = push_bit (28 - 4 * i) (ucast v AND 15)"
    unfolding m
  proof (rule bit_word_eqI)
    fix n assume "n < LENGTH(64)"
    have "4 * i + n - 28 = n - (28 - 4 * i)" "28 \<le> 4 * i + n \<longleftrightarrow> 28 - 4 * i \<le> n"
      "4 * i + n < 32 \<longleftrightarrow> n - (28 - 4 * i) < 4" if "28 \<le> 4 * i + n"
      using that assms by linarith+
    then show "bit (ucast (drop_bit (4 * i) (push_bit 28 (ucast v)) :: u32) :: u64) n \<longleftrightarrow>
        bit (push_bit (28 - 4 * i) (take_bit 4 (ucast v :: u64))) n"
      using assms \<open>n < LENGTH(64)\<close> by (cases "28 \<le> 4 * i + n") (simp_all add: bit_simps, auto dest: bit_imp_le_length)
  qed
  then show ?thesis by (simp add: P_word_def P_nib_def)
qed

lemma f_steps:
  assumes "n \<le> 8"
  shows "\<exists>X r' k'. fold f_step_small (rev [0..<n]) (out, r, k) = (drop_bit (4 * n) out OR X, r', k') \<and>
     (\<forall>out'. fold f_step (rev [0..<n]) (out', r, k) = (out' OR P_word X, r', k'))"
  using assms
proof (induction n arbitrary: out r k)
  case 0
  show ?case by (rule exI[of _ 0]) (simp add: P_word_def shuffle_def P_shuffle_def)
next
  case (Suc n)
  define tmp where "tmp = ((ucast r XOR k) AND 0x3f)"
  define v where "v = small_box n tmp"
  define out1 where "out1 = drop_bit 4 out OR push_bit 28 (ucast v)"
  let ?r = "drop_bit 4 r OR push_bit 28 r" and ?k = "drop_bit 6 k"
  obtain X r' k' where IH: "fold f_step_small (rev [0..<n]) (out1, ?r, ?k) = (drop_bit (4 * n) out1 OR X, r', k')"
      "\<And>out'. fold f_step (rev [0..<n]) (out', ?r, ?k) = (out' OR P_word X, r', k')"
    using Suc.IH[of out1 ?r ?k] Suc.prems by auto
  let ?X = "drop_bit (4 * n) (push_bit 28 (ucast v)) OR X"
  have s: "f_step_small n (out, r, k) = (out1, ?r, ?k)"
    by (simp add: f_step_small_def Let_def tmp_def v_def out1_def)
  have "S_boxes_P_shuffle ! n ! unat tmp = P_word (drop_bit (4 * n) (push_bit 28 (ucast v)))"
    using S_boxes_P_shuffle_entry[of n "ucast r XOR k"] P_word_nibble[of n v] Suc.prems
    by (simp add: tmp_def v_def P_entry_def)
  then have t: "f_step n (out', r, k) = (out' OR P_word (drop_bit (4 * n) (push_bit 28 (ucast v))), ?r, ?k)" for out'
    by (simp add: f_step_def Let_def tmp_def)
  have "drop_bit (4 * n) out1 OR X = drop_bit (4 * Suc n) out OR ?X"
    by (simp add: out1_def or.assoc add.commute)
  then have "fold f_step_small (rev [0..<Suc n]) (out, r, k) = (drop_bit (4 * Suc n) out OR ?X, r', k')"
    using IH(1) s by simp
  moreover have "fold f_step (rev [0..<Suc n]) (out', r, k) = (out' OR P_word ?X, r', k')" for out'
    using IH(2) t by (simp add: P_word_or or.assoc)
  ultimately show ?case by blast
qed

section \<open>Properties\<close>

text \<open>C17: The round function of the default build, which looks up the composed table \<open>S_boxes_P_shuffle\<close>, is the one
  of the \<open>CONFIG_SMALL\<close> build, which evaluates the S-boxes and applies the permutation P: every
  one of the 512 entries of the generated table is right.\<close>

theorem des_tables_agree: "f_func r k = f_func_small r k"
proof -
  have u: "rev [0..<8] = [7, 6, 5, 4, 3, 2, 1, 0]" by (simp add: upt_rec)
  obtain X r' k' where
    "fold f_step_small (rev [0..<8]) (0, push_bit 1 r OR drop_bit 31 r, k) = (drop_bit (4 * 8) 0 OR X, r', k')"
    "fold f_step (rev [0..<8]) (0, push_bit 1 r OR drop_bit 31 r, k) = (0 OR P_word X, r', k')"
    using f_steps[of 8 0 "push_bit 1 r OR drop_bit 31 r" k] by auto
  then show ?thesis unfolding f_func_def f_func_small_def u by (simp add: P_word_def)
qed

text \<open>C18: DES and triple DES decryption undo encryption for any round keys and any number of blocks, chained or not,
  and both directions leave the same vector; and the message authentication code is the last block of
  the chained encryption with a zero vector.\<close>

theorem des_roundtrip:
  assumes "length src = n * 8" "iv = None \<or> (\<exists>v. iv = Some v \<and> length v = 8)" "0 < n"
  shows "(\<exists>dst iv'. av_des_crypt d n (Some src) iv False = Some (dst, iv') \<and> length dst = n * 8 \<and>
        av_des_crypt d n (Some dst) iv True = Some (src, iv')) \<and>
     av_des_mac d n (Some src) =
       map_option (\<lambda>(dst, _). drop (8 * (n - 1)) dst) (av_des_crypt d n (Some src) (Some (replicate 8 0)) False)"
proof
  have iv: "\<And>v. iv = Some v \<Longrightarrow> length v = 8" using assms(2) by auto
  show "\<exists>dst iv'. av_des_crypt d n (Some src) iv False = Some (dst, iv') \<and> length dst = n * 8 \<and>
        av_des_crypt d n (Some dst) iv True = Some (src, iv')"
    using des.roundtrip[OF assms(1), of iv d] iv by (simp add: av_des_crypt_loop)
  show "av_des_mac d n (Some src) =
       map_option (\<lambda>(dst, _). drop (8 * (n - 1)) dst) (av_des_crypt d n (Some src) (Some (replicate 8 0)) False)"
  proof (cases "des_loop d n (Some src) True (AV_RB64 (replicate 8 0)) False")
    case (Some vw)
    obtain vals w where vw: "vw = (vals, w)" by (cases vw)
    then have "length vals = n" using Some by (simp add: des_loop_length)
    then show ?thesis
      using drop_last_block[of vals] Some assms(3)
      by (auto simp: av_des_mac_def av_des_crypt_def av_des_crypt_mac_def vw)
  qed (simp add: av_des_mac_def av_des_crypt_def av_des_crypt_mac_def)
qed

theorem des_roundtrip_witness:
  "\<exists>dst iv'. av_des_crypt \<lparr>round_keys = [gen_roundkeys 1, gen_roundkeys 2, gen_roundkeys 3], triple_des = True\<rparr> 2
        (Some (replicate 16 7)) (Some (replicate 8 9)) False = Some (dst, iv') \<and>
     av_des_crypt \<lparr>round_keys = [gen_roundkeys 1, gen_roundkeys 2, gen_roundkeys 3], triple_des = True\<rparr> 2
        (Some dst) (Some (replicate 8 9)) True = Some (replicate 16 7, iv')"
  using des_roundtrip[of "replicate 16 7" 2 "Some (replicate 8 9)"
      "\<lparr>round_keys = [gen_roundkeys 1, gen_roundkeys 2, gen_roundkeys 3], triple_des = True\<rparr>"] by auto

text \<open>A null source is allowed and stands for zeros, but only in the first block: with more than one block,
  \<open>src += 8\<close> has made it a pointer that is no longer null, and the second block is read
  through it.\<close>

theorem des_null_source: "(\<exists>r. av_des_crypt d n None iv decrypt = Some r) \<longleftrightarrow> n \<le> 1"
proof -
  have l: "load [] 0 8 = (None :: u8 list option)" by (simp add: load_def)
  consider "n = 0" | "n = 1" | m where "n = Suc (Suc m)" by (metis One_nat_def not0_implies_Suc)
  then show ?thesis
    by cases (auto simp: av_des_crypt_def av_des_crypt_mac_def Let_def l split: prod.splits)
qed
end
