(* ===== verification/Tea.thy ===== *)
theory Tea
  imports Ciphers
begin

text \<open>
  libavutil/tea.c and libavutil/xtea.c. The state of a round is the pair of 32-bit halves (and the
  running sum where the code keeps one); a counting loop of the code is the iterate of its body.
  XTEA exists three times in the source: as a loop (\<open>CONFIG_SMALL\<close>), unrolled with the sums and
  the key words written out, and as a loop over little-endian words.
\<close>

section \<open>TEA\<close>

record AVTEA =
  tea_key :: "u32 list"
  tea_rounds :: nat

definition av_tea_init :: "u8 list \<Rightarrow> nat \<Rightarrow> AVTEA" where
  "av_tea_init key rounds =
     \<lparr>tea_key = map (\<lambda>i. AV_RB32 (drop (4 * i) key)) [0..<4], tea_rounds = rounds\<rparr>"

definition delta :: u32 where "delta = 0x9E3779B9"

definition tea_mix :: "u32 \<Rightarrow> u32 \<Rightarrow> u32 \<Rightarrow> u32 \<Rightarrow> u32" where
  "tea_mix v s ka kb = (push_bit 4 v + ka) XOR (v + s) XOR (drop_bit 5 v + kb)"

definition tea_enc_step :: "u32 list \<Rightarrow> u32 \<times> u32 \<times> u32 \<Rightarrow> u32 \<times> u32 \<times> u32" where
  "tea_enc_step k = (\<lambda>(v0, v1, sum).
     (let sum = sum + delta;
          v0 = v0 + tea_mix v1 sum (k ! 0) (k ! 1);
          v1 = v1 + tea_mix v0 sum (k ! 2) (k ! 3)
      in (v0, v1, sum)))"

definition tea_dec_step :: "u32 list \<Rightarrow> u32 \<times> u32 \<times> u32 \<Rightarrow> u32 \<times> u32 \<times> u32" where
  "tea_dec_step k = (\<lambda>(v0, v1, sum).
     (let v1 = v1 - tea_mix v0 sum (k ! 2) (k ! 3);
          v0 = v0 - tea_mix v1 sum (k ! 0) (k ! 1);
          sum = sum - delta
      in (v0, v1, sum)))"

definition tea_crypt_ecb :: "AVTEA \<Rightarrow> u8 list \<Rightarrow> bool \<Rightarrow> u8 list option \<Rightarrow> u8 list \<times> u8 list option" where
  "tea_crypt_ecb ctx src decrypt iv =
     (let n = tea_rounds ctx div 2; k = tea_key ctx;
          v0 = AV_RB32 src; v1 = AV_RB32 (drop 4 src);
          (v0, v1, sum) =
            (if decrypt then (tea_dec_step k ^^ n) (v0, v1, delta * of_nat n)
             else (tea_enc_step k ^^ n) (v0, v1, 0))
      in finish_be src decrypt iv (v0, v1))"

definition av_tea_crypt ::
    "AVTEA \<Rightarrow> nat \<Rightarrow> u8 list \<Rightarrow> u8 list option \<Rightarrow> bool \<Rightarrow> (u8 list \<times> u8 list option) option" where
  "av_tea_crypt ctx count src iv decrypt = crypt_loop 8 (tea_crypt_ecb ctx) count src iv decrypt"

section \<open>XTEA\<close>

definition av_xtea_init :: "u8 list \<Rightarrow> u32 list" where
  "av_xtea_init key = map (\<lambda>i. AV_RB32 (drop (4 * i) key)) [0..<4]"

definition av_xtea_le_init :: "u8 list \<Rightarrow> u32 list" where
  "av_xtea_le_init key = map (\<lambda>i. AV_RL32 (drop (4 * i) key)) [0..<4]"

definition xtea_mix :: "u32 \<Rightarrow> u32" where
  "xtea_mix v = (push_bit 4 v XOR drop_bit 5 v) + v"

text \<open>The loops: \<open>ctx->key[sum & 3]\<close> and \<open>ctx->key[(sum >> 11) & 3]\<close>.\<close>

definition key_lo :: "u32 list \<Rightarrow> u32 \<Rightarrow> u32" where
  "key_lo k s = k ! unat (s AND 3)"

definition key_hi :: "u32 list \<Rightarrow> u32 \<Rightarrow> u32" where
  "key_hi k s = k ! unat (drop_bit 11 s AND 3)"

definition xtea_enc_step :: "u32 list \<Rightarrow> u32 \<times> u32 \<times> u32 \<Rightarrow> u32 \<times> u32 \<times> u32" where
  "xtea_enc_step k = (\<lambda>(v0, v1, sum).
     (let v0 = v0 + (xtea_mix v1 XOR (sum + key_lo k sum));
          sum = sum + delta;
          v1 = v1 + (xtea_mix v0 XOR (sum + key_hi k sum))
      in (v0, v1, sum)))"

definition xtea_dec_step :: "u32 list \<Rightarrow> u32 \<times> u32 \<times> u32 \<Rightarrow> u32 \<times> u32 \<times> u32" where
  "xtea_dec_step k = (\<lambda>(v0, v1, sum).
     (let v1 = v1 - (xtea_mix v0 XOR (sum + key_hi k sum));
          sum = sum - delta;
          v0 = v0 - (xtea_mix v1 XOR (sum + key_lo k sum))
      in (v0, v1, sum)))"

definition xtea_small :: "u32 list \<Rightarrow> bool \<Rightarrow> u32 \<times> u32 \<Rightarrow> u32 \<times> u32" where
  "xtea_small k decrypt = (\<lambda>(v0, v1).
     (let (v0, v1, sum) =
        (if decrypt then (xtea_dec_step k ^^ 32) (v0, v1, delta * 32)
         else (xtea_enc_step k ^^ 32) (v0, v1, 0))
      in (v0, v1)))"

text \<open>The unrolled code: the arguments of \<open>ESTEP\<close> and \<open>DSTEP\<close>, in order.\<close>

definition ESTEP :: "u32 list \<Rightarrow> u32 \<times> nat \<times> nat \<Rightarrow> u32 \<times> u32 \<Rightarrow> u32 \<times> u32" where
  "ESTEP k = (\<lambda>(s, k0, k1) (v0, v1).
     (let v0 = v0 + (xtea_mix v1 XOR (s + k ! k0));
          v1 = v1 + (xtea_mix v0 XOR (s + delta + k ! k1))
      in (v0, v1)))"

definition DSTEP :: "u32 list \<Rightarrow> u32 \<times> nat \<times> nat \<Rightarrow> u32 \<times> u32 \<Rightarrow> u32 \<times> u32" where
  "DSTEP k = (\<lambda>(s, k0, k1) (v0, v1).
     (let v1 = v1 - (xtea_mix v0 XOR (s + k ! k0));
          v0 = v0 - (xtea_mix v1 XOR (s - delta + k ! k1))
      in (v0, v1)))"

definition esteps :: "(u32 \<times> nat \<times> nat) list" where
  "esteps =
    [(0x00000000, 0, 3), (0x9E3779B9, 1, 2), (0x3C6EF372, 2, 1), (0xDAA66D2B, 3, 0),
     (0x78DDE6E4, 0, 0), (0x1715609D, 1, 3), (0xB54CDA56, 2, 2), (0x5384540F, 3, 1),
     (0xF1BBCDC8, 0, 0), (0x8FF34781, 1, 0), (0x2E2AC13A, 2, 3), (0xCC623AF3, 3, 2),
     (0x6A99B4AC, 0, 1), (0x08D12E65, 1, 1), (0xA708A81E, 2, 0), (0x454021D7, 3, 3),
     (0xE3779B90, 0, 2), (0x81AF1549, 1, 1), (0x1FE68F02, 2, 1), (0xBE1E08BB, 3, 0),
     (0x5C558274, 0, 3), (0xFA8CFC2D, 1, 2), (0x98C475E6, 2, 1), (0x36FBEF9F, 3, 1),
     (0xD5336958, 0, 0), (0x736AE311, 1, 3), (0x11A25CCA, 2, 2), (0xAFD9D683, 3, 2),
     (0x4E11503C, 0, 1), (0xEC48C9F5, 1, 0), (0x8A8043AE, 2, 3), (0x28B7BD67, 3, 2)]"

definition dsteps :: "(u32 \<times> nat \<times> nat) list" where
  "dsteps =
    [(0xC6EF3720, 2, 3), (0x28B7BD67, 3, 2), (0x8A8043AE, 0, 1), (0xEC48C9F5, 1, 0),
     (0x4E11503C, 2, 3), (0xAFD9D683, 2, 2), (0x11A25CCA, 3, 1), (0x736AE311, 0, 0),
     (0xD5336958, 1, 3), (0x36FBEF9F, 1, 2), (0x98C475E6, 2, 1), (0xFA8CFC2D, 3, 0),
     (0x5C558274, 0, 3), (0xBE1E08BB, 1, 2), (0x1FE68F02, 1, 1), (0x81AF1549, 2, 0),
     (0xE3779B90, 3, 3), (0x454021D7, 0, 2), (0xA708A81E, 1, 1), (0x08D12E65, 1, 0),
     (0x6A99B4AC, 2, 3), (0xCC623AF3, 3, 2), (0x2E2AC13A, 0, 1), (0x8FF34781, 0, 0),
     (0xF1BBCDC8, 1, 3), (0x5384540F, 2, 2), (0xB54CDA56, 3, 1), (0x1715609D, 0, 0),
     (0x78DDE6E4, 0, 3), (0xDAA66D2B, 1, 2), (0x3C6EF372, 2, 1), (0x9E3779B9, 3, 0)]"

definition xtea_unrolled :: "u32 list \<Rightarrow> bool \<Rightarrow> u32 \<times> u32 \<Rightarrow> u32 \<times> u32" where
  "xtea_unrolled k decrypt v = (if decrypt then fold (DSTEP k) dsteps v else fold (ESTEP k) esteps v)"

text \<open>\<open>small\<close> is \<open>CONFIG_SMALL\<close>.\<close>

definition xtea_crypt_ecb ::
    "bool \<Rightarrow> u32 list \<Rightarrow> u8 list \<Rightarrow> bool \<Rightarrow> u8 list option \<Rightarrow> u8 list \<times> u8 list option" where
  "xtea_crypt_ecb small k src decrypt iv =
     (let v = (AV_RB32 src, AV_RB32 (drop 4 src))
      in finish_be src decrypt iv (if small then xtea_small k decrypt v else xtea_unrolled k decrypt v))"

definition xtea_le_crypt_ecb :: "u32 list \<Rightarrow> u8 list \<Rightarrow> bool \<Rightarrow> u8 list option \<Rightarrow> u8 list \<times> u8 list option" where
  "xtea_le_crypt_ecb k src decrypt iv =
     finish_le src decrypt iv (xtea_small k decrypt (AV_RL32 src, AV_RL32 (drop 4 src)))"

definition av_xtea_crypt ::
    "bool \<Rightarrow> u32 list \<Rightarrow> nat \<Rightarrow> u8 list \<Rightarrow> u8 list option \<Rightarrow> bool \<Rightarrow> (u8 list \<times> u8 list option) option" where
  "av_xtea_crypt small k count src iv decrypt = crypt_loop 8 (xtea_crypt_ecb small k) count src iv decrypt"

definition av_xtea_le_crypt ::
    "u32 list \<Rightarrow> nat \<Rightarrow> u8 list \<Rightarrow> u8 list option \<Rightarrow> bool \<Rightarrow> (u8 list \<times> u8 list option) option" where
  "av_xtea_le_crypt k count src iv decrypt = crypt_loop 8 (xtea_le_crypt_ecb k) count src iv decrypt"

section \<open>Rounds undo each other\<close>

lemma tea_step_inverse: "tea_dec_step k (tea_enc_step k s) = s"
  by (cases s) (simp add: tea_dec_step_def tea_enc_step_def Let_def)

lemma xtea_step_inverse: "xtea_dec_step k (xtea_enc_step k s) = s"
  by (cases s) (simp add: xtea_dec_step_def xtea_enc_step_def Let_def)

lemma tea_sum: "snd (snd ((tea_enc_step k ^^ n) (v0, v1, s))) = s + delta * of_nat n"
  by (induction n) (auto simp: tea_enc_step_def Let_def algebra_simps split: prod.splits)

lemma xtea_sum: "snd (snd ((xtea_enc_step k ^^ n) (v0, v1, s))) = s + delta * of_nat n"
  by (induction n) (auto simp: xtea_enc_step_def Let_def algebra_simps split: prod.splits)

lemma xtea_small_inverse: "xtea_small k True (xtea_small k False v) = v"
proof -
  obtain v0 v1 where v: "v = (v0, v1)" by (cases v)
  obtain w0 w1 s where w: "(xtea_enc_step k ^^ 32) (v0, v1, 0) = (w0, w1, s)"
    by (cases "(xtea_enc_step k ^^ 32) (v0, v1, 0)")
  then have "s = delta * 32" using xtea_sum[of 32 k v0 v1 0] by simp
  then show ?thesis
    using w funpow_inverse[of "xtea_dec_step k" "xtea_enc_step k" 32 "(v0, v1, 0)"]
    by (simp add: xtea_small_def v xtea_step_inverse)
qed

text \<open>The two tables of the unrolled code: each is the other backwards, with the sum one step on.\<close>

definition estep_inv :: "u32 \<times> nat \<times> nat \<Rightarrow> u32 \<times> nat \<times> nat" where
  "estep_inv = (\<lambda>(s, a, b). (s + delta, b, a))"

lemma dstep_estep: "DSTEP k (estep_inv x) (ESTEP k x v) = v"
  by (cases x, cases v) (simp add: DSTEP_def ESTEP_def estep_inv_def Let_def)

lemma unrolled_inverse: "xtea_unrolled k True (xtea_unrolled k False v) = v"
proof -
  have d: "dsteps = map estep_inv (rev esteps)"
    by (simp add: dsteps_def esteps_def estep_inv_def delta_def)
  have "fold (\<lambda>x. DSTEP k (estep_inv x)) (rev esteps) (fold (ESTEP k) esteps v) = v"
    by (rule fold_inverse) (rule dstep_estep)
  then show ?thesis unfolding xtea_unrolled_def d by (simp add: fold_map comp_def)
qed

text \<open>The tables are what the loop computes.\<close>

lemma esteps_table:
  "esteps = map (\<lambda>i. let s = delta * of_nat i in (s, unat (s AND 3), unat (drop_bit 11 (s + delta) AND 3))) [0..<32]"
  by (simp add: esteps_def delta_def upt_conv_Cons Let_def)

lemma fold_steps:
  "fold (ESTEP k) (map (\<lambda>i. let s = delta * of_nat i in (s, unat (s AND 3), unat (drop_bit 11 (s + delta) AND 3))) [0..<n]) (v0, v1)
     = (let (w0, w1, s) = (xtea_enc_step k ^^ n) (v0, v1, 0) in (w0, w1))"
proof (induction n)
  case (Suc n)
  obtain w0 w1 s where w: "(xtea_enc_step k ^^ n) (v0, v1, 0) = (w0, w1, s)" by (cases "(xtea_enc_step k ^^ n) (v0, v1, 0)")
  then have "s = delta * of_nat n" using xtea_sum[of n k v0 v1 0] by simp
  then show ?case
    using Suc w by (simp add: ESTEP_def xtea_enc_step_def Let_def key_lo_def key_hi_def)
qed simp

lemma unrolled_is_loop: "xtea_unrolled k decrypt v = xtea_small k decrypt v"
proof -
  have e: "xtea_unrolled k False v = xtea_small k False v" for v
    by (cases v) (simp add: xtea_unrolled_def xtea_small_def esteps_table fold_steps)
  have "xtea_unrolled k True v = xtea_small k True v"
  proof -
    obtain u where u: "xtea_small k False u = v"
      using finite_UNIV_inj_surj[OF finite_class.finite_UNIV inj_on_inverseI[of UNIV "xtea_small k True" "xtea_small k False"]]
        xtea_small_inverse by (metis surj_def)
    then show ?thesis using unrolled_inverse[of k u] xtea_small_inverse[of k u] e[of u] by simp
  qed
  then show ?thesis using e by (cases decrypt) auto
qed

section \<open>Instances of the block cipher interface\<close>

definition tea_pair :: "AVTEA \<Rightarrow> bool \<Rightarrow> u32 \<times> u32 \<Rightarrow> u32 \<times> u32" where
  "tea_pair ctx decrypt v =
     (let n = tea_rounds ctx div 2; k = tea_key ctx;
          (v0, v1, sum) =
            (if decrypt then (tea_dec_step k ^^ n) (fst v, snd v, delta * of_nat n)
             else (tea_enc_step k ^^ n) (fst v, snd v, 0))
      in (v0, v1))"

lemma tea_pair_inverse: "tea_pair ctx True (tea_pair ctx False v) = v"
proof -
  let ?n = "tea_rounds ctx div 2" and ?k = "tea_key ctx"
  obtain w0 w1 s where w: "(tea_enc_step ?k ^^ ?n) (fst v, snd v, 0) = (w0, w1, s)"
    by (cases "(tea_enc_step ?k ^^ ?n) (fst v, snd v, 0)")
  then have "s = delta * of_nat ?n" using tea_sum[of ?n ?k "fst v" "snd v" 0] by simp
  then show ?thesis
    using w funpow_inverse[of "tea_dec_step ?k" "tea_enc_step ?k" ?n "(fst v, snd v, 0)"]
    by (simp add: tea_pair_def tea_step_inverse)
qed

lemma tea_crypt_ecb_pair:
  "tea_crypt_ecb ctx = (\<lambda>src decrypt iv. finish_be src decrypt iv
     ((if decrypt then tea_pair ctx True else tea_pair ctx False) (AV_RB32 src, AV_RB32 (drop 4 src))))"
  by (intro ext) (simp add: tea_crypt_ecb_def tea_pair_def Let_def split: prod.splits)

lemma xtea_crypt_ecb_pair:
  "xtea_crypt_ecb sm k = (\<lambda>src decrypt iv. finish_be src decrypt iv
     ((if decrypt then xtea_small k True else xtea_small k False) (AV_RB32 src, AV_RB32 (drop 4 src))))"
  by (intro ext) (simp add: xtea_crypt_ecb_def unrolled_is_loop Let_def)

lemma xtea_le_crypt_ecb_pair:
  "xtea_le_crypt_ecb k = (\<lambda>src decrypt iv. finish_le src decrypt iv
     ((if decrypt then xtea_small k True else xtea_small k False) (AV_RL32 src, AV_RL32 (drop 4 src))))"
  by (intro ext) (simp add: xtea_le_crypt_ecb_def)

interpretation tea: pair_cipher "tea_pair ctx False" "tea_pair ctx True" for ctx
  by unfold_locales (rule tea_pair_inverse)

interpretation xtea: pair_cipher "xtea_small k False" "xtea_small k True" for k
  by unfold_locales (rule xtea_small_inverse)

section \<open>Properties\<close>

text \<open>For TEA with any number of rounds, XTEA in either build and little-endian XTEA, encrypting any number of
  blocks and decrypting the result with the same key and initialisation vector gives the
  plaintext back, with chaining and without, and both calls leave the same vector.\<close>

theorem tea_roundtrip:
  assumes "length src = n * 8" "iv = None \<or> (\<exists>v. iv = Some v \<and> length v = 8)"
  shows "(\<exists>dst iv'. av_tea_crypt ctx n src iv False = Some (dst, iv') \<and> length dst = n * 8 \<and>
        av_tea_crypt ctx n dst iv True = Some (src, iv')) \<and>
     (\<exists>dst iv'. av_xtea_crypt small k n src iv False = Some (dst, iv') \<and> length dst = n * 8 \<and>
        av_xtea_crypt small k n dst iv True = Some (src, iv')) \<and>
     (\<exists>dst iv'. av_xtea_le_crypt k n src iv False = Some (dst, iv') \<and> length dst = n * 8 \<and>
        av_xtea_le_crypt k n dst iv True = Some (src, iv'))"
proof -
  have iv: "\<And>v. iv = Some v \<Longrightarrow> length v = 8" using assms(2) by auto
  show ?thesis
    unfolding av_tea_crypt_def av_xtea_crypt_def av_xtea_le_crypt_def
      tea_crypt_ecb_pair xtea_crypt_ecb_pair xtea_le_crypt_ecb_pair
    using tea.be.roundtrip[OF assms(1) iv] xtea.be.roundtrip[OF assms(1) iv] xtea.le.roundtrip[OF assms(1) iv]
    by blast
qed

theorem tea_roundtrip_witness:
  "\<exists>dst iv'. av_tea_crypt (av_tea_init (replicate 16 1) 64) 2 (replicate 16 7) (Some (replicate 8 9)) False = Some (dst, iv') \<and>
     av_tea_crypt (av_tea_init (replicate 16 1) 64) 2 dst (Some (replicate 8 9)) True = Some (replicate 16 7, iv')"
  using conjunct1[OF tea_roundtrip[of "replicate 16 7" 2 "Some (replicate 8 9)" "av_tea_init (replicate 16 1) 64"]] by auto

text \<open>The unrolled XTEA of the normal build, with its 64 literal constants and key positions, is the
  loop of the small build, in both directions.\<close>

theorem xtea_unrolled_is_loop:
  "xtea_crypt_ecb False k src decrypt iv = xtea_crypt_ecb True k src decrypt iv"
  by (simp add: xtea_crypt_ecb_def unrolled_is_loop)

end
