(* ===== verification/Base64.thy ===== *)
theory Base64
  imports Bytes
begin

text \<open>
  Base64 (libavutil/base64.c). The decoder writes groups of three bytes while there is room for four,
  then one group with every write tested, then only checks the rest of the input; it
  leaves through the labels \<open>out0\<close> to \<open>out3\<close> at the first character that is no digit. Strings are
  lists of bytes that end with a 0.
\<close>

section \<open>Decoder\<close>

definition base64_map2 :: "u8 list" where
  "base64_map2 =
    [0xfe, 0xff, 0xff, 0xff, 0xff, 0xff, 0xff, 0xff,
     0xff, 0xff, 0xff, 0xff, 0xff, 0xff, 0xff, 0xff,
     0xff, 0xff, 0xff, 0xff, 0xff, 0xff, 0xff, 0xff,
     0xff, 0xff, 0xff, 0xff, 0xff, 0xff, 0xff, 0xff,
     0xff, 0xff, 0xff, 0xff, 0xff, 0xff, 0xff, 0xff,
     0xff, 0xff, 0xff, 0x3e, 0xff, 0xff, 0xff, 0x3f,
     0x34, 0x35, 0x36, 0x37, 0x38, 0x39, 0x3a, 0x3b,
     0x3c, 0x3d, 0xff, 0xff, 0xff, 0xfe, 0xff, 0xff,
     0xff, 0x00, 0x01, 0x02, 0x03, 0x04, 0x05, 0x06,
     0x07, 0x08, 0x09, 0x0a, 0x0b, 0x0c, 0x0d, 0x0e,
     0x0f, 0x10, 0x11, 0x12, 0x13, 0x14, 0x15, 0x16,
     0x17, 0x18, 0x19, 0xff, 0xff, 0xff, 0xff, 0xff,
     0xff, 0x1a, 0x1b, 0x1c, 0x1d, 0x1e, 0x1f, 0x20,
     0x21, 0x22, 0x23, 0x24, 0x25, 0x26, 0x27, 0x28,
     0x29, 0x2a, 0x2b, 0x2c, 0x2d, 0x2e, 0x2f, 0x30,
     0x31, 0x32, 0x33, 0xff, 0xff, 0xff, 0xff, 0xff,
     0xff, 0xff, 0xff, 0xff, 0xff, 0xff, 0xff, 0xff,
     0xff, 0xff, 0xff, 0xff, 0xff, 0xff, 0xff, 0xff,
     0xff, 0xff, 0xff, 0xff, 0xff, 0xff, 0xff, 0xff,
     0xff, 0xff, 0xff, 0xff, 0xff, 0xff, 0xff, 0xff,
     0xff, 0xff, 0xff, 0xff, 0xff, 0xff, 0xff, 0xff,
     0xff, 0xff, 0xff, 0xff, 0xff, 0xff, 0xff, 0xff,
     0xff, 0xff, 0xff, 0xff, 0xff, 0xff, 0xff, 0xff,
     0xff, 0xff, 0xff, 0xff, 0xff, 0xff, 0xff, 0xff,
     0xff, 0xff, 0xff, 0xff, 0xff, 0xff, 0xff, 0xff,
     0xff, 0xff, 0xff, 0xff, 0xff, 0xff, 0xff, 0xff,
     0xff, 0xff, 0xff, 0xff, 0xff, 0xff, 0xff, 0xff,
     0xff, 0xff, 0xff, 0xff, 0xff, 0xff, 0xff, 0xff,
     0xff, 0xff, 0xff, 0xff, 0xff, 0xff, 0xff, 0xff,
     0xff, 0xff, 0xff, 0xff, 0xff, 0xff, 0xff, 0xff,
     0xff, 0xff, 0xff, 0xff, 0xff, 0xff, 0xff, 0xff,
     0xff, 0xff, 0xff, 0xff, 0xff, 0xff, 0xff, 0xff]"

text \<open>The four steps of a group, stopping at the first character that is no digit: the label \<open>out\<close>\<open>i\<close> jumped to
  (4 if none), \<open>v\<close> and \<open>bits\<close>. \<open>s\<close> is the input from \<open>in\<close> on; \<open>None\<close> is a read behind its end.\<close>

fun dec_steps :: "nat list \<Rightarrow> u8 list \<Rightarrow> u32 \<Rightarrow> (nat \<times> u32 \<times> u8) option" where
  "dec_steps [] s v = Some (4, v, 0)"
| "dec_steps (i # is) s v =
     Option.bind (load s i 1) (\<lambda>c.
       (let bits = base64_map2 ! unat (hd c)
        in if bits AND 0x80 \<noteq> 0 then Some (i, v, bits)
           else dec_steps is s (if i \<noteq> 0 then push_bit 6 v + ucast bits else ucast bits)))"

definition dec_group :: "u8 list \<Rightarrow> (nat \<times> u32 \<times> u8) option" where
  "dec_group s = dec_steps [0, 1, 2, 3] s 0"

fun validity_check :: "u8 list \<Rightarrow> u8 option" where
  "validity_check [] = None"
| "validity_check (c # s) =
     (let bits = base64_map2 ! unat c in if bits AND 0x80 \<noteq> 0 then Some bits else validity_check s)"

text \<open>The labels \<open>out3\<close> to \<open>out0\<close>, with \<open>d\<close> for \<open>dst - out\<close>; \<open>None\<close> is a write outside the buffer.\<close>

definition out_label :: "nat \<Rightarrow> u32 \<Rightarrow> u8 \<Rightarrow> u8 list \<Rightarrow> nat \<Rightarrow> (int \<times> u8 list) option" where
  "out_label k v bits out d =
     Option.bind (if k = 3 then map_option (\<lambda>out. (out, Suc d, push_bit 2 v)) (store out d [ucast (drop_bit 10 v)])
                  else Some (out, d, v)) (\<lambda>(out, d, v).
     Option.bind (if k = 3 \<or> k = 2 then map_option (\<lambda>out. (out, Suc d)) (store out d [ucast (drop_bit 4 v)])
                  else Some (out, d)) (\<lambda>(out, d).
       Some (if bits AND 1 \<noteq> 0 then AVERROR_INVALIDDATA else int d, out)))"

text \<open>After the last group that fits: one more with the writes tested one by one, if there is any room,
  then the rest of the input is only checked.\<close>

definition decode_tail :: "u8 list \<Rightarrow> u8 list \<Rightarrow> nat \<Rightarrow> int \<Rightarrow> (int \<times> u8 list) option" where
  "decode_tail s out d out_size =
     (if out_size - int d \<noteq> 0
      then Option.bind (dec_group s) (\<lambda>(k, v, bits).
        if k < 4 then out_label k v bits out d
        else
          Option.bind (store out d [ucast (drop_bit 16 v)]) (\<lambda>out.
          (let d = Suc d in
           Option.bind (if out_size - int d \<noteq> 0 then map_option (\<lambda>out. (out, Suc d)) (store out d [ucast (drop_bit 8 v)])
                        else Some (out, d)) (\<lambda>(out, d).
           Option.bind (if out_size - int d \<noteq> 0 then map_option (\<lambda>out. (out, Suc d)) (store out d [ucast v])
                        else Some (out, d)) (\<lambda>(out, d).
           Option.bind (validity_check (drop 4 s)) (\<lambda>bits. out_label 0 v bits out d))))))
      else Option.bind (validity_check s) (\<lambda>bits. out_label 0 0 bits out d))"

function decode_loop :: "u8 list \<Rightarrow> u8 list \<Rightarrow> nat \<Rightarrow> int \<Rightarrow> (int \<times> u8 list) option" where
  "decode_loop s out d out_size =
     (if out_size - int d > 3
      then Option.bind (dec_group s) (\<lambda>(k, v, bits).
        if k < 4 then out_label k v bits out d
        else Option.bind (store out d (AV_WB32 (push_bit 8 v))) (\<lambda>out. decode_loop (drop 4 s) out (d + 3) out_size))
      else decode_tail s out d out_size)"
  by auto
termination by (relation "measure (\<lambda>(s, out, d, out_size). nat (out_size - int d))") auto

declare decode_loop.simps [simp del]

text \<open>\<open>out\<close> is the buffer, \<open>None\<close> for null; the result is the return value with the buffer afterwards.\<close>

definition av_base64_decode :: "u8 list option \<Rightarrow> u8 list \<Rightarrow> int \<Rightarrow> (int \<times> u8 list option) option" where
  "av_base64_decode out in_str out_size =
     (case out of
        None \<Rightarrow> map_option (\<lambda>bits. (if bits AND 1 \<noteq> 0 then AVERROR_INVALIDDATA else 0, None)) (validity_check in_str)
      | Some out \<Rightarrow> map_option (\<lambda>(r, out). (r, Some out)) (decode_loop in_str out 0 out_size))"

section \<open>Encoder\<close>

definition AV_BASE64_SIZE :: "int \<Rightarrow> int" where
  "AV_BASE64_SIZE x = (x + 2) div 3 * 4 + 1"

definition AV_BASE64_DECODE_SIZE :: "int \<Rightarrow> int" where
  "AV_BASE64_DECODE_SIZE x = x * 3 div 4"

definition b64 :: "u8 list" where
  "b64 = map of_char ''ABCDEFGHIJKLMNOPQRSTUVWXYZabcdefghijklmnopqrstuvwxyz0123456789+/''"

definition digit :: "u32 \<Rightarrow> u8" where
  "digit x = b64 ! unat x"

text \<open>The last, one to three bytes: \<open>tail_bits\<close> collects them, \<open>tail_digits i_bits i_shift\<close> writes their digits.\<close>

definition tail_bits :: "u8 list \<Rightarrow> u32" where
  "tail_bits bs = fold (\<lambda>b i_bits. push_bit 8 i_bits + ucast b) bs 0"

function tail_digits :: "u32 \<Rightarrow> int \<Rightarrow> u8 list" where
  "tail_digits i_bits i_shift =
     (if i_shift > 0
      then digit (drop_bit (nat i_shift) (push_bit 6 i_bits) AND 0x3f) # tail_digits i_bits (i_shift - 6)
      else [])"
  by auto
termination by (relation "measure (\<lambda>(b, s). nat s)") auto

declare tail_digits.simps [simp del]

fun pad_loop :: "u8 list \<Rightarrow> nat \<Rightarrow> u8 list" where
  "pad_loop dst 0 = dst"
| "pad_loop dst (Suc fuel) = (if length dst AND 3 \<noteq> 0 then pad_loop (dst @ [0x3d]) fuel else dst)"

text \<open>The loop over the groups of three appends to what has been written. A group is read with \<open>AV_RB32\<close>, one byte
  more than it uses, which the condition of the loop provides. At most three \<open>=\<close> are needed, the
  fuel of \<open>pad_loop\<close>.\<close>

function encode_loop :: "u8 list \<Rightarrow> u8 list \<Rightarrow> u8 list" where
  "encode_loop inp dst =
     (if length inp > 3
      then (let i_bits = AV_RB32 inp
            in encode_loop (drop 3 inp)
                 (dst @ [digit (drop_bit 26 i_bits), digit (drop_bit 20 i_bits AND 0x3f),
                         digit (drop_bit 14 i_bits AND 0x3f), digit (drop_bit 8 i_bits AND 0x3f)]))
      else pad_loop (dst @ tail_digits (tail_bits inp) (8 * int (length inp))) 3 @ [0])"
  by auto
termination by (relation "measure (\<lambda>(inp, dst). length inp)") auto

declare encode_loop.simps [simp del]

text \<open>\<open>None\<close> is a null result, otherwise the bytes written to \<open>out\<close>.\<close>

definition av_base64_encode :: "int \<Rightarrow> u8 list \<Rightarrow> int \<Rightarrow> u8 list option" where
  "av_base64_encode out_size inp in_size =
     (if u32_of in_size \<ge> UINT_MAX div 4 \<or> out_size < AV_BASE64_SIZE in_size then None
      else Some (encode_loop (take (nat in_size) inp) []))"

section \<open>Digits\<close>

lemma length_map2 [simp]: "length base64_map2 = 256"
  by (simp add: base64_map2_def)

text \<open>The table is the inverse of the alphabet, and marks everything else.\<close>

lemma map2_b64: "map (\<lambda>c. base64_map2 ! unat c) b64 = map of_nat [0..<64]"
  by (simp add: b64_def base64_map2_def upt_rec)

lemma length_b64 [simp]: "length b64 = 64"
  by (simp add: b64_def)

lemma mask_63: "mask 6 = (0x3f :: u32)"
  by (simp add: mask_eq_exp_minus_1)

lemma and_63: "x AND 0x3f = take_bit 6 (x :: u32)"
  unfolding mask_63[symmetric] take_bit_eq_mask ..

lemma bit_0x80: "bit (0x80 :: u8) n \<longleftrightarrow> n = 7"
proof -
  have "(0x80 :: u8) = push_bit 7 1" by simp
  then show ?thesis by (simp only: bit_push_bit_iff bit_1_iff) auto
qed

lemma map2_digit:
  assumes "x AND 0x3f = x"
  shows "ucast (base64_map2 ! unat (digit x)) = x" "base64_map2 ! unat (digit x) AND 0x80 = 0"
proof -
  have x: "unat x < 64"
    using word_and_le1[of x "0x3f"] assms by (simp add: word_le_nat_alt)
  then have d: "base64_map2 ! unat (digit x) = ucast x"
    using arg_cong[OF map2_b64, of "\<lambda>l. l ! unat x"] by (simp add: digit_def)
  have b: "n < 6" if "bit x n" for n
    using that assms bit_take_bit_iff[of 6 x n] unfolding and_63 by simp
  show "ucast (base64_map2 ! unat (digit x)) = x"
    unfolding d by (rule bit_word_eqI) (auto simp: bit_simps dest: b)
  show "base64_map2 ! unat (digit x) AND 0x80 = 0"
    unfolding d
  proof (rule bit_word_eqI)
    fix n
    show "bit ((ucast x :: u8) AND 0x80) n \<longleftrightarrow> bit (0 :: u8) n"
      using b[of n] bit_0x80[of n] by (auto simp: bit_and_iff bit_unsigned_iff)
  qed
qed

lemma map2_stops: "base64_map2 ! 0 = 0xfe" "base64_map2 ! 61 = 0xfe"
  by (simp_all add: base64_map2_def)

section \<open>Groups\<close>

lemma split6: "push_bit 6 (drop_bit 6 w) + (w AND 0x3f) = (w :: u32)"
proof -
  have m: "mask 6 = (0x3f :: u32)" by (simp add: mask_eq_exp_minus_1)
  have "push_bit 6 (drop_bit 6 w) + take_bit 6 w = push_bit 6 (drop_bit 6 w) OR take_bit 6 w"
    by (rule disjunctive_add_eq_or) (auto intro!: bit_word_eqI simp: bit_simps)
  also have "\<dots> = w" by (auto intro!: bit_word_eqI simp: bit_simps)
  finally show ?thesis unfolding m[symmetric] take_bit_eq_mask .
qed

lemma split6_at: "push_bit 6 (drop_bit (n + 6) w) + (drop_bit n w AND 0x3f) = (drop_bit n w :: u32)"
  using split6[of "drop_bit n w"] by (simp add: drop_bit_drop_bit add.commute)

lemma dec_step_digit:
  assumes "i < length s" "s ! i = digit x" "x AND 0x3f = x"
  shows "dec_steps (i # is) s v = dec_steps is s (if i \<noteq> 0 then push_bit 6 v + x else x)"
proof -
  have "load s i 1 = Some [digit x]"
    using assms by (simp add: load_def take_Suc_conv_app_nth flip: Cons_nth_drop_Suc)
  then show ?thesis using map2_digit[OF assms(3)] by (simp add: Let_def)
qed

lemma dec_step_stop:
  assumes "i < length s" "s ! i = 0 \<or> s ! i = 61"
  shows "dec_steps (i # is) s v = Some (i, v, 0xfe)"
proof -
  have "load s i 1 = Some [s ! i]"
    using assms(1) by (simp add: load_def flip: Cons_nth_drop_Suc)
  then show ?thesis using assms(2) by (auto simp: map2_stops Let_def)
qed

abbreviation group4 :: "u32 \<Rightarrow> u8 list" where
  "group4 w \<equiv> [digit (drop_bit 26 w), digit (drop_bit 20 w AND 0x3f), digit (drop_bit 14 w AND 0x3f), digit (drop_bit 8 w AND 0x3f)]"

lemma top_digit: "drop_bit 26 w AND 0x3f = (drop_bit 26 w :: u32)"
proof -
  have m: "mask 6 = (0x3f :: u32)" by (simp add: mask_eq_exp_minus_1)
  show ?thesis
    unfolding m[symmetric] take_bit_eq_mask[symmetric]
    by (rule bit_word_eqI) (auto simp: bit_simps dest: bit_imp_le_length)
qed

lemma dec_group_4: "dec_group (group4 w @ s) = Some (4, drop_bit 8 w, 0)"
  using split6_at[of 20 w] split6_at[of 14 w] split6_at[of 8 w] top_digit[of w]
  by (simp add: dec_group_def del: dec_steps.simps(2)
    add: dec_step_digit[of 0 _ "drop_bit 26 w"] dec_step_digit[of "Suc 0" _ "drop_bit 20 w AND 0x3f"]
      dec_step_digit[of 2 _ "drop_bit 14 w AND 0x3f"] dec_step_digit[of 3 _ "drop_bit 8 w AND 0x3f"] and.assoc)

text \<open>The last group of the encoder, with one or two signs \<open>=\<close>, and the end of the string.\<close>

lemma dec_group_0: "dec_group (0 # s) = Some (0, 0, 0xfe)"
  by (simp add: dec_group_def del: dec_steps.simps(2) add: dec_step_stop)

lemma join8: "push_bit 8 x + ucast (b :: u8) = push_bit 8 x OR (ucast b :: u32)"
  by (rule disjunctive_add_eq_or) (rule bit_word_eqI, simp add: bit_simps, auto dest: byte_lt)

lemma nat_and_3: "(n :: nat) AND 3 = n mod 4"
proof -
  have "mask 2 = (3 :: nat)" by (simp add: mask_eq_exp_minus_1)
  then show ?thesis using take_bit_eq_mask[of 2 n] by (simp add: take_bit_eq_mod)
qed

lemma pad_3: "pad_loop dst 3 =
    (if length dst AND 3 = 0 then dst
     else if length (dst @ [61]) AND 3 = 0 then dst @ [61]
     else if length (dst @ [61, 61]) AND 3 = 0 then dst @ [61, 61] else dst @ [61, 61, 61])"
  by (simp add: numeral_3_eq_3)

lemma byte_high: "\<not> bit (ucast (b :: u8) :: u32) n" if "8 \<le> n"
  using that byte_bits[of n b] by (simp add: bit_simps)

text \<open>What the encoder makes of the last bytes, and what the decoder reads in it.\<close>

lemma encode_0: "encode_loop [] [] = [0]"
  by (simp add: encode_loop.simps tail_digits.simps tail_bits_def pad_3 nat_and_3)

definition u1 :: "u8 \<Rightarrow> u32" where "u1 a = push_bit 6 (ucast a)"
definition u2 :: "u8 \<Rightarrow> u8 \<Rightarrow> u32" where "u2 a b = push_bit 6 (push_bit 8 (ucast a) OR ucast b)"

lemma encode_1: "encode_loop [a] [] = [digit (drop_bit 8 (u1 a) AND 0x3f), digit (drop_bit 2 (u1 a) AND 0x3f), 61, 61, 0]"
  by (simp add: encode_loop.simps[of "[a]"] tail_digits.simps tail_bits_def pad_3 nat_and_3 u1_def)

lemma encode_2: "encode_loop [a, b] [] = [digit (drop_bit 16 (u2 a b) AND 0x3f), digit (drop_bit 10 (u2 a b) AND 0x3f),
    digit (drop_bit 4 (u2 a b) AND 0x3f), 61, 0]"
  by (simp add: encode_loop.simps[of "[a, b]"] tail_digits.simps tail_bits_def pad_3 nat_and_3 u2_def join8)

lemma encode_3: "encode_loop [a, b, c] [] = group4 (AV_RB32 [a, b, c, 0]) @ [0]"
proof -
  define w where "w = AV_RB32 [a, b, c, 0]"
  have "push_bit 8 (push_bit 8 (push_bit 8 0 + ucast a) + ucast b) + ucast c = (drop_bit 8 w :: u32)"
    unfolding join8 w_def AV_RB32_def
    by (rule bit_word_eqI) (simp add: bit_simps byte_high ac_simps, auto dest: byte_lt)
  then have t: "tail_bits [a, b, c] = drop_bit 8 w" by (simp add: tail_bits_def)
  have "drop_bit n (push_bit 6 (drop_bit 8 w)) AND 0x3f = drop_bit (n + 2) w AND 0x3f" if "6 \<le> n" for n
    unfolding and_63 by (rule bit_word_eqI) (use that in \<open>auto simp: bit_simps ac_simps dest: bit_imp_le_length\<close>)
  then show ?thesis
    using top_digit[of w]
    by (simp add: encode_loop.simps[of "[a, b, c]"] tail_digits.simps t pad_3 nat_and_3 flip: w_def)
qed

lemma dec_group_1: "dec_group (encode_loop [a] []) = Some (2, drop_bit 2 (u1 a), 0xfe)"
proof -
  have "drop_bit 8 (u1 a) AND 0x3f = drop_bit 8 (u1 a)"
    unfolding and_63 u1_def by (rule bit_word_eqI) (simp add: bit_simps byte_high, auto dest: byte_lt)
  then show ?thesis
    unfolding encode_1 using split6_at[of 2 "u1 a"]
    by (simp add: dec_group_def del: dec_steps.simps(2) add: dec_step_digit[of 0 _ "drop_bit 8 (u1 a)"]
      dec_step_digit[of "Suc 0" _ "drop_bit 2 (u1 a) AND 0x3f"] dec_step_stop and.assoc)
qed

lemma dec_group_2: "dec_group (encode_loop [a, b] []) = Some (3, drop_bit 4 (u2 a b), 0xfe)"
proof -
  have "drop_bit 16 (u2 a b) AND 0x3f = drop_bit 16 (u2 a b)"
    unfolding and_63 u2_def by (rule bit_word_eqI) (simp add: bit_simps byte_high, auto dest: byte_lt)
  then show ?thesis
    unfolding encode_2 using split6_at[of 10 "u2 a b"] split6_at[of 4 "u2 a b"]
    by (simp add: dec_group_def del: dec_steps.simps(2) add: dec_step_digit[of 0 _ "drop_bit 16 (u2 a b)"]
      dec_step_digit[of "Suc 0" _ "drop_bit 10 (u2 a b) AND 0x3f"] dec_step_digit[of 2 _ "drop_bit 4 (u2 a b) AND 0x3f"]
      dec_step_stop and.assoc)
qed

lemma bytes_1: "ucast (drop_bit 4 (drop_bit 2 (u1 a))) = a"
  unfolding u1_def by (rule bit_word_eqI) (auto simp: bit_simps)

lemma bytes_2a: "ucast (drop_bit 10 (drop_bit 4 (u2 a b))) = a"
  unfolding u2_def by (rule bit_word_eqI, simp add: bit_simps byte_high ac_simps, auto dest: byte_lt)

lemma bytes_2b: "ucast (drop_bit 4 (push_bit 2 (drop_bit 4 (u2 a b)))) = b"
  unfolding u2_def by (rule bit_word_eqI, simp add: bit_simps byte_high ac_simps)

lemmas bytes_2 = bytes_2a bytes_2b

lemma pad_signs: "pad_loop dst 3 = dst @ replicate ((4 - length dst mod 4) mod 4) 61"
proof -
  have n: "pad_loop dst 3 = dst @ replicate
      (if length dst mod 4 = 0 then 0 else if (length dst + 1) mod 4 = 0 then 1
       else if (length dst + 2) mod 4 = 0 then 2 else 3) 61"
    unfolding pad_3 nat_and_3 by (simp add: numeral_2_eq_2 numeral_3_eq_3)
  have "(if k mod 4 = 0 then 0 else if (k + 1) mod 4 = 0 then 1 else if (k + 2) mod 4 = 0 then 2 else 3)
      = (4 - k mod 4) mod (4 :: nat)" for k
  proof -
    have r: "(k + 1) mod 4 = (k mod 4 + 1) mod 4" "(k + 2) mod 4 = (k mod 4 + 2) mod 4"
      by (simp_all only: mod_add_left_eq)
    have "k mod 4 = 0 \<or> k mod 4 = 1 \<or> k mod 4 = 2 \<or> k mod 4 = 3" by linarith
    then show ?thesis unfolding r by (elim disjE) (simp_all only:, simp_all)
  qed
  then show ?thesis unfolding n by simp
qed

section \<open>The decoder on the encoder's output\<close>

lemma encode_acc: "4 dvd length dst \<Longrightarrow> encode_loop inp dst = dst @ encode_loop inp []"
proof (induction inp arbitrary: dst rule: length_induct)
  case (1 inp)
  show ?case
  proof (cases "length inp > 3")
    case True
    then have IH: "4 dvd length d \<Longrightarrow> encode_loop (drop 3 inp) d = d @ encode_loop (drop 3 inp) []" for d
      by (intro 1(1)[rule_format]) auto
    let ?g = "group4 (AV_RB32 inp)"
    have "4 dvd length (dst @ ?g)" "4 dvd length ?g" using 1(2) by simp_all presburger+
    then show ?thesis
      using True IH[of "dst @ ?g"] IH[of ?g] by (simp add: encode_loop.simps[of inp] Let_def)
  next
    case False
    define T where "T = tail_digits (tail_bits inp) (8 * int (length inp))"
    have "(length dst + length T) mod 4 = length T mod 4"
      using 1(2) by presburger
    then show ?thesis
      using False by (simp add: encode_loop.simps[of inp] pad_signs flip: T_def)
  qed
qed

lemma encode_more:
  "3 < length inp \<Longrightarrow> encode_loop inp [] = group4 (AV_RB32 inp) @ encode_loop (drop 3 inp) []"
proof -
  have "4 dvd length (group4 (AV_RB32 inp))" by (simp add: eval_nat_numeral)
  from encode_acc[OF this, of "drop 3 inp"]
  show "3 < length inp \<Longrightarrow> encode_loop inp [] = group4 (AV_RB32 inp) @ encode_loop (drop 3 inp) []"
    by (simp add: encode_loop.simps[of inp] Let_def)
qed

lemma group_bytes:
  assumes "3 \<le> length inp"
  shows "\<exists>x. AV_WB32 (push_bit 8 (drop_bit 8 (AV_RB32 inp))) = take 3 inp @ [x]"
    "ucast (drop_bit 16 (drop_bit 8 (AV_RB32 inp))) = inp ! 0" "ucast (drop_bit 8 (drop_bit 8 (AV_RB32 inp))) = inp ! 1"
    "ucast (drop_bit 8 (AV_RB32 inp)) = inp ! 2"
proof -
  have b: "ucast (drop_bit 24 (AV_RB32 inp)) = inp ! 0" "ucast (drop_bit 16 (AV_RB32 inp)) = inp ! 1"
    "ucast (drop_bit 8 (AV_RB32 inp)) = inp ! 2"
    unfolding AV_RB32_def
    by (rule bit_word_eqI, simp add: bit_simps byte_high ac_simps, auto dest: byte_lt)+
  have c: "ucast (drop_bit n (push_bit 8 (drop_bit 8 w))) = (ucast (drop_bit n w) :: u8)" if "8 \<le> n" for n and w :: u32
    by (rule bit_word_eqI) (use that in \<open>auto simp: bit_simps dest: word_lt\<close>)
  have "take 3 inp = [inp ! 0, inp ! 1, inp ! 2]"
    using assms by (cases inp; cases "tl inp"; cases "tl (tl inp)") (auto simp: numeral_3_eq_3)
  then show "\<exists>x. AV_WB32 (push_bit 8 (drop_bit 8 (AV_RB32 inp))) = take 3 inp @ [x]"
    using b by (simp add: AV_WB32_def c)
  show "ucast (drop_bit 16 (drop_bit 8 (AV_RB32 inp))) = inp ! 0" "ucast (drop_bit 8 (drop_bit 8 (AV_RB32 inp))) = inp ! 1"
    "ucast (drop_bit 8 (AV_RB32 inp)) = inp ! 2"
    using b by (simp_all add: drop_bit_drop_bit)
qed

text \<open>The end of the string: nothing is written any more.\<close>

lemma validity_check_end [simp]: "validity_check (0 # s) = Some 0xfe"
  by (simp add: map2_stops)

lemma out_label_0 [simp]: "out_label 0 v 0xfe out d = Some (int d, out)"
  by (simp add: out_label_def)

lemma decode_end: "decode_loop [0] out d n = Some (int d, out)"
  by (simp add: decode_loop.simps[of "[0]"] decode_tail_def dec_group_0 del: validity_check.simps)

lemma store_append:
  assumes "d + length bs \<le> length out"
  shows "\<exists>out'. store out d bs = Some out' \<and> length out' = length out \<and>
     (\<forall>n \<le> length bs. take (d + n) out' = take d out @ take n bs)"
proof (cases "bs = []")
  case False
  then have "d < length out" using assms by (cases bs) auto
  then show ?thesis using assms by (auto simp: store_def)
qed (use assms in \<open>auto simp: store_def\<close>)

lemma store_one:
  assumes "d < length out"
  shows "\<exists>out'. store out d [b] = Some out' \<and> length out' = length out \<and> take (Suc d) out' = take d out @ [b]"
  using store_append[of d "[b]" out] assms by force

text \<open>One, two or three bytes are left, whatever room there is.\<close>

lemma decode_1:
  assumes "d + 1 \<le> length out"
  shows "\<exists>out'. decode_loop (encode_loop [a] []) out d (int (length out)) = Some (int d + 1, out') \<and>
     length out' = length out \<and> take (d + 1) out' = take d out @ [a]"
proof -
  obtain out' where "store out d [a] = Some out'" "length out' = length out" "take (Suc d) out' = take d out @ [a]"
    using store_one[of d out a] assms by auto
  then show ?thesis
    using assms bytes_1[of a]
    by (simp add: decode_loop.simps[of "encode_loop [a] []"] decode_tail_def dec_group_1 out_label_def)
qed

lemma decode_2:
  assumes "d + 2 \<le> length out"
  shows "\<exists>out'. decode_loop (encode_loop [a, b] []) out d (int (length out)) = Some (int d + 2, out') \<and>
     length out' = length out \<and> take (d + 2) out' = take d out @ [a, b]"
proof -
  obtain o1 where o1: "store out d [a] = Some o1" "length o1 = length out" "take (Suc d) o1 = take d out @ [a]"
    using store_one[of d out a] assms by auto
  obtain o2 where o2: "store o1 (Suc d) [b] = Some o2" "length o2 = length out" "take (Suc (Suc d)) o2 = take d out @ [a, b]"
    using store_one[of "Suc d" o1 b] assms o1 by auto
  show ?thesis
    using o1 o2 assms bytes_2[of a b]
    by (simp add: decode_loop.simps[of "encode_loop [a, b] []"] decode_tail_def dec_group_2 out_label_def)
qed

lemma decode_3:
  assumes "d + 3 \<le> length out"
  shows "\<exists>out'. decode_loop (encode_loop [a, b, c] []) out d (int (length out)) = Some (int d + 3, out') \<and>
     length out' = length out \<and> take (d + 3) out' = take d out @ [a, b, c]"
proof -
  let ?w = "AV_RB32 [a, b, c, 0]"
  have g: "dec_group (encode_loop [a, b, c] []) = Some (4, drop_bit 8 ?w, 0)"
    unfolding encode_3 by (rule dec_group_4)
  have s: "drop 4 (encode_loop [a, b, c] []) = [0]" unfolding encode_3 by simp
  have b: "\<exists>x. AV_WB32 (push_bit 8 (drop_bit 8 ?w)) = [a, b, c, x]"
    "ucast (drop_bit 16 (drop_bit 8 ?w)) = a" "ucast (drop_bit 8 (drop_bit 8 ?w)) = b" "ucast (drop_bit 8 ?w) = c"
    using group_bytes[of "[a, b, c, 0]"] by (simp_all add: numeral_3_eq_3)
  show ?thesis
  proof (cases "d + 3 < length out")
    case True
    obtain x where x: "AV_WB32 (push_bit 8 (drop_bit 8 ?w)) = [a, b, c, x]" using b(1) by blast
    obtain o1 where o1: "store out d [a, b, c, x] = Some o1" "length o1 = length out"
        "\<forall>n \<le> 4. take (d + n) o1 = take d out @ take n [a, b, c, x]"
      using store_append[of d "[a, b, c, x]" out] True by auto
    have "store out d [a, b, c, x] = Some o1" "length o1 = length out" "take (d + 3) o1 = take d out @ [a, b, c]"
      using o1 o1(3)[rule_format, of 3] by simp_all
    then show ?thesis
      using True by (simp add: decode_loop.simps[of "encode_loop [a, b, c] []"] g s x decode_end)
  next
    case False
    then have l: "length out = d + 3" using assms by simp
    obtain o1 where o1: "store out d [a] = Some o1" "length o1 = d + 3" "take (Suc d) o1 = take d out @ [a]"
      using store_one[of d out a] l by auto
    obtain o2 where o2: "store o1 (Suc d) [b] = Some o2" "length o2 = d + 3" "take (Suc (Suc d)) o2 = take d out @ [a, b]"
      using store_one[of "Suc d" o1 b] o1 by auto
    obtain o3 where o3: "store o2 (Suc (Suc d)) [c] = Some o3" "length o3 = d + 3" "take (d + 3) o3 = take d out @ [a, b, c]"
      using store_one[of "Suc (Suc d)" o2 c] o2 by (auto simp: numeral_3_eq_3)
    show ?thesis
      using l o1 o2 o3 b by (simp add: decode_loop.simps[of "encode_loop [a, b, c] []"] decode_tail_def g s Let_def
        del: validity_check.simps)
  qed
qed

lemma decode_encode:
  assumes "d + length inp \<le> length out"
  shows "\<exists>out'. decode_loop (encode_loop inp []) out d (int (length out)) = Some (int (d + length inp), out') \<and>
     length out' = length out \<and> take (d + length inp) out' = take d out @ inp"
  using assms
proof (induction inp arbitrary: d out rule: length_induct)
  case (1 inp)
  show ?case
  proof (cases "3 < length inp")
    case True
    let ?w = "AV_RB32 inp"
    obtain x where x: "AV_WB32 (push_bit 8 (drop_bit 8 ?w)) = take 3 inp @ [x]"
      using group_bytes(1)[of inp] True by auto
    have "d + length (take 3 inp @ [x]) \<le> length out" using True 1(2) by simp
    from store_append[OF this] obtain o1 where o1: "store out d (take 3 inp @ [x]) = Some o1" "length o1 = length out"
        "\<forall>n \<le> length (take 3 inp @ [x]). take (d + n) o1 = take d out @ take n (take 3 inp @ [x])"
      by blast
    have t: "take (d + 3) o1 = take d out @ take 3 inp" using o1(3)[rule_format, of 3] True by simp
    have "\<exists>out'. decode_loop (encode_loop (drop 3 inp) []) o1 (d + 3) (int (length o1)) =
        Some (int (d + 3 + length (drop 3 inp)), out') \<and>
       length out' = length o1 \<and> take (d + 3 + length (drop 3 inp)) out' = take (d + 3) o1 @ drop 3 inp"
      by (rule 1(1)[rule_format]) (use True 1(2) o1(2) in auto)
    then obtain out' where o': "decode_loop (encode_loop (drop 3 inp) []) o1 (d + 3) (int (length out)) = Some (int (d + length inp), out')"
       "length out' = length out" "take (d + length inp) out' = take d out @ inp"
      using True t o1(2) by auto
    have g: "dec_group (encode_loop inp []) = Some (4, drop_bit 8 ?w, 0)" "drop 4 (encode_loop inp []) = encode_loop (drop 3 inp) []"
      unfolding encode_more[OF True] by (rule dec_group_4, simp)
    have "int (length out) - int d > 3" using True 1(2) by simp
    then show ?thesis
      using o' o1(1) by (simp add: decode_loop.simps[of "encode_loop inp []"] g x)
  next
    case False
    then consider "inp = []" | a where "inp = [a]" | a b where "inp = [a, b]" | a b c where "inp = [a, b, c]"
      by (cases inp; cases "tl inp"; cases "tl (tl inp)"; cases "tl (tl (tl inp))") auto
    then show ?thesis
    proof cases
      case 1 then show ?thesis by (simp add: encode_0 decode_end)
    next
      case (2 a) then show ?thesis using decode_1[of d out a] 1(2) by (simp add: add.commute)
    next
      case (3 a b) then show ?thesis using decode_2[of d out a b] 1(2) by (simp add: add.commute)
    next
      case (4 a b c) then show ?thesis using decode_3[of d out a b c] 1(2) by (simp add: numeral_3_eq_3 add.commute)
    qed
  qed
qed

lemma length_encode: "int (length (encode_loop inp [])) = AV_BASE64_SIZE (int (length inp))"
proof (induction inp rule: length_induct)
  case (1 inp)
  show ?case
  proof (cases "3 < length inp")
    case True
    have "int (length (encode_loop (drop 3 inp) [])) = AV_BASE64_SIZE (int (length (drop 3 inp)))"
      by (rule 1(1)[rule_format]) (use True in auto)
    moreover have "int (length (drop 3 inp)) = int (length inp) - 3" using True by simp
    moreover have "(int (length inp) + 2) div 3 = (int (length inp) - 3 + 2) div 3 + 1" by simp
    ultimately show ?thesis unfolding encode_more[OF True] AV_BASE64_SIZE_def by simp
  next
    case False
    then consider "inp = []" | a where "inp = [a]" | a b where "inp = [a, b]" | a b c where "inp = [a, b, c]"
      by (cases inp; cases "tl inp"; cases "tl (tl inp)"; cases "tl (tl (tl inp))") auto
    then show ?thesis
      by cases (simp_all add: encode_0 encode_1 encode_2 encode_3 AV_BASE64_SIZE_def)
  qed
qed

section \<open>Bounds of the decoder\<close>

lemma dec_steps_bounds:
  assumes "0 \<notin> set str" "i \<le> length str" "i \<le> 4"
  shows "\<exists>k v' b. dec_steps [i..<4] (str @ [0]) v = Some (k, v', b) \<and> k \<le> 4 \<and> k \<le> length str"
  using assms
proof (induction "4 - i" arbitrary: i v)
  case 0
  then show ?case by simp
next
  case (Suc n)
  then have u: "[i..<4] = i # [Suc i..<4]" by (simp add: upt_conv_Cons)
  have l: "load (str @ [0]) i 1 = Some [(str @ [0]) ! i]"
    using Suc.prems Cons_nth_drop_Suc[of i "str @ [0]"] by (simp add: load_def del: drop_append drop_Suc_Cons take_append)
      (metis take0 take_Suc_Cons)
  show ?case
  proof (cases "i = length str \<or> base64_map2 ! unat ((str @ [0]) ! i) AND 0x80 \<noteq> 0")
    case True
    then have "base64_map2 ! unat ((str @ [0]) ! i) AND 0x80 \<noteq> 0" by (auto simp: map2_stops)
    then show ?thesis unfolding u using l Suc.prems by (simp add: Let_def)
  next
    case False
    then have "Suc i \<le> length str" using Suc.prems by simp
    then have "\<exists>k v' b. dec_steps [Suc i..<4] (str @ [0]) w = Some (k, v', b) \<and> k \<le> 4 \<and> k \<le> length str" for w
      using Suc.hyps Suc.prems by (intro Suc.hyps(1)) auto
    then show ?thesis unfolding u using l False by (simp add: Let_def)
  qed
qed

lemma dec_group_bounds:
  assumes "0 \<notin> set str"
  shows "\<exists>k v b. dec_group (str @ [0]) = Some (k, v, b) \<and> k \<le> 4 \<and> k \<le> length str"
proof -
  have "[0, 1, 2, 3] = [0..<4]" by (simp add: upt_rec)
  then show ?thesis using dec_steps_bounds[OF assms, of 0 0] unfolding dec_group_def by simp
qed

lemma validity_check_bounds: "\<exists>b. validity_check (str @ [0]) = Some b"
  by (induction str) (auto simp: Let_def map2_stops)

definition decoded :: "nat \<Rightarrow> (int \<times> u8 list) option \<Rightarrow> bool" where
  "decoded n res \<longleftrightarrow>
     (\<exists>r out. res = Some (r, out) \<and> length out = n \<and> (r = AVERROR_INVALIDDATA \<or> (0 \<le> r \<and> r \<le> int n)))"

lemma out_label_bounds:
  assumes "k < 4" "k = 3 \<Longrightarrow> d + 2 \<le> length out" "k = 2 \<Longrightarrow> d + 1 \<le> length out" "d \<le> length out"
  shows "decoded (length out) (out_label k v b out d)"
  using assms by (auto simp: decoded_def out_label_def store_def)

lemma decode_tail_bounds:
  assumes "0 \<notin> set str" "d + 3 * length str div 4 \<le> length out" "length out \<le> d + 3"
  shows "decoded (length out) (decode_tail (str @ [0]) out d (int (length out)))"
proof -
  obtain k v b where g: "dec_group (str @ [0]) = Some (k, v, b)" "k \<le> 4" "k \<le> length str"
    using dec_group_bounds[OF assms(1)] by blast
  obtain b' where c: "validity_check (str @ [0]) = Some b'" using validity_check_bounds by blast
  consider "length out = d" | "length out \<noteq> d" "k < 4" | "length out \<noteq> d" "k = 4" using g(2) by linarith
  then show ?thesis
  proof cases
    case 1
    then show ?thesis using c out_label_bounds[of 0 d out] by (simp add: decode_tail_def)
  next
    case 2
    have "decoded (length out) (out_label k v b out d)"
      by (rule out_label_bounds) (use 2 assms g in auto)
    then show ?thesis using 2 g by (simp add: decode_tail_def)
  next
    case 3
    then have l: "length out = d + 3" using assms g by linarith
    obtain o1 where o1: "store out d [ucast (drop_bit 16 v)] = Some o1" "length o1 = d + 3"
      using store_one[of d out] l by auto
    obtain o2 where o2: "store o1 (Suc d) [ucast (drop_bit 8 v)] = Some o2" "length o2 = d + 3"
      using store_one[of "Suc d" o1] o1 by auto
    obtain o3 where o3: "store o2 (Suc (Suc d)) [ucast v] = Some o3" "length o3 = d + 3"
      using store_one[of "Suc (Suc d)" o2] o2 by auto
    have "drop 4 (str @ [0]) = drop 4 str @ [0]" using 3 g by simp
    then obtain b'' where "validity_check (drop 4 (str @ [0])) = Some b''"
      using validity_check_bounds[of "drop 4 str"] by metis
    then show ?thesis
      using 3 g l o1 o2 o3 out_label_bounds[of 0 "d + 3" o3 v b''] by (simp add: decode_tail_def numeral_3_eq_3)
  qed
qed

lemma decode_loop_bounds:
  assumes "0 \<notin> set str" "d + 3 * length str div 4 \<le> length out"
  shows "decoded (length out) (decode_loop (str @ [0]) out d (int (length out)))"
  using assms
proof (induction str arbitrary: d out rule: length_induct)
  case (1 str)
  show ?case
  proof (cases "length out \<le> d + 3")
    case True
    then show ?thesis using decode_tail_bounds[OF 1(2,3)] by (simp add: decode_loop.simps[of "str @ [0]"])
  next
    case False
    then have r: "int (length out) - int d > 3" by simp
    obtain k v b where g: "dec_group (str @ [0]) = Some (k, v, b)" "k \<le> 4" "k \<le> length str"
      using dec_group_bounds[OF 1(2)] by blast
    show ?thesis
    proof (cases "k = 4")
      case True
      obtain o1 where o1: "store out d (AV_WB32 (push_bit 8 v)) = Some o1" "length o1 = length out"
        using store_append[of d "AV_WB32 (push_bit 8 v)" out] False by auto
      have "decoded (length o1) (decode_loop (drop 4 str @ [0]) o1 (d + 3) (int (length o1)))"
        by (rule 1(1)[rule_format]) (use 1(2,3) True g o1 in \<open>auto dest: in_set_dropD\<close>)
      then show ?thesis
        using r True g o1 by (simp add: decode_loop.simps[of "str @ [0]"])
    next
      case k: False
      have "decoded (length out) (out_label k v b out d)"
        by (rule out_label_bounds) (use k g False in auto)
      then show ?thesis using r k g by (simp add: decode_loop.simps[of "str @ [0]"])
    qed
  qed
qed

section \<open>Properties\<close>

text \<open>C22: Encoding any bytes below the size limit into a buffer of \<open>AV_BASE64_SIZE\<close> bytes writes exactly that many, the
  last one the terminator, and decoding the result into any buffer that holds the bytes gives their
  number and the bytes, also when the buffer has no spare room.\<close>

theorem base64_roundtrip:
  assumes "length inp < 1073741823" "AV_BASE64_SIZE (int (length inp)) \<le> out_size" "length inp \<le> length out"
  shows "\<exists>str out'. av_base64_encode out_size inp (int (length inp)) = Some str \<and>
     int (length str) = AV_BASE64_SIZE (int (length inp)) \<and>
     av_base64_decode (Some out) str (int (length out)) = Some (int (length inp), Some out') \<and>
     take (length inp) out' = inp"
proof -
  have "u32_of (int (length inp)) < UINT_MAX div 4" using assms(1) by (simp add: cint_simps)
  then show ?thesis
    using assms(2) decode_encode[of 0 inp out] assms(3) length_encode[of inp]
    by (auto simp: av_base64_encode_def av_base64_decode_def)
qed

theorem base64_roundtrip_witness:
  "\<exists>str out'. av_base64_encode 9 [1, 2, 3, 4] 4 = Some str \<and> int (length str) = 9 \<and>
     av_base64_decode (Some [0, 0, 0, 0]) str 4 = Some (4, Some out') \<and>
     take (length [1 :: u8, 2, 3, 4]) out' = [1, 2, 3, 4]"
  using base64_roundtrip[of "[1, 2, 3, 4]" 9 "[0, 0, 0, 0]"] by (simp add: AV_BASE64_SIZE_def)

text \<open>C23: Whatever the characters of a terminated string, decoding it into a buffer of the size base64.h asks for
  reads nothing behind the terminator and writes nothing outside the buffer, and the result is
  \<open>AVERROR_INVALIDDATA\<close> or a number of bytes that fit. The size is needed: two bytes encoded and decoded
  into a buffer of one byte, whose size the caller states correctly, are written past its end.\<close>

theorem base64_decode_bounds:
  assumes "0 \<notin> set str" "AV_BASE64_DECODE_SIZE (int (length str)) \<le> int (length out)"
  shows "(\<exists>r out'. av_base64_decode (Some out) (str @ [0]) (int (length out)) = Some (r, Some out') \<and>
        length out' = length out \<and> (r = AVERROR_INVALIDDATA \<or> (0 \<le> r \<and> r \<le> int (length out)))) \<and>
     av_base64_decode (Some [x]) (encode_loop [a, b] []) 1 = None"
proof
  have "decoded (length out) (decode_loop (str @ [0]) out 0 (int (length out)))"
    by (rule decode_loop_bounds) (use assms in \<open>auto simp: AV_BASE64_DECODE_SIZE_def\<close>)
  then show "\<exists>r out'. av_base64_decode (Some out) (str @ [0]) (int (length out)) = Some (r, Some out') \<and>
      length out' = length out \<and> (r = AVERROR_INVALIDDATA \<or> (0 \<le> r \<and> r \<le> int (length out)))"
    by (auto simp: decoded_def av_base64_decode_def)
  show "av_base64_decode (Some [x]) (encode_loop [a, b] []) 1 = None"
    by (simp add: av_base64_decode_def decode_loop.simps[of "encode_loop [a, b] []"] decode_tail_def dec_group_2
      out_label_def store_def)
qed

theorem base64_decode_bounds_witness:
  "\<exists>r out'. av_base64_decode (Some [0, 0, 0]) ([0x51, 0x55, 0x3f, 0x3d] @ [0]) 3 = Some (r, Some out') \<and> length out' = 3 \<and>
     (r = AVERROR_INVALIDDATA \<or> (0 \<le> r \<and> r \<le> 3))"
  using conjunct1[OF base64_decode_bounds[of "[0x51, 0x55, 0x3f, 0x3d]" "[0, 0, 0]"]] by (simp add: AV_BASE64_DECODE_SIZE_def numeral_3_eq_3)

end
