(* ===== verification/AVTree.thy ===== *)
theory AVTree
  imports Prelude
begin

text \<open>
  AVTree, the balanced tree of libavutil/tree.c: search with neighbours, the one function that
  inserts and removes, enumeration, and their correctness for any comparison that orders the elements.
  A null pointer is \<open>Null\<close>; elements are never null. \<open>state\<close> is the height of \<open>child[1]\<close> minus that of
  \<open>child[0]\<close>. \<open>None\<close> is a read through a null pointer or of an unset variable.
\<close>

section \<open>Operations\<close>

datatype 'a avtree = Null | AVTreeNode "'a avtree" (elem: 'a) (state: int) "'a avtree"

fun child :: "bool \<Rightarrow> 'a avtree \<Rightarrow> 'a avtree option" where
  "child i Null = None"
| "child i (AVTreeNode l e s r) = Some (if i then r else l)"

text \<open>A node with \<open>child[i] = a\<close> and \<open>child[i ^ 1] = b\<close>.\<close>

definition node :: "bool \<Rightarrow> 'a avtree \<Rightarrow> 'a \<Rightarrow> int \<Rightarrow> 'a avtree \<Rightarrow> 'a avtree" where
  "node i a e s b = (if i then AVTreeNode b e s a else AVTreeNode a e s b)"

text \<open>\<open>next\<close> is \<open>None\<close> for null, otherwise the two cells, each set or not. The result is the return value with the
  cells.\<close>

type_synonym 'a neighbours = "('a option \<times> 'a option) option"

fun av_tree_find :: "'a avtree \<Rightarrow> 'k \<Rightarrow> ('k \<Rightarrow> 'a \<Rightarrow> int) \<Rightarrow> 'a neighbours \<Rightarrow> 'a option \<times> 'a neighbours" where
  "av_tree_find Null key cmp nxt = (None, nxt)"
| "av_tree_find (AVTreeNode l e s r) key cmp nxt =
     (let v = cmp key e in
      if v \<noteq> 0 then
        (if v < 0 then av_tree_find l key cmp (map_option (\<lambda>(a, b). (a, Some e)) nxt)
         else av_tree_find r key cmp (map_option (\<lambda>(a, b). (Some e, b)) nxt))
      else
        (Some e, if nxt = None then None
                 else snd (av_tree_find r key cmp (snd (av_tree_find l key cmp nxt)))))"

text \<open>The rotations, for a node with state 2 or -2 whose higher child is \<open>child[i]\<close>.\<close>

fun rotate :: "bool \<Rightarrow> 'a avtree \<Rightarrow> 'a avtree option" where
  "rotate i Null = None"
| "rotate i (AVTreeNode l e s r) =
     (case (if i then r else l) of
        Null \<Rightarrow> None
      | AVTreeNode cl ce cs cr \<Rightarrow>
          (let other = (if i then l else r); inner = (if i then cl else cr); outer = (if i then cr else cl) in
           if cs * 2 = - s then
             (case inner of
                Null \<Rightarrow> None
              | AVTreeNode gl ge gs gr \<Rightarrow>
                  (let st0 = (if gs > 0 then - 1 else 0); st1 = (if gs < 0 then 1 else 0)
                   in Some (if i then AVTreeNode (AVTreeNode other e st0 gl) ge 0 (AVTreeNode gr ce st1 outer)
                            else AVTreeNode (AVTreeNode outer ce st0 gl) ge 0 (AVTreeNode gr e st1 other))))
           else
             (let st = (if cs \<noteq> 0 then 0 else drop_bit 1 s)
              in Some (node (\<not> i) (node i inner e st other) ce (- st) outer))))"

text \<open>What follows the recursive call when it returned null: the height of \<open>child[v >> 31]\<close> has changed. \<open>i\<close> is the
  child that is the higher one now; \<open>removed\<close> is \<open>*next != NULL\<close>. The result is the return value with the tree.\<close>

fun rebalance :: "bool \<Rightarrow> bool \<Rightarrow> 'a \<Rightarrow> 'a avtree \<Rightarrow> ('a option \<times> 'a avtree) option" where
  "rebalance right removed key Null = None"
| "rebalance right removed key (AVTreeNode l e s r) =
     (let i = (right \<noteq> removed);
          s = s + (if i then 1 else - 1);
          t = AVTreeNode l e s r
      in Option.bind (if s AND 1 = 0 \<and> s \<noteq> 0 then rotate i t else Some t) (\<lambda>tp.
           Some (if (state tp = 0) \<noteq> removed then Some key else None, tp)))"

text \<open>The way back up through a node with element \<open>e\<close>, whose \<open>child[right]\<close> the recursive call has replaced by \<open>c\<close>.\<close>

definition climb :: "bool \<Rightarrow> 'a \<Rightarrow> 'a \<Rightarrow> int \<Rightarrow> 'a avtree \<Rightarrow> ('a option \<times> 'a avtree \<times> bool) \<Rightarrow> ('a option \<times> 'a avtree \<times> bool) option" where
  "climb right key e s other = (\<lambda>(ret, c, nxt).
     if ret = None then Option.bind (rebalance right nxt key (node right c e s other)) (\<lambda>(ret, t). Some (ret, t, nxt))
     else Some (ret, node right c e s other, nxt))"

text \<open>\<open>nxt\<close> is \<open>*next != NULL\<close>; a node given for an insertion is zeroed. The result is the return value, the tree
  \<open>*tp\<close> and \<open>*next != NULL\<close> afterwards.\<close>

fun av_tree_insert :: "('a \<Rightarrow> 'a \<Rightarrow> int) \<Rightarrow> 'a avtree \<Rightarrow> 'a \<Rightarrow> bool \<Rightarrow> ('a option \<times> 'a avtree \<times> bool) option" where
  "av_tree_insert cmp Null key nxt =
     Some (if nxt then (None, AVTreeNode Null key 0 Null, False) else (Some key, Null, False))"
| "av_tree_insert cmp (AVTreeNode l e s r) key nxt =
     (let v = cmp e key;
          up = (\<lambda>right key e. Option.bind (av_tree_insert cmp (if right then r else l) key nxt)
                  (climb right key e s (if right then l else r)))
      in if v = 0 then
           if nxt then Some (Some e, AVTreeNode l e s r, nxt)
           else if l \<noteq> Null then
             Option.bind (fst (the (snd (av_tree_find l key cmp (Some (None, None)))))) (\<lambda>key. up False key key)
           else if r \<noteq> Null then
             Option.bind (snd (the (snd (av_tree_find r key cmp (Some (None, None)))))) (\<lambda>key. up True key key)
           else Some (None, Null, True)
         else up (v < 0) key e)"

text \<open>\<open>av_tree_enumerate\<close>: the elements \<open>enu\<close> is called with, in order. A null \<open>cmp\<close> is \<open>None\<close>.\<close>

fun av_tree_enumerate :: "'a avtree \<Rightarrow> ('a \<Rightarrow> int) option \<Rightarrow> 'a list" where
  "av_tree_enumerate Null cmp = []"
| "av_tree_enumerate (AVTreeNode l e s r) cmp =
     (let v = (case cmp of None \<Rightarrow> 0 | Some f \<Rightarrow> f e)
      in (if v \<ge> 0 then av_tree_enumerate l cmp else []) @ (if v = 0 then [e] else []) @
         (if v \<le> 0 then av_tree_enumerate r cmp else []))"

section \<open>Invariant\<close>

fun inorder :: "'a avtree \<Rightarrow> 'a list" where
  "inorder Null = []"
| "inorder (AVTreeNode l e s r) = inorder l @ e # inorder r"

fun height :: "'a avtree \<Rightarrow> nat" where
  "height Null = 0"
| "height (AVTreeNode l e s r) = Suc (max (height l) (height r))"

fun avl :: "'a avtree \<Rightarrow> bool" where
  "avl Null = True"
| "avl (AVTreeNode l e s r) \<longleftrightarrow> s = int (height r) - int (height l) \<and> \<bar>s\<bar> \<le> 1 \<and> avl l \<and> avl r"

lemma height_0 [simp]: "height t = 0 \<longleftrightarrow> t = Null"
  by (cases t) auto

lemma inorder_Nil [simp]: "inorder t = [] \<longleftrightarrow> t = Null"
  by (cases t) auto

text \<open>After one child of a valid node has changed its height by one, the node is rebalanced to a valid tree with the
  same elements; the return value is null if and only if the height of the whole has changed.\<close>

lemma drop_bit_2: "drop_bit 1 (2 :: int) = 1" "drop_bit 1 (- 2 :: int) = - 1"
  by (simp_all add: drop_bit_eq_div)

lemma and_1: "- 2 \<le> s \<Longrightarrow> s \<le> 2 \<Longrightarrow> (s AND 1 = (0 :: int) \<and> s \<noteq> 0) \<longleftrightarrow> (s = 2 \<or> s = - 2)"
  by (simp add: and_one_eq) presburger

lemma rotate_right:
  assumes "avl l" "avl r" "int (height r) - int (height l) = 2" "\<not> removed \<Longrightarrow> state r \<noteq> 0"
  shows "\<exists>t. rotate True (AVTreeNode l e 2 r) = Some t \<and> avl t \<and> inorder t = inorder l @ e # inorder r \<and>
     height t = (if state t = 0 then height r else Suc (height r)) \<and> (\<not> removed \<longrightarrow> state t = 0)"
proof -
  obtain cl ce cs cr where r: "r = AVTreeNode cl ce cs cr" using assms(3) by (cases r) auto
  show ?thesis
  proof (cases "cs * 2 = - 2")
    case True
    then obtain gl ge gs gr where "cl = AVTreeNode gl ge gs gr" using assms r by (cases cl) auto
    then show ?thesis using assms r True by (auto simp: max_def)
  next
    case False
    then show ?thesis using assms r by (auto simp: node_def drop_bit_2 max_def split: if_splits)
  qed
qed

lemma rotate_left:
  assumes "avl l" "avl r" "int (height r) - int (height l) = - 2" "\<not> removed \<Longrightarrow> state l \<noteq> 0"
  shows "\<exists>t. rotate False (AVTreeNode l e (- 2) r) = Some t \<and> avl t \<and> inorder t = inorder l @ e # inorder r \<and>
     height t = (if state t = 0 then height l else Suc (height l)) \<and> (\<not> removed \<longrightarrow> state t = 0)"
proof -
  obtain cl ce cs cr where l: "l = AVTreeNode cl ce cs cr" using assms(3) by (cases l) auto
  show ?thesis
  proof (cases "cs * 2 = 2")
    case True
    then obtain gl ge gs gr where "cr = AVTreeNode gl ge gs gr" using assms l by (cases cr) auto
    then show ?thesis using assms l True by (auto simp: max_def)
  next
    case False
    then show ?thesis using assms l by (auto simp: node_def drop_bit_2 max_def split: if_splits)
  qed
qed

lemma height_arith:
  assumes "removed \<Longrightarrow> h = Suc hc" "\<not> removed \<Longrightarrow> hc = Suc h" "\<bar>int h - int ho\<bar> \<le> 1" "\<bar>int hc - int ho\<bar> \<le> 1"
  shows "removed \<Longrightarrow> hc = ho \<Longrightarrow> Suc (max hc ho) = max h ho" "removed \<Longrightarrow> hc \<noteq> ho \<Longrightarrow> max hc ho = max h ho"
    "\<not> removed \<Longrightarrow> hc \<noteq> ho \<Longrightarrow> max hc ho = Suc (max h ho)" "\<not> removed \<Longrightarrow> hc = ho \<Longrightarrow> max hc ho = max h ho"
  using assms by (simp_all add: max_def)

text \<open>The contract of one node: \<open>c\<close> is the new \<open>child[right]\<close>, \<open>h\<close> the height the old one had, \<open>other\<close> the other child.\<close>

lemma rebalance_ok:
  assumes "avl c" "avl other" "s = (if right then int h - int (height other) else int (height other) - int h)" "\<bar>s\<bar> \<le> 1"
    and "if removed then h = Suc (height c) else height c = Suc h \<and> (state c \<noteq> 0 \<or> height c = 1)"
  shows "\<exists>ret t. rebalance right removed key (node right c e s other) = Some (ret, t) \<and> avl t \<and>
     inorder t = inorder (node right c e s other) \<and>
     (if ret = None then if removed then height t = max h (height other)
        else height t = Suc (Suc (max h (height other))) \<and> state t \<noteq> 0
      else ret = Some key \<and> height t = Suc (max h (height other)))"
proof -
  define l r where "l = (if right then other else c)" and "r = (if right then c else other)"
  define s' where "s' = s + (if right \<noteq> removed then 1 else - 1)"
  have n: "node right c e s other = AVTreeNode l e s r" by (simp add: node_def l_def r_def)
  have v: "avl l" "avl r" using assms(1,2) by (simp_all add: l_def r_def)
  have d: "s' = int (height r) - int (height l)"
    using assms(3,5) by (cases right; cases removed) (simp_all add: l_def r_def s'_def)
  have b: "\<bar>s'\<bar> \<le> 2" using assms(4) by (cases "right \<noteq> removed") (simp_all add: s'_def abs_le_iff)
  note v = v d b
  have rb: "rebalance right removed key (AVTreeNode l e s r) =
      Option.bind (if s' = 2 \<or> s' = - 2 then rotate (right \<noteq> removed) (AVTreeNode l e s' r) else Some (AVTreeNode l e s' r))
        (\<lambda>tp. Some (if (state tp = 0) \<noteq> removed then Some key else None, tp))"
    using and_1[of s'] v(4) by (simp add: s'_def Let_def)
  consider "s' = 2" | "s' = - 2" | "s' \<noteq> 2" "s' \<noteq> - 2" by blast
  then show ?thesis
  proof cases
    case 1
    then have i: "right \<noteq> removed" using assms(4) by (auto simp: s'_def split: if_splits)
    have "state r \<noteq> 0" if "\<not> removed"
      using that i assms(3,5) 1 by (cases "state c = 0") (auto simp: r_def s'_def)
    then obtain t where "rotate True (AVTreeNode l e 2 r) = Some t" "avl t" "inorder t = inorder l @ e # inorder r"
        "height t = (if state t = 0 then height r else Suc (height r))" "\<not> removed \<longrightarrow> state t = 0"
      using rotate_right[of l r removed e] v 1 by (auto simp del: rotate.simps)
    note t = this
    have R: "rebalance right removed key (AVTreeNode l e s r) = Some (if (state t = 0) \<noteq> removed then Some key else None, t)"
      unfolding rb using t(1) 1 i by (simp del: rotate.simps)
    show ?thesis
      unfolding n R using t(2-) assms(3,5) 1 d i by (cases removed) (simp_all add: l_def r_def max_def)
  next
    case 2
    then have i: "right = removed" using assms(4) by (auto simp: s'_def split: if_splits)
    have "state l \<noteq> 0" if "\<not> removed"
      using that i assms(3,5) 2 by (cases "state c = 0") (auto simp: l_def s'_def)
    then obtain t where "rotate False (AVTreeNode l e (- 2) r) = Some t" "avl t" "inorder t = inorder l @ e # inorder r"
        "height t = (if state t = 0 then height l else Suc (height l))" "\<not> removed \<longrightarrow> state t = 0"
      using rotate_left[of l r removed e] v 2 by (auto simp del: rotate.simps)
    note t = this
    have R: "rebalance right removed key (AVTreeNode l e s r) = Some (if (state t = 0) \<noteq> removed then Some key else None, t)"
      unfolding rb using t(1) 2 i by (simp del: rotate.simps)
    show ?thesis
      unfolding n R using t(2-) assms(3,5) 2 d i by (cases removed) (simp_all add: l_def r_def max_def)
  next
    case 3
    show ?thesis
    proof -
      have o: "s' = 0 \<or> s' = 1 \<or> s' = - 1" using b 3 by linarith
      have dc: "int (height c) - int (height other) = (if right then s' else - s')"
        using d by (simp add: l_def r_def)
      have "removed \<Longrightarrow> h = Suc (height c)" "\<not> removed \<Longrightarrow> height c = Suc h"
        using assms(5) by simp_all
      moreover have "\<bar>int h - int (height other)\<bar> \<le> 1"
        using assms(3,4) by (cases right) (simp_all add: abs_minus_commute)
      moreover have "\<bar>int (height c) - int (height other)\<bar> \<le> 1" "s' = 0 \<longleftrightarrow> height c = height other"
        using dc o by (cases right; auto)+
      ultimately have cs: "removed \<Longrightarrow> h = Suc (height c)" "\<not> removed \<Longrightarrow> height c = Suc h"
        "\<bar>int h - int (height other)\<bar> \<le> 1" "\<bar>int (height c) - int (height other)\<bar> \<le> 1"
        "s' = 0 \<longleftrightarrow> height c = height other" by blast+
      have R: "rebalance right removed key (AVTreeNode l e s r) =
          Some (if (s' = 0) \<noteq> removed then Some key else None, AVTreeNode l e s' r)"
        unfolding rb using 3 by simp
      have T: "avl (AVTreeNode l e s' r)" "inorder (AVTreeNode l e s' r) = inorder (AVTreeNode l e s r)"
        "height (AVTreeNode l e s' r) = Suc (max (height c) (height other))"
        using v o by (auto simp: l_def r_def)
      have H: "(if (s' = 0) \<noteq> removed then height (AVTreeNode l e s' r) = Suc (max h (height other))
          else if removed then height (AVTreeNode l e s' r) = max h (height other)
          else height (AVTreeNode l e s' r) = Suc (Suc (max h (height other))) \<and> s' \<noteq> 0)"
        unfolding T(3) using height_arith[OF cs(1-4)] cs(5) by (cases removed; cases "s' = 0") simp_all
      show ?thesis
        unfolding n R using T(1,2) H
        by (cases "(s' = 0) \<noteq> removed") (simp_all del: avl.simps height.simps inorder.simps)
    qed
  qed
qed

section \<open>Search\<close>

definition last_or :: "'a list \<Rightarrow> 'a option \<Rightarrow> 'a option" where
  "last_or xs a = (if xs = [] then a else Some (last xs))"

definition hd_or :: "'a list \<Rightarrow> 'a option \<Rightarrow> 'a option" where
  "hd_or xs a = (if xs = [] then a else Some (hd xs))"

text \<open>Along the tree, elements below the key come first, then those that match, then those above.\<close>

definition monotone_key :: "('k \<Rightarrow> 'a \<Rightarrow> int) \<Rightarrow> 'k \<Rightarrow> 'a list \<Rightarrow> bool" where
  "monotone_key cmp key xs \<longleftrightarrow> sorted_wrt (\<lambda>a b. sgn (cmp key b) \<le> sgn (cmp key a)) xs"

definition below :: "('k \<Rightarrow> 'a \<Rightarrow> int) \<Rightarrow> 'k \<Rightarrow> 'a list \<Rightarrow> 'a list" where
  "below cmp key xs = filter (\<lambda>e. cmp key e > 0) xs"

definition above :: "('k \<Rightarrow> 'a \<Rightarrow> int) \<Rightarrow> 'k \<Rightarrow> 'a list \<Rightarrow> 'a list" where
  "above cmp key xs = filter (\<lambda>e. cmp key e < 0) xs"

lemma monotone_parts:
  assumes "monotone_key cmp key (xs @ e # ys)"
  shows "monotone_key cmp key xs" "monotone_key cmp key ys"
    "cmp key e \<le> 0 \<Longrightarrow> below cmp key ys = []" "cmp key e \<ge> 0 \<Longrightarrow> above cmp key xs = []"
    "cmp key e < 0 \<Longrightarrow> above cmp key ys = ys" "cmp key e > 0 \<Longrightarrow> below cmp key xs = xs"
    "cmp key e \<noteq> 0 \<Longrightarrow> x \<in> set (if cmp key e < 0 then ys else xs) \<Longrightarrow> cmp key x \<noteq> 0"
  using assms by (auto simp: monotone_key_def sorted_wrt_append below_def above_def filter_empty_conv
      filter_id_conv sgn_if split: if_splits)

lemma find_next:
  "monotone_key cmp key (inorder t) \<Longrightarrow>
     snd (av_tree_find t key cmp (Some (a, b))) =
       Some (last_or (below cmp key (inorder t)) a, hd_or (above cmp key (inorder t)) b)"
proof (induction t arbitrary: a b)
  case Null
  then show ?case by (simp add: last_or_def hd_or_def below_def above_def)
next
  case (AVTreeNode l e s r)
  note p = monotone_parts[OF AVTreeNode.prems[unfolded inorder.simps]]
  note IH = AVTreeNode.IH(1)[OF p(1)] AVTreeNode.IH(2)[OF p(2)]
  have b: "below cmp key (inorder l @ e # inorder r) =
      below cmp key (inorder l) @ (if cmp key e > 0 then [e] else []) @ below cmp key (inorder r)"
    "above cmp key (inorder l @ e # inorder r) =
      above cmp key (inorder l) @ (if cmp key e < 0 then [e] else []) @ above cmp key (inorder r)"
    by (simp_all add: below_def above_def)
  consider "cmp key e < 0" | "cmp key e = 0" | "cmp key e > 0" by linarith
  then show ?case
    by cases (use IH p(3-6) in \<open>simp_all add: b last_or_def hd_or_def hd_append\<close>)
qed

lemma find_result:
  "monotone_key cmp key (inorder t) \<Longrightarrow>
     (case fst (av_tree_find t key cmp nxt) of
        None \<Rightarrow> \<forall>e \<in> set (inorder t). cmp key e \<noteq> 0
      | Some e \<Rightarrow> e \<in> set (inorder t) \<and> cmp key e = 0)"
proof (induction t arbitrary: nxt)
  case (AVTreeNode l e s r)
  note p = monotone_parts[OF AVTreeNode.prems[unfolded inorder.simps]]
  note IH = AVTreeNode.IH(1)[OF p(1)] AVTreeNode.IH(2)[OF p(2)]
  consider "cmp key e < 0" | "cmp key e = 0" | "cmp key e > 0" by linarith
  then show ?case
  proof cases
    case 1
    then show ?thesis using IH(1)[of "map_option (\<lambda>(a, b). (a, Some e)) nxt"] p(7)
      by (auto split: option.splits)
  next
    case 3
    then show ?thesis using IH(2)[of "map_option (\<lambda>(a, b). (Some e, b)) nxt"] p(7)
      by (auto split: option.splits)
  qed simp
qed simp

section \<open>Insertion and removal\<close>

text \<open>What a comparison has to satisfy: it orders the elements of \<open>S\<close>.\<close>

locale tree_order =
  fixes S :: "'a set" and cmp :: "'a \<Rightarrow> 'a \<Rightarrow> int"
  assumes cmp_refl: "a \<in> S \<Longrightarrow> cmp a a = 0"
    and cmp_flip: "a \<in> S \<Longrightarrow> b \<in> S \<Longrightarrow> sgn (cmp b a) = - sgn (cmp a b)"
    and cmp_trans: "a \<in> S \<Longrightarrow> b \<in> S \<Longrightarrow> c \<in> S \<Longrightarrow> cmp a b \<le> 0 \<Longrightarrow> cmp b c \<le> 0 \<Longrightarrow> cmp a c \<le> 0"

definition cmp_sorted :: "('a \<Rightarrow> 'a \<Rightarrow> int) \<Rightarrow> 'a list \<Rightarrow> bool" where
  "cmp_sorted cmp xs \<longleftrightarrow> sorted_wrt (\<lambda>a b. cmp a b < 0) xs"

text \<open>A sorted list with a new key, and without one.\<close>

definition ins_list :: "('a \<Rightarrow> 'a \<Rightarrow> int) \<Rightarrow> 'a \<Rightarrow> 'a list \<Rightarrow> 'a list" where
  "ins_list cmp key xs = filter (\<lambda>e. cmp e key < 0) xs @ key # filter (\<lambda>e. cmp e key > 0) xs"

definition del_list :: "('a \<Rightarrow> 'a \<Rightarrow> int) \<Rightarrow> 'a \<Rightarrow> 'a list \<Rightarrow> 'a list" where
  "del_list cmp key xs = filter (\<lambda>e. cmp e key \<noteq> 0) xs"

definition matches :: "('a \<Rightarrow> 'a \<Rightarrow> int) \<Rightarrow> 'a \<Rightarrow> 'a list \<Rightarrow> bool" where
  "matches cmp key xs \<longleftrightarrow> (\<exists>e \<in> set xs. cmp e key = 0)"

text \<open>What a call promises. \<open>changed rem ret h t\<close>: a null return value says that the height is no longer \<open>h\<close>.\<close>

definition changed :: "bool \<Rightarrow> 'a option \<Rightarrow> nat \<Rightarrow> 'a avtree \<Rightarrow> bool" where
  "changed rem ret h t \<longleftrightarrow>
     (if ret = None then if rem then h = Suc (height t) else height t = Suc h \<and> (state t \<noteq> 0 \<or> height t = 1)
      else height t = h)"

definition inserted :: "('a \<Rightarrow> 'a \<Rightarrow> int) \<Rightarrow> 'a avtree \<Rightarrow> 'a \<Rightarrow> 'a option \<Rightarrow> 'a avtree \<Rightarrow> bool \<Rightarrow> bool" where
  "inserted cmp t key ret t' nxt' \<longleftrightarrow> avl t' \<and>
     (if matches cmp key (inorder t) then nxt' \<and> t' = t \<and> (\<exists>e \<in> set (inorder t). ret = Some e \<and> cmp e key = 0)
      else \<not> nxt' \<and> inorder t' = ins_list cmp key (inorder t) \<and> (ret = None \<or> ret = Some key) \<and>
        changed False ret (height t) t')"

definition removed :: "('a \<Rightarrow> 'a \<Rightarrow> int) \<Rightarrow> 'a avtree \<Rightarrow> 'a \<Rightarrow> 'a option \<Rightarrow> 'a avtree \<Rightarrow> bool \<Rightarrow> bool" where
  "removed cmp t key ret t' nxt' \<longleftrightarrow> avl t' \<and>
     (if matches cmp key (inorder t)
      then nxt' \<and> inorder t' = del_list cmp key (inorder t) \<and> changed True ret (height t) t'
      else \<not> nxt' \<and> t' = t \<and> ret = Some key)"

text \<open>The way back up through one node.\<close>

lemma ascend_ok:
  assumes "avl (node right c0 e s other)" "avl c" "changed rem ret (height c0) c"
  shows "\<exists>ret' t'. (if ret = None then Option.bind (rebalance right rem key (node right c e s other)) (\<lambda>(ret, t). Some (ret, t, rem))
        else Some (ret, node right c e s other, rem)) = Some (ret', t', rem) \<and> avl t' \<and>
     inorder t' = inorder (node right c e s other) \<and> changed rem ret' (height (node right c0 e s other)) t' \<and>
     (ret' = None \<or> ret' = ret \<or> ret' = Some key)"
proof (cases ret)
  case None
  have "\<exists>ret t. rebalance right rem key (node right c e s other) = Some (ret, t) \<and> avl t \<and>
     inorder t = inorder (node right c e s other) \<and>
     (if ret = None then if rem then height t = max (height c0) (height other)
        else height t = Suc (Suc (max (height c0) (height other))) \<and> state t \<noteq> 0
      else ret = Some key \<and> height t = Suc (max (height c0) (height other)))"
    by (rule rebalance_ok) (use assms None in \<open>auto simp: node_def changed_def split: if_splits\<close>)
  moreover have "height (node right c0 e s other) = Suc (max (height c0) (height other))"
    by (simp add: node_def max.commute)
  ultimately have "\<exists>ret' t. rebalance right rem key (node right c e s other) = Some (ret', t) \<and> avl t \<and>
      inorder t = inorder (node right c e s other) \<and> (ret' = None \<or> ret' = Some key) \<and>
      changed rem ret' (height (node right c0 e s other)) t"
    unfolding changed_def by (metis (full_types) option.distinct(1))
  then obtain ret' t where R: "rebalance right rem key (node right c e s other) = Some (ret', t)" "avl t"
      "inorder t = inorder (node right c e s other)" "ret' = None \<or> ret' = Some key"
      "changed rem ret' (height (node right c0 e s other)) t"
    by blast
  then show ?thesis using None by (intro exI[of _ ret'] exI[of _ t]) simp
next
  case (Some x)
  then have "height c = height c0" using assms(3) by (simp add: changed_def)
  then show ?thesis using assms Some by (auto simp: changed_def node_def split: if_splits)
qed

context tree_order begin

lemma flip_less [simp]: "a \<in> S \<Longrightarrow> b \<in> S \<Longrightarrow> cmp b a > 0 \<longleftrightarrow> cmp a b < 0"
  using cmp_flip[of a b] by (auto simp: sgn_if split: if_splits)

lemma flip_eq: "a \<in> S \<Longrightarrow> b \<in> S \<Longrightarrow> cmp b a = 0 \<longleftrightarrow> cmp a b = 0"
  using cmp_flip[of a b] by (auto simp: sgn_if split: if_splits)

lemma less_le_trans: "a \<in> S \<Longrightarrow> b \<in> S \<Longrightarrow> c \<in> S \<Longrightarrow> cmp a b < 0 \<Longrightarrow> cmp b c \<le> 0 \<Longrightarrow> cmp a c < 0"
  using cmp_trans[of a b c] cmp_trans[of b c a] flip_less[of a b] flip_eq[of a c] by linarith

lemma le_less_trans: "a \<in> S \<Longrightarrow> b \<in> S \<Longrightarrow> c \<in> S \<Longrightarrow> cmp a b \<le> 0 \<Longrightarrow> cmp b c < 0 \<Longrightarrow> cmp a c < 0"
  using cmp_trans[of a b c] cmp_trans[of c a b] flip_less[of b c] flip_eq[of a c] by linarith

text \<open>A key against the list of a node.\<close>

lemma sorted_node:
  assumes "cmp_sorted cmp (xs @ e # ys)" "insert key (set (xs @ e # ys)) \<subseteq> S"
  shows "cmp_sorted cmp xs" "cmp_sorted cmp ys" "insert key (set xs) \<subseteq> S" "insert key (set ys) \<subseteq> S" "e \<in> S"
    "cmp e key \<le> 0 \<Longrightarrow> x \<in> set xs \<Longrightarrow> cmp x key < 0"
    "cmp e key \<ge> 0 \<Longrightarrow> y \<in> set ys \<Longrightarrow> cmp y key > 0"
proof -
  show "cmp_sorted cmp xs" "cmp_sorted cmp ys" "insert key (set xs) \<subseteq> S" "insert key (set ys) \<subseteq> S" "e \<in> S"
    using assms by (auto simp: cmp_sorted_def sorted_wrt_append)
  show "cmp x key < 0" if "cmp e key \<le> 0" "x \<in> set xs"
    using assms that less_le_trans[of x e key] by (auto simp: cmp_sorted_def sorted_wrt_append)
  show "cmp y key > 0" if "cmp e key \<ge> 0" "y \<in> set ys"
  proof -
    have "y \<in> S" "e \<in> S" "key \<in> S" "cmp e y < 0" "cmp key e \<le> 0"
      using assms that cmp_flip[of e key] by (auto simp: cmp_sorted_def sorted_wrt_append sgn_if split: if_splits)
    then show ?thesis using le_less_trans[of key e y] by simp
  qed
qed

lemma list_parts:
  assumes "cmp_sorted cmp (xs @ e # ys)" "insert key (set (xs @ e # ys)) \<subseteq> S"
  shows "cmp e key > 0 \<Longrightarrow> ins_list cmp key (xs @ e # ys) = ins_list cmp key xs @ e # ys"
    "cmp e key < 0 \<Longrightarrow> ins_list cmp key (xs @ e # ys) = xs @ e # ins_list cmp key ys"
    "cmp e key > 0 \<Longrightarrow> del_list cmp key (xs @ e # ys) = del_list cmp key xs @ e # ys"
    "cmp e key < 0 \<Longrightarrow> del_list cmp key (xs @ e # ys) = xs @ e # del_list cmp key ys"
    "cmp e key = 0 \<Longrightarrow> del_list cmp key (xs @ e # ys) = xs @ ys"
    "cmp e key > 0 \<Longrightarrow> matches cmp key (xs @ e # ys) = matches cmp key xs"
    "cmp e key < 0 \<Longrightarrow> matches cmp key (xs @ e # ys) = matches cmp key ys"
    "cmp e key = 0 \<Longrightarrow> matches cmp key (xs @ e # ys)"
proof -
  note n = sorted_node(6,7)[OF assms]
  have nx: "\<forall>x \<in> set xs. cmp x key \<noteq> 0" if "cmp e key \<le> 0"
    using n(1)[OF that] by fastforce
  have ny: "\<forall>y \<in> set ys. cmp y key \<noteq> 0" if "cmp e key \<ge> 0"
    using n(2)[OF that] by fastforce
  have f: "filter (\<lambda>x. cmp x key < 0) xs = xs" "filter (\<lambda>x. cmp x key > 0) xs = []" "filter (\<lambda>x. cmp x key \<noteq> 0) xs = xs"
    if "cmp e key \<le> 0"
    using n(1)[OF that] by (fastforce simp: filter_id_conv filter_empty_conv)+
  have g: "filter (\<lambda>x. cmp x key > 0) ys = ys" "filter (\<lambda>x. cmp x key < 0) ys = []" "filter (\<lambda>x. cmp x key \<noteq> 0) ys = ys"
    if "cmp e key \<ge> 0"
    using n(2)[OF that] by (fastforce simp: filter_id_conv filter_empty_conv)+
  show "cmp e key > 0 \<Longrightarrow> ins_list cmp key (xs @ e # ys) = ins_list cmp key xs @ e # ys"
    "cmp e key < 0 \<Longrightarrow> ins_list cmp key (xs @ e # ys) = xs @ e # ins_list cmp key ys"
    "cmp e key > 0 \<Longrightarrow> del_list cmp key (xs @ e # ys) = del_list cmp key xs @ e # ys"
    "cmp e key < 0 \<Longrightarrow> del_list cmp key (xs @ e # ys) = xs @ e # del_list cmp key ys"
    "cmp e key = 0 \<Longrightarrow> del_list cmp key (xs @ e # ys) = xs @ ys"
    using f g by (simp_all add: ins_list_def del_list_def)
  show "cmp e key > 0 \<Longrightarrow> matches cmp key (xs @ e # ys) = matches cmp key xs"
    "cmp e key < 0 \<Longrightarrow> matches cmp key (xs @ e # ys) = matches cmp key ys"
    "cmp e key = 0 \<Longrightarrow> matches cmp key (xs @ e # ys)"
    using nx ny by (auto simp: matches_def)
qed

text \<open>The neighbour that replaces a removed element.\<close>

lemma replacement:
  assumes "cmp_sorted cmp (xs @ e # ys)" "insert key (set (xs @ e # ys)) \<subseteq> S" "cmp e key = 0"
  shows "monotone_key cmp key xs" "monotone_key cmp key ys" "below cmp key xs = xs" "above cmp key ys = ys"
proof -
  note n = sorted_node(6,7)[OF assms(1,2)]
  have x: "x \<in> S" if "x \<in> set xs \<union> set ys \<union> {key}" for x using that assms(2) by auto
  have b: "\<forall>x \<in> set xs. cmp key x > 0" using n(1) assms(3) x by auto
  have "cmp y key > 0 \<longleftrightarrow> cmp key y < 0" if "y \<in> set ys" for y using that x by (intro flip_less) auto
  then have a: "\<forall>y \<in> set ys. cmp key y < 0" using n(2) assms(3) by simp
  show "below cmp key xs = xs" "above cmp key ys = ys"
    using a b by (auto simp: below_def above_def filter_id_conv)
  show "monotone_key cmp key xs" "monotone_key cmp key ys"
    using a b by (auto simp: monotone_key_def intro!: sorted_wrt_mono_rel[of _ "\<lambda>_ _. True"] sorted_wrt_true)
qed

lemma del_last:
  assumes "cmp_sorted cmp xs" "xs \<noteq> []" "set xs \<subseteq> S"
  shows "del_list cmp (last xs) xs = butlast xs" "matches cmp (last xs) xs"
proof -
  obtain ys y where xs: "xs = ys @ [y]" using assms(2) by (cases xs rule: rev_cases) auto
  have "y \<in> S" "\<forall>x \<in> set ys. cmp x y < 0" using assms by (auto simp: xs cmp_sorted_def sorted_wrt_append)
  then show "del_list cmp (last xs) xs = butlast xs" "matches cmp (last xs) xs"
    using cmp_refl[of y] by (force simp: xs del_list_def filter_id_conv matches_def)+
qed

lemma del_hd:
  assumes "cmp_sorted cmp xs" "xs \<noteq> []" "set xs \<subseteq> S"
  shows "del_list cmp (hd xs) xs = tl xs" "matches cmp (hd xs) xs"
proof -
  obtain y ys where xs: "xs = y # ys" using assms(2) by (cases xs) auto
  have y: "y \<in> S" "\<forall>x \<in> set ys. cmp y x < 0" "set ys \<subseteq> S" using assms by (auto simp: xs cmp_sorted_def)
  then have "\<forall>x \<in> set ys. cmp x y > 0" using flip_less[of y] by blast
  then show "del_list cmp (hd xs) xs = tl xs" "matches cmp (hd xs) xs"
    using cmp_refl[OF y(1)] by (force simp: xs del_list_def filter_id_conv matches_def)+
qed

text \<open>The child the key belongs to.\<close>

lemma side_parts:
  assumes "cmp_sorted cmp (inorder (AVTreeNode l e s r))" "insert key (set (inorder (AVTreeNode l e s r))) \<subseteq> S"
    and "cmp e key \<noteq> 0" "right \<longleftrightarrow> cmp e key < 0" "c0 = (if right then r else l)" "other = (if right then l else r)"
  shows "cmp_sorted cmp (inorder c0)" "insert key (set (inorder c0)) \<subseteq> S"
    "matches cmp key (inorder (AVTreeNode l e s r)) = matches cmp key (inorder c0)"
    "inorder c = ins_list cmp key (inorder c0) \<Longrightarrow>
       inorder (node right c e s other) = ins_list cmp key (inorder (AVTreeNode l e s r))"
    "inorder c = del_list cmp key (inorder c0) \<Longrightarrow>
       inorder (node right c e s other) = del_list cmp key (inorder (AVTreeNode l e s r))"
proof -
  note so = assms(1,2)[unfolded inorder.simps]
  note n = sorted_node[OF so] and p = list_parts[OF so]
  consider "right" "cmp e key < 0" | "\<not> right" "cmp e key > 0" using assms(3,4) by linarith
  note side = this
  show "cmp_sorted cmp (inorder c0)" "insert key (set (inorder c0)) \<subseteq> S" using n(1-4) assms(5) by simp_all
  show "matches cmp key (inorder (AVTreeNode l e s r)) = matches cmp key (inorder c0)"
    using side by cases (simp_all add: p(6,7) assms(5))
  show "inorder c = ins_list cmp key (inorder c0) \<Longrightarrow>
      inorder (node right c e s other) = ins_list cmp key (inorder (AVTreeNode l e s r))"
    "inorder c = del_list cmp key (inorder c0) \<Longrightarrow>
      inorder (node right c e s other) = del_list cmp key (inorder (AVTreeNode l e s r))"
    using side by (cases; simp add: p(1-4) node_def assms(5,6))+
qed

lemma insert_side:
  assumes "cmp e key \<noteq> 0" "right \<longleftrightarrow> cmp e key < 0" "c0 = (if right then r else l)" "other = (if right then l else r)"
  shows "av_tree_insert cmp (AVTreeNode l e s r) key nxt = Option.bind (av_tree_insert cmp c0 key nxt) (climb right key e s other)"
  using assms by (simp add: Let_def)

lemma climb_ok:
  assumes "avl (AVTreeNode l e0 s r)" "AVTreeNode l e0 s r = node right c0 e0 s other" "avl c" "changed nxt ret (height c0) c"
  shows "\<exists>ret' t'. climb right key e s other (ret, c, nxt) = Some (ret', t', nxt) \<and> avl t' \<and>
     inorder t' = inorder (node right c e s other) \<and> changed nxt ret' (height (AVTreeNode l e0 s r)) t' \<and>
     (ret' = None \<or> ret' = ret \<or> ret' = Some key)"
proof -
  have a: "avl (node right c0 e s other)" "height (node right c0 e s other) = height (AVTreeNode l e0 s r)"
    using assms(1,2) by (auto simp: node_def split: if_splits)
  show ?thesis using ascend_ok[OF a(1) assms(3,4), of key] unfolding a(2) climb_def by simp
qed

lemma climb_Some: "climb right key e s other (Some x, c, nxt) = Some (Some x, node right c e s other, nxt)"
  by (simp add: climb_def)

lemma insert_ok:
  "avl t \<Longrightarrow> cmp_sorted cmp (inorder t) \<Longrightarrow> insert key (set (inorder t)) \<subseteq> S \<Longrightarrow>
     \<exists>ret t' nxt'. av_tree_insert cmp t key True = Some (ret, t', nxt') \<and> inserted cmp t key ret t' nxt'"
proof (induction t)
  case Null
  then show ?case by (auto simp: inserted_def matches_def ins_list_def changed_def intro: exI[of _ False])
next
  case (AVTreeNode l e s r)
  define right where "right \<longleftrightarrow> cmp e key < 0"
  define c0 where "c0 = (if right then r else l)"
  define other where "other = (if right then l else r)"
  show ?case
  proof (cases "cmp e key = 0")
    case True
    then show ?thesis
      using AVTreeNode.prems list_parts(8)[OF AVTreeNode.prems(2,3)[unfolded inorder.simps]] by (auto simp: inserted_def)
  next
    case v: False
    note p = side_parts[OF AVTreeNode.prems(2,3) v right_def c0_def other_def]
      and i = insert_side[OF v right_def c0_def other_def, of s True]
    have t: "AVTreeNode l e s r = node right c0 e s other" by (simp add: node_def other_def c0_def)
    have "avl c0" using AVTreeNode.prems(1) by (simp add: c0_def)
    then obtain ret c n0 where c: "av_tree_insert cmp c0 key True = Some (ret, c, n0)" "inserted cmp c0 key ret c n0"
      using AVTreeNode.IH p(1,2) by (cases right) (auto simp: c0_def)
    show ?thesis
    proof (cases "matches cmp key (inorder c0)")
      case True
      then obtain x where x: "n0" "c = c0" "ret = Some x" "x \<in> set (inorder c0)" "cmp x key = 0"
        using c(2) by (auto simp: inserted_def)
      have "x \<in> set (inorder (AVTreeNode l e s r))" using x(4) by (simp add: c0_def split: if_splits)
      then show ?thesis
        unfolding i c(1) using x True p(3) AVTreeNode.prems(1)
        by (auto simp: climb_Some inserted_def simp del: avl.simps inorder.simps simp flip: t intro!: exI[of _ True])
    next
      case False
      then have ci: "n0 = False" "avl c" "inorder c = ins_list cmp key (inorder c0)" "ret = None \<or> ret = Some key"
          "changed False ret (height c0) c"
        using c(2) by (auto simp: inserted_def)
      obtain ret' t' where "climb right key e s other (ret, c, False) = Some (ret', t', False)" "avl t'"
          "inorder t' = inorder (node right c e s other)" "changed False ret' (height (AVTreeNode l e s r)) t'"
          "ret' = None \<or> ret' = ret \<or> ret' = Some key"
        using climb_ok[OF AVTreeNode.prems(1) t ci(2,5)] by blast
      then show ?thesis
        unfolding i c(1) using False p(3) p(4)[OF ci(3)] ci(1,4) by (auto simp: inserted_def)
    qed
  qed
qed

lemma replaced_key:
  assumes "cmp_sorted cmp (inorder (AVTreeNode l e s r))" "insert key (set (inorder (AVTreeNode l e s r))) \<subseteq> S" "cmp e key = 0"
  shows "l \<noteq> Null \<Longrightarrow> fst (the (snd (av_tree_find l key cmp (Some (None, None))))) = Some (last (inorder l))"
    "r \<noteq> Null \<Longrightarrow> snd (the (snd (av_tree_find r key cmp (Some (None, None))))) = Some (hd (inorder r))"
  using find_next[of cmp key l None None] find_next[of cmp key r None None]
    replacement[OF assms[unfolded inorder.simps]]
  by (simp_all add: last_or_def hd_or_def)

lemma climb_removed:
  assumes "avl (AVTreeNode l e0 s r)" "AVTreeNode l e0 s r = node right c0 e0 s other"
    and "matches cmp key (inorder (AVTreeNode l e0 s r))" "avl c" "changed True ret (height c0) c"
    and "inorder (node right c e s other) = del_list cmp key (inorder (AVTreeNode l e0 s r))"
  shows "\<exists>ret' t' nxt'. climb right k e s other (ret, c, True) = Some (ret', t', nxt') \<and>
     removed cmp (AVTreeNode l e0 s r) key ret' t' nxt'"
  using climb_ok[OF assms(1,2,4,5), of k e] assms(3,6) by (fastforce simp: removed_def)

text \<open>A found element with a child is replaced by its neighbour in \<open>child[right]\<close>, which is removed there.\<close>

lemma remove_replaced:
  assumes "avl (AVTreeNode l e s r)" "cmp_sorted cmp (inorder (AVTreeNode l e s r))"
    and "insert key (set (inorder (AVTreeNode l e s r))) \<subseteq> S" "cmp e key = 0"
    and "c0 = (if right then r else l)" "other = (if right then l else r)" "c0 \<noteq> Null"
    and "k = (if right then hd (inorder c0) else last (inorder c0))"
    and IH: "\<And>k. avl c0 \<Longrightarrow> cmp_sorted cmp (inorder c0) \<Longrightarrow> insert k (set (inorder c0)) \<subseteq> S \<Longrightarrow>
      \<exists>ret t' nxt'. av_tree_insert cmp c0 k False = Some (ret, t', nxt') \<and> removed cmp c0 k ret t' nxt'"
  shows "\<exists>ret t' nxt'. Option.bind (av_tree_insert cmp c0 k False) (climb right k k s other) = Some (ret, t', nxt') \<and>
     removed cmp (AVTreeNode l e s r) key ret t' nxt'"
proof -
  note so = assms(2,3)[unfolded inorder.simps]
  note n = sorted_node[OF so] and p = list_parts[OF so]
  have c0: "avl c0" "cmp_sorted cmp (inorder c0)" "set (inorder c0) \<subseteq> S" "inorder c0 \<noteq> []"
    using assms(1,5,7) n(1-4) by auto
  then have "insert k (set (inorder c0)) \<subseteq> S" using assms(8) by (auto simp: subset_iff)
  then obtain ret c n0 where c: "av_tree_insert cmp c0 k False = Some (ret, c, n0)" "removed cmp c0 k ret c n0"
    using IH[OF c0(1,2)] by blast
  have "matches cmp k (inorder c0)" "del_list cmp k (inorder c0) = (if right then tl (inorder c0) else butlast (inorder c0))"
    using del_hd[OF c0(2,4,3)] del_last[OF c0(2,4,3)] assms(8) by simp_all
  then have c': "n0 = True" "avl c" "changed True ret (height c0) c"
      "inorder c = (if right then tl (inorder c0) else butlast (inorder c0))"
    using c(2) by (simp_all add: removed_def)
  have "inorder (node right c k s other) = inorder l @ inorder r"
  proof (cases right)
    case True
    then show ?thesis using c0(4) assms(5,6,8) by (simp add: node_def c'(4))
  next
    case False
    then have "inorder (node right c k s other) = (butlast (inorder c0) @ [last (inorder c0)]) @ inorder r"
      using assms(6,8) by (simp add: node_def c'(4))
    then show ?thesis using c0(4) False assms(5) by simp
  qed
  then have "inorder (node right c k s other) = del_list cmp key (inorder (AVTreeNode l e s r))"
    using p(5) assms(4) by simp
  note d = this
  have t: "AVTreeNode l e s r = node right c0 e s other" by (simp add: node_def assms(5,6))
  have "matches cmp key (inorder (AVTreeNode l e s r))" using p(8) assms(4) by simp
  from climb_removed[OF assms(1) t this c'(2,3) d, of k] show ?thesis
    unfolding c(1) c'(1) bind.bind_lunit .
qed

lemma remove_ok:
  "avl t \<Longrightarrow> cmp_sorted cmp (inorder t) \<Longrightarrow> insert key (set (inorder t)) \<subseteq> S \<Longrightarrow>
     \<exists>ret t' nxt'. av_tree_insert cmp t key False = Some (ret, t', nxt') \<and> removed cmp t key ret t' nxt'"
proof (induction t arbitrary: key)
  case Null
  then show ?case by (auto simp: removed_def matches_def)
next
  case (AVTreeNode l e s r)
  note so = AVTreeNode.prems(2,3)[unfolded inorder.simps]
  consider (leaf) "cmp e key = 0" "l = Null" "r = Null" | (prev) "cmp e key = 0" "l \<noteq> Null"
    | (nxt) "cmp e key = 0" "l = Null" "r \<noteq> Null" | (other) "cmp e key \<noteq> 0" by blast
  then show ?case
  proof cases
    case leaf
    then show ?thesis using list_parts(5,8)[OF so] by (auto simp: removed_def changed_def intro: exI[of _ True])
  next
    case prev
    have "av_tree_insert cmp (AVTreeNode l e s r) key False =
        Option.bind (av_tree_insert cmp l (last (inorder l)) False) (climb False (last (inorder l)) (last (inorder l)) s r)"
      using prev replaced_key(1)[OF AVTreeNode.prems(2,3) prev] by (simp add: Let_def)
    then show ?thesis
      using remove_replaced[OF AVTreeNode.prems prev(1), of l False r "last (inorder l)"] AVTreeNode.IH(1) prev(2) by simp
  next
    case nxt
    have "av_tree_insert cmp (AVTreeNode l e s r) key False =
        Option.bind (av_tree_insert cmp r (hd (inorder r)) False) (climb True (hd (inorder r)) (hd (inorder r)) s l)"
      using nxt replaced_key(2)[OF AVTreeNode.prems(2,3) nxt(1,3)] by (simp add: Let_def)
    then show ?thesis
      using remove_replaced[OF AVTreeNode.prems nxt(1), of r True l "hd (inorder r)"] AVTreeNode.IH(2) nxt(3) by simp
  next
    case v: other
    define right where "right \<longleftrightarrow> cmp e key < 0"
    define c0 where "c0 = (if right then r else l)"
    define other where "other = (if right then l else r)"
    note p = side_parts[OF AVTreeNode.prems(2,3) v right_def c0_def other_def]
      and i = insert_side[OF v right_def c0_def other_def, of s False]
    have t: "AVTreeNode l e s r = node right c0 e s other" by (simp add: node_def other_def c0_def)
    have "avl c0" using AVTreeNode.prems(1) by (simp add: c0_def)
    then have "\<exists>ret t' nxt'. av_tree_insert cmp c0 key False = Some (ret, t', nxt') \<and> removed cmp c0 key ret t' nxt'"
      using AVTreeNode.IH(1)[of key] AVTreeNode.IH(2)[of key] p(1,2) unfolding c0_def by (cases right) simp_all
    then obtain ret c n0 where c: "av_tree_insert cmp c0 key False = Some (ret, c, n0)" "removed cmp c0 key ret c n0"
      by blast
    show ?thesis
    proof (cases "matches cmp key (inorder c0)")
      case True
      then have ci: "n0 = True" "avl c" "inorder c = del_list cmp key (inorder c0)" "changed True ret (height c0) c"
        using c(2) by (auto simp: removed_def)
      show ?thesis
        unfolding i c(1) using climb_removed[OF AVTreeNode.prems(1) t _ ci(2,4) p(5)[OF ci(3)]] p(3) True ci(1) by simp
    next
      case False
      then show ?thesis
        unfolding i c(1) using c(2) p(3) AVTreeNode.prems(1)
        by (auto simp: climb_Some removed_def simp del: avl.simps inorder.simps simp flip: t)
    qed
  qed
qed

end

section \<open>Height and enumeration\<close>

lemma avl_size: "avl t \<Longrightarrow> 2 ^ (height t div 2) \<le> length (inorder t) + 1"
proof (induction t)
  case (AVTreeNode l e s r)
  let ?h = "height (AVTreeNode l e s r)"
  have h: "?h - 2 \<le> height l" "?h - 2 \<le> height r" using AVTreeNode.prems by auto
  show ?case
  proof (cases "?h < 2")
    case True
    then have "height l = 0" "height r = 0" by auto
    then show ?thesis by simp
  next
    case False
    then have "2 \<le> ?h" by (simp only: not_less)
    then have "?h div 2 = Suc ((?h - 2) div 2)" by (rule le_div_geq[rotated]) simp
    then have "(2 :: nat) ^ (?h div 2) = 2 ^ ((?h - 2) div 2) + 2 ^ ((?h - 2) div 2)"
      by (simp only: power_Suc mult_2)
    also have "\<dots> \<le> 2 ^ (height l div 2) + 2 ^ (height r div 2)"
      using h by (intro add_mono power_increasing div_le_mono) auto
    also have "\<dots> \<le> length (inorder l) + 1 + (length (inorder r) + 1)"
      using AVTreeNode by (intro add_mono) auto
    finally show ?thesis by simp
  qed
qed simp

lemma enumerate_null: "av_tree_enumerate t None = inorder t"
  by (induction t) auto

lemma enumerate_range:
  "sorted_wrt (\<lambda>a b. sgn (f a) \<le> sgn (f b)) (inorder t) \<Longrightarrow> av_tree_enumerate t (Some f) = filter (\<lambda>e. f e = 0) (inorder t)"
proof (induction t)
  case (AVTreeNode l e s r)
  have p: "sorted_wrt (\<lambda>a b. sgn (f a) \<le> sgn (f b)) (inorder l)" "sorted_wrt (\<lambda>a b. sgn (f a) \<le> sgn (f b)) (inorder r)"
    "\<forall>x \<in> set (inorder l). sgn (f x) \<le> sgn (f e)" "\<forall>x \<in> set (inorder r). sgn (f e) \<le> sgn (f x)"
    using AVTreeNode.prems by (auto simp: sorted_wrt_append)
  have l: "f e < 0 \<Longrightarrow> filter (\<lambda>e. f e = 0) (inorder l) = []" and r: "f e > 0 \<Longrightarrow> filter (\<lambda>e. f e = 0) (inorder r) = []"
    using p(3,4) by (fastforce simp: filter_empty_conv sgn_if split: if_splits)+
  show ?case using AVTreeNode.IH(1)[OF p(1)] AVTreeNode.IH(2)[OF p(2)] l r by (simp add: Let_def)
qed simp

section \<open>Syncpoints of the NUT format (libavformat/nut.c)\<close>

text \<open>Positions are \<open>uint64_t\<close>; their difference wraps, and the difference of the two high halves is
  converted to \<open>int\<close>.\<close>

record Syncpoint =
  pos :: int
  back_ptr :: int
  ts :: int

definition ff_nut_sp_pos_cmp :: "Syncpoint \<Rightarrow> Syncpoint \<Rightarrow> int" where
  "ff_nut_sp_pos_cmp a b =
     s32 (u64_of (u64_of (pos a - pos b) div 2 ^ 32 - u64_of (pos b - pos a) div 2 ^ 32))"

record NUTContext =
  syncpoints :: "Syncpoint avtree"
  sp_count :: int

text \<open>\<open>ok\<close> is the success of the two allocations. A point whose position is known already is freed again.\<close>

definition ff_nut_add_sp :: "NUTContext \<Rightarrow> bool \<Rightarrow> int \<Rightarrow> int \<Rightarrow> int \<Rightarrow> (int \<times> NUTContext) option" where
  "ff_nut_add_sp nut ok p bp t =
     (if \<not> ok then Some (ENOMEM, nut)
      else Option.bind (av_tree_insert ff_nut_sp_pos_cmp (syncpoints nut) \<lparr>pos = p, back_ptr = bp, ts = t\<rparr> True)
        (\<lambda>(ret, tree, node). Some (0, \<lparr>syncpoints = tree, sp_count = sp_count nut + 1\<rparr>)))"

lemma div_bounds: "4294967296 * (x div 4294967296) \<le> x" "x < 4294967296 * (x div 4294967296) + (4294967296 :: int)"
  using mult_div_mod_eq[of 4294967296 x] pos_mod_bound[of 4294967296 x] pos_mod_sign[of 4294967296 x] by linarith+

lemma pos_cmp_diff:
  assumes "0 < d" "d < 2 ^ 62"
  shows "s32 (u64_of (u64_of d div 2 ^ 32 - u64_of (- d) div 2 ^ 32)) > 0"
    "s32 (u64_of (u64_of (- d) div 2 ^ 32 - u64_of d div 2 ^ 32)) < 0"
proof -
  have m: "u64_of d = d" "u64_of (- d) = 18446744073709551616 - d"
    using assms by (simp_all add: u64_of_def zmod_zminus1_eq_if)
  define q q' where "q = d div 4294967296" and "q' = (18446744073709551616 - d) div 4294967296"
  have b: "0 \<le> q" "q < 1073741824" "q' \<le> 4294967295" "3221225472 \<le> q'"
    using assms(1) assms(2)[simplified] div_bounds[of d] div_bounds[of "18446744073709551616 - d"] unfolding q_def q'_def by linarith+
  have "u64_of (q - q') = q - q' + 18446744073709551616" "u64_of (q' - q) = q' - q"
    using b by (auto simp: u64_of_def mod_pos_pos_trivial mod_add_self2[of "q - q'" "18446744073709551616", symmetric] simp del: mod_add_self2)
  moreover define v where "v = q - q' + 4294967296"
  moreover have "s32 (x + 4294967296 * k) = x" if "in_s32 x" for x k
  proof -
    have "x + 4294967296 * k + 2147483648 = x + 2147483648 + 4294967296 * k" by simp
    then show ?thesis using s32_id[OF that] unfolding s32_def by (simp only: mod_mult_self2)
  qed
  from this[of v 4294967295] this[of "- v" 1]
  have "s32 (q - q' + 18446744073709551616) = v" "s32 (q' - q) = - v"
    using b by (simp_all add: v_def in_s32_def add.commute)
  ultimately show "s32 (u64_of (u64_of d div 2 ^ 32 - u64_of (- d) div 2 ^ 32)) > 0"
    "s32 (u64_of (u64_of (- d) div 2 ^ 32 - u64_of d div 2 ^ 32)) < 0"
    unfolding m using b by (simp_all flip: q_def q'_def)
qed

definition valid_sp :: "Syncpoint set" where
  "valid_sp = {a. 0 \<le> pos a \<and> pos a < 2 ^ 62}"

lemma pos_cmp_sgn:
  assumes "a \<in> valid_sp" "b \<in> valid_sp"
  shows "sgn (ff_nut_sp_pos_cmp a b) = sgn (pos a - pos b)"
proof -
  consider "pos a = pos b" | "pos a > pos b" | "pos a < pos b" by linarith
  then show ?thesis
  proof cases
    case 1
    then show ?thesis by (simp add: ff_nut_sp_pos_cmp_def u64_of_def s32_def)
  next
    case 2
    then show ?thesis
      using pos_cmp_diff(1)[of "pos a - pos b"] assms by (simp add: ff_nut_sp_pos_cmp_def valid_sp_def)
  next
    case 3
    then show ?thesis
      using pos_cmp_diff(2)[of "pos b - pos a"] assms by (simp add: ff_nut_sp_pos_cmp_def valid_sp_def)
  qed
qed

lemma pos_cmp_iff:
  assumes "a \<in> valid_sp" "b \<in> valid_sp"
  shows "ff_nut_sp_pos_cmp a b < 0 \<longleftrightarrow> pos a < pos b" "ff_nut_sp_pos_cmp a b = 0 \<longleftrightarrow> pos a = pos b"
    "ff_nut_sp_pos_cmp a b > 0 \<longleftrightarrow> pos b < pos a" "ff_nut_sp_pos_cmp a b \<le> 0 \<longleftrightarrow> pos a \<le> pos b"
  using pos_cmp_sgn[OF assms] by (auto simp: sgn_if split: if_splits)

interpretation nut: tree_order valid_sp ff_nut_sp_pos_cmp
  by unfold_locales (auto simp: pos_cmp_iff pos_cmp_sgn sgn_if)

text \<open>Adding points one after the other.\<close>

fun add_points :: "NUTContext \<Rightarrow> Syncpoint list \<Rightarrow> NUTContext option" where
  "add_points nut [] = Some nut"
| "add_points nut (p # ps) =
     Option.bind (ff_nut_add_sp nut True (pos p) (back_ptr p) (ts p)) (\<lambda>(ret, nut). add_points nut ps)"

text \<open>The points that are kept: the first with its position.\<close>

fun first_points :: "Syncpoint list \<Rightarrow> Syncpoint list" where
  "first_points [] = []"
| "first_points (p # ps) = p # filter (\<lambda>q. pos q \<noteq> pos p) (first_points ps)"

definition nut_ok :: "NUTContext \<Rightarrow> bool" where
  "nut_ok nut \<longleftrightarrow> avl (syncpoints nut) \<and> cmp_sorted ff_nut_sp_pos_cmp (inorder (syncpoints nut)) \<and>
     set (inorder (syncpoints nut)) \<subseteq> valid_sp"

context tree_order begin

lemma set_ins_list: "\<not> matches cmp key xs \<Longrightarrow> set (ins_list cmp key xs) = insert key (set xs)"
  by (auto simp: ins_list_def matches_def)

lemma sorted_ins_list:
  assumes "cmp_sorted cmp xs" "insert key (set xs) \<subseteq> S"
  shows "cmp_sorted cmp (ins_list cmp key xs)"
proof -
  have "cmp a b < 0" if "a \<in> set xs" "b \<in> set xs" "cmp a key < 0" "cmp b key > 0" for a b
    using that assms(2) le_less_trans[of a key b] flip_less[of key b] by auto
  moreover have "cmp key b < 0" if "b \<in> set xs" "cmp b key > 0" for b
    using that assms(2) flip_less[of key b] by auto
  ultimately show ?thesis
    using assms(1) by (auto simp: cmp_sorted_def ins_list_def sorted_wrt_append sorted_wrt_filter)
qed

lemma sorted_del_list: "cmp_sorted cmp xs \<Longrightarrow> cmp_sorted cmp (del_list cmp key xs)"
  by (simp add: cmp_sorted_def del_list_def sorted_wrt_filter)

lemma monotone_self:
  assumes "cmp_sorted cmp xs" "insert key (set xs) \<subseteq> S"
  shows "monotone_key cmp key xs"
  unfolding monotone_key_def
proof (rule sorted_wrt_mono_rel)
  show "sorted_wrt (\<lambda>a b. cmp a b < 0) xs" using assms(1) by (simp add: cmp_sorted_def)
  fix a b assume ab: "a \<in> set xs" "b \<in> set xs" "cmp a b < 0"
  then have S: "a \<in> S" "b \<in> S" "key \<in> S" using assms(2) by auto
  show "sgn (cmp key b) \<le> sgn (cmp key a)"
    using cmp_trans[OF S(3,1,2)] ab(3) less_le_trans[OF S(1,2,3)] cmp_flip[OF S(3,1)] cmp_flip[OF S(3,2)]
      le_less_trans[OF S(3,1,2)]
    by (auto simp: sgn_if split: if_splits)
qed

end

lemma points_ok:
  "nut_ok nut \<Longrightarrow> set ps \<subseteq> valid_sp \<Longrightarrow>
     \<exists>nut'. add_points nut ps = Some nut' \<and> nut_ok nut' \<and> sp_count nut' = sp_count nut + int (length ps) \<and>
       set (inorder (syncpoints nut')) =
         set (inorder (syncpoints nut)) \<union> {p \<in> set (first_points ps). pos p \<notin> pos ` set (inorder (syncpoints nut))}"
proof (induction ps arbitrary: nut)
  case (Cons p ps)
  let ?xs = "inorder (syncpoints nut)"
  have o: "avl (syncpoints nut)" "cmp_sorted ff_nut_sp_pos_cmp ?xs" "insert p (set ?xs) \<subseteq> valid_sp"
    using Cons.prems by (auto simp: nut_ok_def)
  obtain ret t n where i: "av_tree_insert ff_nut_sp_pos_cmp (syncpoints nut) p True = Some (ret, t, n)"
      "inserted ff_nut_sp_pos_cmp (syncpoints nut) p ret t n"
    using nut.insert_ok[OF o] by blast
  define nut1 where "nut1 = \<lparr>syncpoints = t, sp_count = sp_count nut + 1\<rparr>"
  have a: "add_points nut (p # ps) = add_points nut1 ps"
  proof -
    have "\<lparr>pos = pos p, back_ptr = back_ptr p, ts = ts p\<rparr> = p" by (cases p) simp
    then show ?thesis unfolding add_points.simps ff_nut_add_sp_def by (simp only:) (simp add: i(1) nut1_def)
  qed
  have m: "matches ff_nut_sp_pos_cmp p ?xs \<longleftrightarrow> pos p \<in> pos ` set ?xs"
    using o(3) by (auto simp: matches_def pos_cmp_iff subset_iff) (metis imageI)
  have t: "nut_ok nut1" "set (inorder t) = set ?xs \<union> (if pos p \<in> pos ` set ?xs then {} else {p})"
    using i(2) o m nut.sorted_ins_list[OF o(2,3)] nut.set_ins_list[of p ?xs]
    by (auto simp: inserted_def nut_ok_def nut1_def split: if_splits)
  from Cons.IH[OF t(1)] Cons.prems(2) obtain nut' where n: "add_points nut1 ps = Some nut'" "nut_ok nut'"
      "sp_count nut' = sp_count nut1 + int (length ps)"
      "set (inorder (syncpoints nut')) =
         set (inorder t) \<union> {q \<in> set (first_points ps). pos q \<notin> pos ` set (inorder t)}"
    by (auto simp: nut1_def)
  then show ?case unfolding a using t(2) by (auto simp: nut1_def)
qed auto

section \<open>Properties\<close>

text \<open>C20: For any comparison that orders the elements, inserting a key into a balanced sorted tree never goes
  through a null pointer and gives a balanced sorted tree: the same one, with the element found returned
  and the node not used, if the key is there, otherwise one with the key at its place.\<close>

theorem tree_insert_correct:
  assumes "tree_order S cmp" "avl t" "cmp_sorted cmp (inorder t)" "insert key (set (inorder t)) \<subseteq> S"
  shows "\<exists>ret t' node. av_tree_insert cmp t key True = Some (ret, t', node) \<and> avl t' \<and> cmp_sorted cmp (inorder t') \<and>
     (if matches cmp key (inorder t) then node \<and> t' = t \<and> (\<exists>e \<in> set (inorder t). ret = Some e \<and> cmp e key = 0)
      else \<not> node \<and> inorder t' = ins_list cmp key (inorder t) \<and> (ret = None \<or> ret = Some key))"
  using tree_order.insert_ok[OF assms] tree_order.sorted_ins_list[OF assms(1,3,4)] assms(3)
  by (fastforce simp: inserted_def)

theorem tree_insert_correct_witness:
  "\<exists>ret t' node. av_tree_insert ff_nut_sp_pos_cmp (AVTreeNode Null \<lparr>pos = 4, back_ptr = 0, ts = 1\<rparr> 0 Null)
     \<lparr>pos = 9, back_ptr = 0, ts = 2\<rparr> True = Some (ret, t', node) \<and> avl t' \<and> \<not> node \<and> map pos (inorder t') = [4, 9]"
proof -
  let ?a = "\<lparr>pos = 4, back_ptr = 0, ts = 1\<rparr>" and ?b = "\<lparr>pos = 9, back_ptr = 0, ts = 2\<rparr>"
  have "?a \<in> valid_sp" "?b \<in> valid_sp" by (simp_all add: valid_sp_def)
  then show ?thesis
    using tree_insert_correct[OF nut.tree_order_axioms, of "AVTreeNode Null ?a 0 Null" ?b]
    by (auto simp: cmp_sorted_def matches_def ins_list_def pos_cmp_iff)
qed

text \<open>C21: Removing a key from a balanced sorted tree gives a balanced sorted tree without the elements equal to the key,
  and hands back a node; a key that is not there leaves the tree as it is and is returned.\<close>

theorem tree_remove_correct:
  assumes "tree_order S cmp" "avl t" "cmp_sorted cmp (inorder t)" "insert key (set (inorder t)) \<subseteq> S"
  shows "\<exists>ret t' node. av_tree_insert cmp t key False = Some (ret, t', node) \<and> avl t' \<and> cmp_sorted cmp (inorder t') \<and>
     (if matches cmp key (inorder t) then node \<and> inorder t' = del_list cmp key (inorder t)
      else \<not> node \<and> t' = t \<and> ret = Some key)"
  using tree_order.remove_ok[OF assms] tree_order.sorted_del_list[OF assms(1,3)] assms(3)
  by (fastforce simp: removed_def)

theorem tree_remove_correct_witness:
  "\<exists>ret t' node. av_tree_insert ff_nut_sp_pos_cmp
       (AVTreeNode Null \<lparr>pos = 4, back_ptr = 0, ts = 1\<rparr> 1 (AVTreeNode Null \<lparr>pos = 9, back_ptr = 0, ts = 2\<rparr> 0 Null))
     \<lparr>pos = 4, back_ptr = 0, ts = 0\<rparr> False = Some (ret, t', node) \<and> avl t' \<and> node \<and> map pos (inorder t') = [9]"
proof -
  let ?a = "\<lparr>pos = 4, back_ptr = 0, ts = 1\<rparr>" and ?b = "\<lparr>pos = 9, back_ptr = 0, ts = 2\<rparr>" and ?k = "\<lparr>pos = 4, back_ptr = 0, ts = 0\<rparr>"
  have "?a \<in> valid_sp" "?b \<in> valid_sp" "?k \<in> valid_sp" by (simp_all add: valid_sp_def)
  then show ?thesis
    using tree_remove_correct[OF nut.tree_order_axioms, of "AVTreeNode Null ?a 1 (AVTreeNode Null ?b 0 Null)" ?k]
    by (auto simp: cmp_sorted_def matches_def del_list_def pos_cmp_iff)
qed

text \<open>Searching a tree whose elements lie below, at and above the key in this order returns an element that matches
  if there is one, and \<open>next\<close> gets the last element below and the first one above the key; a cell without
  such an element stays as it was.\<close>

theorem tree_find_neighbours:
  assumes "monotone_key cmp key (inorder t)"
  shows "(case fst (av_tree_find t key cmp (Some (a, b))) of
        None \<Rightarrow> \<forall>e \<in> set (inorder t). cmp key e \<noteq> 0
      | Some e \<Rightarrow> e \<in> set (inorder t) \<and> cmp key e = 0) \<and>
     snd (av_tree_find t key cmp (Some (a, b))) =
       Some (last_or (below cmp key (inorder t)) a, hd_or (above cmp key (inorder t)) b)"
  using find_result[OF assms, of "Some (a, b)"] find_next[OF assms] by simp

theorem tree_find_neighbours_witness:
  "snd (av_tree_find (AVTreeNode (AVTreeNode Null 2 0 Null) 4 0 (AVTreeNode Null 7 0 Null)) 5 (\<lambda>k e. k - e) (Some (None, None)))
     = Some (Some (4 :: int), Some 7)"
  using conjunct2[OF tree_find_neighbours[of "\<lambda>k e. k - e" 5
      "AVTreeNode (AVTreeNode Null 2 0 Null) 4 0 (AVTreeNode Null (7 :: int) 0 Null)" None None]]
  by (simp add: monotone_key_def last_or_def hd_or_def below_def above_def)

text \<open>The depth of every recursion on a balanced tree is logarithmic, and enumeration visits exactly the elements
  in the range, in order, all of them without a range function.\<close>

theorem tree_depth_and_range:
  assumes "avl t" "sorted_wrt (\<lambda>a b. sgn (f a) \<le> sgn (f b)) (inorder t)"
  shows "2 ^ (height t div 2) \<le> length (inorder t) + 1 \<and>
     av_tree_enumerate t (Some f) = filter (\<lambda>e. f e = 0) (inorder t) \<and> av_tree_enumerate t None = inorder t"
  using avl_size[OF assms(1)] enumerate_range[OF assms(2)] enumerate_null by simp

theorem tree_depth_and_range_witness:
  "av_tree_enumerate (AVTreeNode (AVTreeNode Null 2 0 Null) 4 0 (AVTreeNode Null 7 0 Null))
     (Some (\<lambda>e. if e < 3 then - 1 else 0)) = [4, 7 :: int]"
  using conjunct1[OF conjunct2[OF tree_depth_and_range[of "AVTreeNode (AVTreeNode Null 2 0 Null) 4 0 (AVTreeNode Null (7 :: int) 0 Null)"
      "\<lambda>e. if e < 3 then - 1 else 0"]]]
  by simp

text \<open>C24: The syncpoint index of a NUT file, built from nothing by adding points at any positions below \<open>2^62\<close> in any
  order, is a balanced tree sorted by position that holds the first point of each position;
  \<open>sp_count\<close> counts the repeated ones as well.\<close>

theorem nut_syncpoint_index:
  assumes "set ps \<subseteq> valid_sp"
  shows "\<exists>nut. add_points \<lparr>syncpoints = Null, sp_count = 0\<rparr> ps = Some nut \<and> avl (syncpoints nut) \<and>
     sorted_wrt (<) (map pos (inorder (syncpoints nut))) \<and> set (inorder (syncpoints nut)) = set (first_points ps) \<and>
     sp_count nut = int (length ps)"
proof -
  obtain nut where n: "add_points \<lparr>syncpoints = Null, sp_count = 0\<rparr> ps = Some nut" "nut_ok nut"
      "set (inorder (syncpoints nut)) = set (first_points ps)" "sp_count nut = int (length ps)"
    using points_ok[of "\<lparr>syncpoints = Null, sp_count = 0\<rparr>", OF _ assms] by (auto simp: nut_ok_def cmp_sorted_def)
  have "sorted_wrt (\<lambda>a b. pos a < pos b) (inorder (syncpoints nut))"
    by (rule sorted_wrt_mono_rel[of _ "\<lambda>a b. ff_nut_sp_pos_cmp a b < 0"])
      (use n(2) in \<open>auto simp: nut_ok_def cmp_sorted_def pos_cmp_iff subset_iff\<close>)
  then show ?thesis using n by (simp add: sorted_wrt_map nut_ok_def)
qed

theorem nut_syncpoint_index_witness:
  "\<exists>nut. add_points \<lparr>syncpoints = Null, sp_count = 0\<rparr>
       [\<lparr>pos = 9, back_ptr = 0, ts = 1\<rparr>, \<lparr>pos = 4, back_ptr = 0, ts = 0\<rparr>, \<lparr>pos = 9, back_ptr = 0, ts = 2\<rparr>] = Some nut \<and>
     avl (syncpoints nut) \<and> set (inorder (syncpoints nut)) = {\<lparr>pos = 9, back_ptr = 0, ts = 1\<rparr>, \<lparr>pos = 4, back_ptr = 0, ts = 0\<rparr>} \<and>
     sp_count nut = 3"
proof -
  let ?ps = "[\<lparr>pos = 9, back_ptr = 0, ts = 1\<rparr>, \<lparr>pos = 4, back_ptr = 0, ts = 0\<rparr>, \<lparr>pos = 9, back_ptr = 0, ts = 2\<rparr>]"
  have "set ?ps \<subseteq> valid_sp" by (simp add: valid_sp_def)
  then show ?thesis using nut_syncpoint_index[of ?ps] by auto
qed

end
