(* ===== verification/IntMath.thy ===== *)
theory IntMath
  imports Mathematics
begin

text \<open>
  The integer primitives of libavutil/intmath.h and common.h: highest and lowest set bit, population count,
  clipping by masks, saturating addition, and the conversion macros of UTF-8 and UTF-16. \<open>unsigned\<close> values are
  integers from 0 to \<open>UINT_MAX\<close>; the bit operations of HOL on integers are those of C on a two's complement value.
\<close>

section \<open>Operations\<close>

definition ff_log2_tab :: "int list" where
  "ff_log2_tab =
    [0, 0, 1, 1, 2, 2, 2, 2, 3, 3, 3, 3, 3, 3, 3, 3, 4, 4, 4, 4, 4, 4, 4, 4, 4, 4, 4, 4, 4, 4, 4, 4,
     5, 5, 5, 5, 5, 5, 5, 5, 5, 5, 5, 5, 5, 5, 5, 5, 5, 5, 5, 5, 5, 5, 5, 5, 5, 5, 5, 5, 5, 5, 5, 5,
     6, 6, 6, 6, 6, 6, 6, 6, 6, 6, 6, 6, 6, 6, 6, 6, 6, 6, 6, 6, 6, 6, 6, 6, 6, 6, 6, 6, 6, 6, 6, 6,
     6, 6, 6, 6, 6, 6, 6, 6, 6, 6, 6, 6, 6, 6, 6, 6, 6, 6, 6, 6, 6, 6, 6, 6, 6, 6, 6, 6, 6, 6, 6, 6,
     7, 7, 7, 7, 7, 7, 7, 7, 7, 7, 7, 7, 7, 7, 7, 7, 7, 7, 7, 7, 7, 7, 7, 7, 7, 7, 7, 7, 7, 7, 7, 7,
     7, 7, 7, 7, 7, 7, 7, 7, 7, 7, 7, 7, 7, 7, 7, 7, 7, 7, 7, 7, 7, 7, 7, 7, 7, 7, 7, 7, 7, 7, 7, 7,
     7, 7, 7, 7, 7, 7, 7, 7, 7, 7, 7, 7, 7, 7, 7, 7, 7, 7, 7, 7, 7, 7, 7, 7, 7, 7, 7, 7, 7, 7, 7, 7,
     7, 7, 7, 7, 7, 7, 7, 7, 7, 7, 7, 7, 7, 7, 7, 7, 7, 7, 7, 7, 7, 7, 7, 7, 7, 7, 7, 7, 7, 7, 7, 7]"

definition log2_byte_step :: "int \<Rightarrow> int \<Rightarrow> int" where
  "log2_byte_step v n =
     (let (v, n) = (if v AND 0xff00 \<noteq> 0 then (drop_bit 8 v, n + 8) else (v, n))
      in n + ff_log2_tab ! nat v)"

definition ff_log2_c :: "int \<Rightarrow> int" where
  "ff_log2_c v =
     (let n = 0; (v, n) = (if v AND 0xffff0000 \<noteq> 0 then (drop_bit 16 v, n + 16) else (v, n))
      in log2_byte_step v n)"

definition ff_log2_16bit_c :: "int \<Rightarrow> int" where
  "ff_log2_16bit_c v = log2_byte_step v 0"

definition av_ceil_log2_c :: "int \<Rightarrow> int" where
  "av_ceil_log2_c x = ff_log2_c (u32_of (u32_of (x - 1) * 2))"

definition debruijn_ctz32 :: "int list" where
  "debruijn_ctz32 =
    [0, 1, 28, 2, 29, 14, 24, 3, 30, 22, 20, 15, 25, 17, 4, 8,
     31, 27, 13, 23, 21, 19, 16, 7, 26, 12, 18, 6, 11, 5, 10, 9]"

definition ff_ctz_c :: "int \<Rightarrow> int" where
  "ff_ctz_c v = debruijn_ctz32 ! nat (drop_bit 27 (u32_of (u32_of (v AND s32 (- v)) * 0x077CB531)))"

definition debruijn_ctz64 :: "int list" where
  "debruijn_ctz64 =
    [0, 1, 2, 53, 3, 7, 54, 27, 4, 38, 41, 8, 34, 55, 48, 28,
     62, 5, 39, 46, 44, 42, 22, 9, 24, 35, 59, 56, 49, 18, 29, 11,
     63, 52, 6, 26, 37, 40, 33, 47, 61, 45, 43, 21, 23, 58, 17, 10,
     51, 25, 36, 32, 60, 20, 57, 16, 50, 31, 19, 15, 30, 14, 13, 12]"

definition ff_ctzll_c :: "int \<Rightarrow> int" where
  "ff_ctzll_c v = debruijn_ctz64 ! nat (drop_bit 58 (u64_of (u64_of (v AND s64 (- v)) * 0x022FDD63CC95386D)))"

function clz_loop :: "int \<Rightarrow> int \<Rightarrow> int" where
  "clz_loop x i = (if x \<le> 0 then i else clz_loop (drop_bit 1 x) (i - 1))"
  by pat_completeness auto
termination by (relation "measure (\<lambda>(x, i). nat x)") (auto simp: drop_bit_eq_div)

declare clz_loop.simps [simp del]

definition ff_clz_c :: "int \<Rightarrow> int" where
  "ff_clz_c x = clz_loop x 32"

definition av_clip_uint8_c :: "int \<Rightarrow> int" where
  "av_clip_uint8_c a = (if a AND NOT 0xFF \<noteq> 0 then drop_bit 31 (NOT a) AND 0xFF else a)"

definition av_clip_int8_c :: "int \<Rightarrow> int" where
  "av_clip_int8_c a = (if u32_of (a + 0x80) AND NOT 0xFF \<noteq> 0 then drop_bit 31 a XOR 0x7F else a)"

definition av_clip_uint16_c :: "int \<Rightarrow> int" where
  "av_clip_uint16_c a = (if a AND NOT 0xFFFF \<noteq> 0 then drop_bit 31 (NOT a) AND 0xFFFF else a)"

definition av_clip_int16_c :: "int \<Rightarrow> int" where
  "av_clip_int16_c a = (if u32_of (a + 0x8000) AND NOT 0xFFFF \<noteq> 0 then drop_bit 31 a XOR 0x7FFF else a)"

definition av_clipl_int32_c :: "int \<Rightarrow> int" where
  "av_clipl_int32_c a =
     (if u64_of (a + 0x80000000) AND NOT 0xFFFFFFFF \<noteq> 0 then s32 (drop_bit 63 a XOR 0x7FFFFFFF) else s32 a)"

definition av_clip_intp2_c :: "int \<Rightarrow> nat \<Rightarrow> int" where
  "av_clip_intp2_c a p =
     (if u32_of (u32_of a + s32 (2 ^ p)) AND NOT (s32 (s32 (2 * 2 ^ p) - 1)) \<noteq> 0
      then drop_bit 31 a XOR s32 (s32 (2 ^ p) - 1) else a)"

definition av_clip_uintp2_c :: "int \<Rightarrow> nat \<Rightarrow> int" where
  "av_clip_uintp2_c a p =
     (if a AND NOT (s32 (s32 (2 ^ p) - 1)) \<noteq> 0 then drop_bit 31 (NOT a) AND s32 (s32 (2 ^ p) - 1) else a)"

definition av_mod_uintp2_c :: "int \<Rightarrow> nat \<Rightarrow> int" where
  "av_mod_uintp2_c a p = a AND u32_of (u32_of (2 ^ p) - 1)"

definition av_sat_add32_c :: "int \<Rightarrow> int \<Rightarrow> int" where
  "av_sat_add32_c a b = av_clipl_int32_c (a + b)"

definition av_sat_dadd32_c :: "int \<Rightarrow> int \<Rightarrow> int" where
  "av_sat_dadd32_c a b = av_sat_add32_c a (av_sat_add32_c b b)"

definition av_sat_sub32_c :: "int \<Rightarrow> int \<Rightarrow> int" where
  "av_sat_sub32_c a b = av_clipl_int32_c (a - b)"

definition av_sat_dsub32_c :: "int \<Rightarrow> int \<Rightarrow> int" where
  "av_sat_dsub32_c a b = av_sat_sub32_c a (av_sat_add32_c b b)"

text \<open>The 64-bit additions have two builds each, with and without the overflow builtins of the compiler.\<close>

definition av_sat_add64_builtin :: "int \<Rightarrow> int \<Rightarrow> int" where
  "av_sat_add64_builtin a b =
     (let tmp = s64 (a + b) in if tmp = a + b then tmp else if tmp < 0 then INT64_MAX else INT64_MIN)"

definition av_sat_add64_c :: "int \<Rightarrow> int \<Rightarrow> int" where
  "av_sat_add64_c a b =
     (let s = s64 (u64_of (a + u64_of b)) in
      if (a XOR b) OR (NOT s XOR b) \<ge> 0 then INT64_MAX XOR drop_bit 63 b else s)"

definition av_sat_sub64_builtin :: "int \<Rightarrow> int \<Rightarrow> int" where
  "av_sat_sub64_builtin a b =
     (let tmp = s64 (a - b) in if tmp = a - b then tmp else if tmp < 0 then INT64_MAX else INT64_MIN)"

definition av_sat_sub64_c :: "int \<Rightarrow> int \<Rightarrow> int" where
  "av_sat_sub64_c a b =
     (if b \<le> 0 \<and> a \<ge> s64 (INT64_MAX + b) then INT64_MAX
      else if b \<ge> 0 \<and> a \<le> s64 (INT64_MIN + b) then INT64_MIN
      else s64 (a - b))"

definition av_popcount_c :: "int \<Rightarrow> int" where
  "av_popcount_c x =
     (let x = u32_of (x - (drop_bit 1 x AND 0x55555555));
          x = u32_of ((x AND 0x33333333) + (drop_bit 2 x AND 0x33333333));
          x = u32_of (x + drop_bit 4 x) AND 0x0F0F0F0F;
          x = u32_of (x + drop_bit 8 x)
      in u32_of (x + drop_bit 16 x) AND 0x3F)"

definition av_popcount64_c :: "int \<Rightarrow> int" where
  "av_popcount64_c x = av_popcount_c (u32_of x) + av_popcount_c (u32_of (drop_bit 32 x))"

definition av_parity_c :: "int \<Rightarrow> int" where
  "av_parity_c v = av_popcount_c v AND 1"

section \<open>UTF-8 and UTF-16\<close>

text \<open>The macros take the expressions that read and write one unit. A reader is a function on the state of the
  source; the units written are a list. \<open>None\<close> is the branch \<open>ERROR\<close>. The mask \<open>top\<close> (\<open>tp\<close> here) leaves the 32 bits after six
  shifts, so seven rounds exhaust the loop.\<close>

fun get_utf8_loop :: "nat \<Rightarrow> ('s \<Rightarrow> int \<times> 's) \<Rightarrow> int \<Rightarrow> int \<Rightarrow> 's \<Rightarrow> int option \<times> 's" where
  "get_utf8_loop 0 get_byte val tp s = (Some (val AND u32_of (u32_of (tp * 2) - 1)), s)"
| "get_utf8_loop (Suc n) get_byte val tp s =
     (if val AND tp \<noteq> 0 then
        (let (byte, s) = get_byte s; tmp = u32_of (byte - 128) in
         if drop_bit 6 tmp \<noteq> 0 then (None, s)
         else get_utf8_loop n get_byte (u32_of (u32_of (val * 64) + tmp)) (u32_of (tp * 32)) s)
      else (Some (val AND u32_of (u32_of (tp * 2) - 1)), s))"

definition GET_UTF8 :: "('s \<Rightarrow> int \<times> 's) \<Rightarrow> 's \<Rightarrow> int option \<times> 's" where
  "GET_UTF8 get_byte s =
     (let (val, s) = get_byte s; tp = drop_bit 1 (val AND 128) in
      if val AND 0xc0 = 0x80 \<or> val \<ge> 0xFE then (None, s)
      else get_utf8_loop 7 get_byte val tp s)"

definition GET_UTF16 :: "('s \<Rightarrow> int \<times> 's) \<Rightarrow> 's \<Rightarrow> int option \<times> 's" where
  "GET_UTF16 get_16bit s =
     (let (val, s) = get_16bit s; hi = u32_of (val - 0xD800) in
      if hi < 0x800 then
        (let (v, s) = get_16bit s; val = u32_of (v - 0xDC00) in
         if val > 0x3FF \<or> hi > 0x3FF then (None, s)
         else (Some (u32_of (val + (hi * 2 ^ 10 + 0x10000))), s))
      else (Some val, s))"

text \<open>The bytes after the first: \<open>n\<close> of them, each with six bits of the value.\<close>

fun put_utf8_loop :: "int \<Rightarrow> nat \<Rightarrow> int list" where
  "put_utf8_loop v shift =
     (if shift \<ge> 6 then (0x80 OR (drop_bit (shift - 6) v AND 0x3f)) # put_utf8_loop v (shift - 6) else [])"

declare put_utf8_loop.simps [simp del]

definition PUT_UTF8 :: "int \<Rightarrow> int list" where
  "PUT_UTF8 v =
     (if v < 0x80 then [v]
      else
        (let bytes = cdiv (ff_log2_c v + 4) 5; shift = (bytes - 1) * 6
         in (((256 - drop_bit (nat bytes) 256) OR drop_bit (nat shift) v) AND 0xFF) # put_utf8_loop v (nat shift)))"

definition PUT_UTF16 :: "int \<Rightarrow> int list" where
  "PUT_UTF16 v =
     (if v < 0x10000 then [v]
      else [(0xD800 OR drop_bit 10 (v - 0x10000)) AND 0xFFFF, 0xDC00 OR ((v - 0x10000) AND 0x3FF)])"

section \<open>Bit scans\<close>

text \<open>What holds for the 256 bytes one by one holds for all.\<close>

lemma all_bytes:
  assumes "\<forall>i \<in> set [0..<256]. P (int i)" "0 \<le> b" "b < 256"
  shows "P b"
proof -
  have "nat b \<in> set [0..<256]" "int (nat b) = b" using assms(2,3) by auto
  with assms(1) show ?thesis by metis
qed

lemma and_not_mask: "(a AND NOT (2 ^ n - 1) :: int) = 2 ^ n * (a div 2 ^ n)"
proof -
  have "a AND NOT (mask n) = push_bit n (drop_bit n a)" by (rule bit_eqI) (auto simp: bit_simps)
  then show ?thesis by (simp add: mask_eq_exp_minus_1 push_bit_eq_mult drop_bit_eq_div)
qed

lemma and_high:
  assumes "0 \<le> (v :: int)" "v < 2 ^ (k + n)"
  shows "v AND (2 ^ k - 1) * 2 ^ n = v div 2 ^ n * 2 ^ n"
proof -
  have "v AND push_bit n (mask k) = push_bit n (take_bit k (drop_bit n v))"
    by (rule bit_eqI) (auto simp: bit_simps)
  moreover have "take_bit k (drop_bit n v) = v div 2 ^ n"
    using assms by (simp add: take_bit_eq_mod drop_bit_eq_div pos_imp_zdiv_nonneg_iff
        zdiv_lt_mult power_add mult.commute)
  ultimately show ?thesis by (simp add: mask_eq_exp_minus_1 push_bit_eq_mult)
qed

lemma div_mult_0_iff: "0 \<le> v \<Longrightarrow> v div 2 ^ n * 2 ^ n \<noteq> 0 \<longleftrightarrow> (2 :: int) ^ n \<le> v"
  by (auto simp: zdiv_eq_0_iff)

text \<open>The reference: \<open>n\<close> is the number of the highest bit of \<open>v\<close>, and 0 for 0.\<close>

definition is_log2 :: "int \<Rightarrow> int \<Rightarrow> bool" where
  "is_log2 v n \<longleftrightarrow> 0 \<le> n \<and> (if v = 0 then n = 0 else 2 ^ nat n \<le> v \<and> v < 2 ^ Suc (nat n))"

lemma log2_tab: "0 \<le> v \<Longrightarrow> v < 256 \<Longrightarrow> is_log2 v (ff_log2_tab ! nat v)"
  by (rule all_bytes[of "\<lambda>v. is_log2 v (ff_log2_tab ! nat v)"]) code_simp

lemma is_log2_shift:
  assumes "is_log2 (v div 2 ^ k) n" "2 ^ k \<le> v"
  shows "is_log2 v (n + int k)"
proof -
  have "1 \<le> v div 2 ^ k" using zle_div_mult[of "2 ^ k" 1 v] assms(2) by simp
  then have n: "0 \<le> n" "2 ^ nat n \<le> v div 2 ^ k" "v div 2 ^ k < 2 ^ Suc (nat n)"
    using assms(1) by (auto simp: is_log2_def)
  have "2 ^ nat n * 2 ^ k \<le> v" "v < 2 ^ Suc (nat n) * 2 ^ k"
    using n(2,3) by (smt (verit) zdiv_lt_mult zle_div_mult zero_less_power)+
  then show ?thesis
    using n(1) assms(2) by (simp add: is_log2_def nat_add_distrib power_add ac_simps)
qed

lemma log2_byte_step:
  assumes "0 \<le> v" "v < 2 ^ 16"
  shows "is_log2 v (log2_byte_step v 0)"
proof (cases "2 ^ 8 \<le> v")
  case True
  have "v div 2 ^ 8 < 256" using zdiv_lt_mult[of 256 v 256] assms by simp
  then have "is_log2 (v div 2 ^ 8) (ff_log2_tab ! nat (v div 2 ^ 8))"
    using assms by (intro log2_tab) (simp_all add: pos_imp_zdiv_nonneg_iff)
  then have "is_log2 v (ff_log2_tab ! nat (v div 2 ^ 8) + 8)" using is_log2_shift[OF _ True] by force
  then show ?thesis
    using True assms and_high[of v 8 8] div_mult_0_iff[of v 8]
    by (simp add: log2_byte_step_def drop_bit_eq_div add.commute)
next
  case False
  then show ?thesis
    using assms and_high[of v 8 8] div_mult_0_iff[of v 8] log2_tab[of v] by (simp add: log2_byte_step_def)
qed

lemma log2_byte_step_add: "log2_byte_step v n = log2_byte_step v 0 + n"
  by (simp add: log2_byte_step_def)

lemma log2_correct:
  assumes "0 \<le> v" "v \<le> UINT_MAX"
  shows "is_log2 v (ff_log2_c v)"
proof (cases "2 ^ 16 \<le> v")
  case True
  have "v div 2 ^ 16 < 2 ^ 16" using zdiv_lt_mult[of "2 ^ 16" v "2 ^ 16"] assms by simp
  then have "is_log2 (v div 2 ^ 16) (log2_byte_step (v div 2 ^ 16) 0)"
    using assms by (intro log2_byte_step) (simp_all add: pos_imp_zdiv_nonneg_iff)
  then show ?thesis
    using is_log2_shift[OF _ True] True assms and_high[of v 16 16] div_mult_0_iff[of v 16] log2_byte_step_add[of _ 16]
    by (simp add: ff_log2_c_def drop_bit_eq_div)
next
  case False
  then show ?thesis
    using assms and_high[of v 16 16] div_mult_0_iff[of v 16] log2_byte_step[of v] by (simp add: ff_log2_c_def)
qed

lemma ceil_log2_correct:
  assumes "1 \<le> x" "x \<le> INT_MAX"
  shows "x \<le> 2 ^ nat (av_ceil_log2_c x) \<and> (\<forall>n. x \<le> 2 ^ n \<longrightarrow> nat (av_ceil_log2_c x) \<le> n)"
proof -
  have "u32_of (u32_of (x - 1) * 2) = 2 * (x - 1)" using assms by (simp add: u32_of_id)
  then have l: "is_log2 (2 * (x - 1)) (av_ceil_log2_c x)"
    using log2_correct[of "2 * (x - 1)"] assms by (simp add: av_ceil_log2_c_def)
  show ?thesis
  proof (cases "x = 1")
    case True
    then show ?thesis using l by (simp add: is_log2_def)
  next
    case False
    define k where "k = nat (av_ceil_log2_c x)"
    have k: "2 ^ k \<le> 2 * (x - 1)" "2 * (x - 1) < 2 * 2 ^ k" using l False by (simp_all add: is_log2_def k_def)
    have "k \<le> n" if "x \<le> 2 ^ n" for n
    proof (rule ccontr)
      assume "\<not> k \<le> n"
      then have "(2 :: int) ^ Suc n \<le> 2 ^ k" by (intro power_increasing) simp_all
      then show False using k(1) that by simp
    qed
    then show ?thesis using k(2) by (simp add: k_def)
  qed
qed

lemma clz_loop_correct:
  "0 \<le> x \<Longrightarrow> is_log2 x n \<Longrightarrow> clz_loop x i = (if x = 0 then i else i - (n + 1))"
proof (induction x i arbitrary: n rule: clz_loop.induct)
  case (1 x i)
  show ?case
  proof (cases "x \<le> 1")
    case True
    then have "x = 0 \<or> x = 1" using 1(2) by auto
    moreover have "x = 1 \<Longrightarrow> n = 0"
      using 1(3) by (auto simp: is_log2_def power_le_one_iff)
    ultimately show ?thesis by (auto simp: clz_loop.simps[of x] clz_loop.simps[of 0] drop_bit_eq_div)
  next
    case False
    then obtain m where m: "nat n = Suc m" using 1(3) by (cases "nat n") (auto simp: is_log2_def)
    have "nat (n - 1) = m" using m by simp
    then have "is_log2 (x div 2) (n - 1)"
      using 1(3) m False by (auto simp: is_log2_def)
    then show ?thesis
      using 1(1)[of "n - 1"] False by (simp add: clz_loop.simps[of x] drop_bit_eq_div) presburger
  qed
qed

lemma lowest_bit:
  assumes "odd (u :: int)"
  shows "2 ^ k * u AND - (2 ^ k * u) = 2 ^ k"
proof -
  obtain m where m: "u = 1 + 2 * m" using assms by (auto elim: oddE simp: add.commute)
  have "u AND - u = u AND NOT (2 * m)" by (simp add: m minus_eq_not_minus_1)
  also have "\<dots> = 1"
    by (rule bit_eqI) (auto simp: m bit_and_iff bit_not_iff even_bit_succ_iff bit_double_iff bit_1_iff)
  finally have "u AND - u = 1" .
  moreover have "push_bit k u AND push_bit k (- u) = push_bit k (u AND - u)"
    by simp
  ultimately show ?thesis by (simp add: push_bit_eq_mult mult.commute)
qed

lemma lowest_bit_ctz: "v \<noteq> 0 \<Longrightarrow> v AND - v = 2 ^ ctz v"
  using ctz_spec[of v] lowest_bit[of "v div 2 ^ ctz v" "ctz v"] by simp

lemma ctz_bound:
  assumes "v \<noteq> 0" "- (2 ^ n) \<le> v" "v < 2 ^ n"
  shows "ctz v \<le> n"
proof -
  have "2 ^ ctz v dvd v" using ctz_spec assms by simp
  then have "2 ^ ctz v \<le> \<bar>v\<bar>" using dvd_imp_le_int[OF assms(1)] by fastforce
  then have "(2::int) ^ ctz v \<le> 2 ^ n" using assms by linarith
  then show ?thesis by simp
qed

lemma debruijn32: "k < 32 \<Longrightarrow> debruijn_ctz32 ! nat (drop_bit 27 (u32_of (2 ^ k * 0x077CB531))) = int k"
proof -
  have "\<forall>k \<in> set [0..<32]. debruijn_ctz32 ! nat (drop_bit 27 (u32_of (2 ^ k * 0x077CB531))) = int k"
    by code_simp
  then show "k < 32 \<Longrightarrow> debruijn_ctz32 ! nat (drop_bit 27 (u32_of (2 ^ k * 0x077CB531))) = int k" by simp
qed

lemma debruijn64: "k < 64 \<Longrightarrow> debruijn_ctz64 ! nat (drop_bit 58 (u64_of (2 ^ k * 0x022FDD63CC95386D))) = int k"
proof -
  have "\<forall>k \<in> set [0..<64]. debruijn_ctz64 ! nat (drop_bit 58 (u64_of (2 ^ k * 0x022FDD63CC95386D))) = int k"
    by code_simp
  then show "k < 64 \<Longrightarrow> debruijn_ctz64 ! nat (drop_bit 58 (u64_of (2 ^ k * 0x022FDD63CC95386D))) = int k" by simp
qed

lemma ctz32_correct:
  assumes "in_s32 v" "v \<noteq> 0"
  shows "ff_ctz_c v = int (ctz v)"
proof (cases "v = INT_MIN")
  case True
  have "ctz INT_MIN = 31" by code_simp
  moreover have "ff_ctz_c INT_MIN = 31" by code_simp
  ultimately show ?thesis using True by simp
next
  case False
  then have s: "s32 (- v) = - v" using assms by (auto simp: in_s32_def s32_id)
  have "ctz v \<le> 31" using ctz_bound[of v 31] assms by (simp add: in_s32_def)
  then have b: "ctz v < 32" "(2::int) ^ ctz v \<le> 2 ^ 31" using power_increasing[of "ctz v" 31 "2::int"] by auto
  then have "u32_of (2 ^ ctz v) = 2 ^ ctz v" by (intro u32_of_id) auto
  then show ?thesis
    using debruijn32[OF b(1)] lowest_bit_ctz[OF assms(2)] s by (simp add: ff_ctz_c_def)
qed

lemma ctz64_correct:
  assumes "in_s64 v" "v \<noteq> 0"
  shows "ff_ctzll_c v = int (ctz v)"
proof (cases "v = INT64_MIN")
  case True
  have "ctz INT64_MIN = 63" by code_simp
  moreover have "ff_ctzll_c INT64_MIN = 63" by code_simp
  ultimately show ?thesis using True by simp
next
  case False
  then have s: "s64 (- v) = - v" using assms by (auto simp: in_s64_def s64_id)
  have "ctz v \<le> 63" using ctz_bound[of v 63] assms by (simp add: in_s64_def)
  then have b: "ctz v < 64" "(2::int) ^ ctz v \<le> 2 ^ 63" using power_increasing[of "ctz v" 63 "2::int"] by auto
  then have "u64_of (2 ^ ctz v) = 2 ^ ctz v" by (intro u64_of_id) auto
  then show ?thesis
    using debruijn64[OF b(1)] lowest_bit_ctz[OF assms(2)] s by (simp add: ff_ctzll_c_def)
qed

section \<open>Population count\<close>

text \<open>The value of a list of bytes, the first the lowest.\<close>

fun digits :: "int list \<Rightarrow> int" where
  "digits [] = 0"
| "digits (c # cs) = c + 256 * digits cs"

lemma digits_nonneg: "\<forall>c \<in> set cs. 0 \<le> c \<Longrightarrow> 0 \<le> digits cs"
  by (induction cs) auto

lemma concat_plus: "0 \<le> b \<Longrightarrow> b < 2 ^ n \<Longrightarrow> b + 2 ^ n * r = concat_bit n b r"
  by (simp add: concat_bit_eq take_bit_eq_mod push_bit_eq_mult mult.commute)

lemma and_concat:
  assumes "0 \<le> b" "b < 2 ^ n" "0 \<le> c" "c < (2 :: int) ^ n"
  shows "(b + 2 ^ n * r) AND (c + 2 ^ n * s) = (b AND c) + 2 ^ n * (r AND s)"
proof -
  have "b AND c < 2 ^ n" using and_less_eq[of c b] assms by (auto intro: le_less_trans)
  then have "(b AND c) + 2 ^ n * (r AND s) = concat_bit n (b AND c) (r AND s)"
    using assms by (intro concat_plus) simp_all
  moreover have "concat_bit n b r AND concat_bit n c s = concat_bit n (b AND c) (r AND s)"
    by (rule bit_eqI) (auto simp: bit_simps)
  ultimately show ?thesis using assms by (simp add: concat_plus)
qed

lemma shift_split: "m = P * Q \<Longrightarrow> r = P * u + v \<Longrightarrow> c + m * r = c + P * (Q * v + m * (u :: int))"
  by (simp add: algebra_simps)

lemma drop_digits: "0 \<le> c \<Longrightarrow> c < 256 \<Longrightarrow> drop_bit 8 (digits (c # cs)) = digits cs"
  by (simp add: drop_bit_eq_div)

lemma drop_4_digits:
  "drop_bit 4 (digits (c # cs)) = c div 16 + 16 * (digits cs mod 16) + 256 * drop_bit 4 (digits cs)"
  "digits (c # cs) mod 16 = c mod 16" "drop_bit 4 (digits []) = 0" "digits [] mod 16 = 0"
proof -
  have "(c + 256 * r) div 16 = c div 16 + 16 * (r mod 16) + 256 * (r div 16)" "(c + 256 * r) mod 16 = c mod 16"
    for r :: int
  proof -
    have e: "c + 256 * r = c + 16 * (16 * (r mod 16) + 256 * (r div 16))" by (intro shift_split[of _ 16 16]) simp_all
    show "(c + 256 * r) div 16 = c div 16 + 16 * (r mod 16) + 256 * (r div 16)" unfolding e by (simp only: div_mult_self2)
    show "(c + 256 * r) mod 16 = c mod 16" unfolding e by (simp only: mod_mult_self2)
  qed
  then show "drop_bit 4 (digits (c # cs)) = c div 16 + 16 * (digits cs mod 16) + 256 * drop_bit 4 (digits cs)"
    "digits (c # cs) mod 16 = c mod 16" by (simp_all add: drop_bit_eq_div)
qed simp_all

lemma digits_minus: "digits (map f cs) - digits (map g cs) = digits (map (\<lambda>c. f c - g c) cs)"
  by (induction cs) (simp_all add: algebra_simps)

lemma digits_plus: "digits (map f cs) + digits (map g cs) = digits (map (\<lambda>c. f c + g c) cs)"
  by (induction cs) (simp_all add: algebra_simps)

lemma drop_and_digits:
  assumes "k \<le> 8" "0 \<le> m" "m < 2 ^ (8 - k)" "\<forall>c \<in> set cs. 0 \<le> c \<and> c < 256"
  shows "drop_bit k (digits cs) AND digits (map (\<lambda>_. m) cs) = digits (map (\<lambda>c. drop_bit k c AND m) cs)"
  using assms(4)
proof (induction cs)
  case (Cons c cs)
  define r where "r = digits cs"
  have p: "(256::int) = 2 ^ k * 2 ^ (8 - k)" using assms(1) by (simp flip: power_add)
  have c: "0 \<le> c div 2 ^ k" "c div 2 ^ k < 2 ^ (8 - k)"
    using Cons.prems p zdiv_lt_mult[of "2 ^ k" c "2 ^ (8 - k)"] by (auto simp: pos_imp_zdiv_nonneg_iff mult.commute)
  have e: "0 \<le> r mod 2 ^ k" "r mod 2 ^ k < 2 ^ k" by simp_all
  have m: "m < 2 ^ 8" using assms(3) power_increasing[of "8 - k" 8 "2 :: int"] by simp
  have s: "drop_bit k (c + 256 * r) = (c div 2 ^ k + 2 ^ (8 - k) * (r mod 2 ^ k)) + 2 ^ 8 * drop_bit k r"
  proof -
    have "c + 256 * r = c + 2 ^ k * (2 ^ (8 - k) * (r mod 2 ^ k) + 256 * (r div 2 ^ k))"
      by (intro shift_split[OF p]) simp
    then show ?thesis by (simp add: drop_bit_eq_div)
  qed
  have b: "c div 2 ^ k + 2 ^ (8 - k) * (r mod 2 ^ k) < 2 ^ 8"
  proof -
    have "2 ^ (8 - k) * (r mod 2 ^ k) \<le> 2 ^ (8 - k) * (2 ^ k - 1)" using e by (intro mult_left_mono) simp_all
    then show ?thesis using c p by (simp add: algebra_simps)
  qed
  have "(c div 2 ^ k + 2 ^ (8 - k) * (r mod 2 ^ k)) AND m = c div 2 ^ k AND m"
    using and_concat[OF c assms(2,3), of "r mod 2 ^ k" 0] by simp
  then have "drop_bit k (c + 256 * r) AND (m + 2 ^ 8 * digits (map (\<lambda>_. m) cs)) =
      (c div 2 ^ k AND m) + 256 * (drop_bit k r AND digits (map (\<lambda>_. m) cs))"
    unfolding s using and_concat[OF _ b assms(2) m] c(1) e(1) by simp
  then show ?case using Cons by (simp add: r_def drop_bit_eq_div)
qed simp

definition bit_count :: "int \<Rightarrow> int" where
  "bit_count x = int (card {n. bit x n})"

lemma finite_bits: "0 \<le> (x :: int) \<Longrightarrow> finite {n. bit x n}"
proof -
  assume "0 \<le> x"
  moreover obtain n where "x < 2 ^ n"
    using \<open>0 \<le> x\<close> by (metis less_exp nat_int of_nat_less_iff of_nat_numeral of_nat_power int_nat_eq)
  ultimately have "take_bit n x = x" by (simp add: take_bit_int_eq_self_iff)
  then have "{n. bit x n} \<subseteq> {..<n}" by (metis (no_types, lifting) bit_take_bit_iff lessThan_iff mem_Collect_eq subsetI)
  then show ?thesis by (rule finite_subset) simp
qed

lemma bit_count_concat:
  assumes "0 \<le> b" "b < 2 ^ n" "0 \<le> r"
  shows "bit_count (b + 2 ^ n * r) = bit_count b + bit_count r"
proof -
  have "take_bit n b = b" using assms by (simp add: take_bit_int_eq_self_iff)
  then have "\<And>i. bit b i \<Longrightarrow> i < n" by (metis bit_take_bit_iff)
  then have s: "{i. bit (b + 2 ^ n * r) i} = {i. bit b i} \<union> (\<lambda>i. i + n) ` {i. bit r i}"
    using assms by (auto simp: concat_plus bit_concat_bit_iff image_iff) (metis le_add_diff_inverse2)
  have "card ({i. bit b i} \<union> (\<lambda>i. i + n) ` {i. bit r i}) = card {i. bit b i} + card {i. bit r i}"
    using \<open>\<And>i. bit b i \<Longrightarrow> i < n\<close> assms
    by (subst card_Un_disjoint) (auto simp: finite_bits card_image)
  then show ?thesis by (simp add: bit_count_def s)
qed

text \<open>The rounds on one byte.\<close>

definition count_pairs :: "int \<Rightarrow> int" where
  "count_pairs b = b - (drop_bit 1 b AND 0x55)"

definition count_nibbles :: "int \<Rightarrow> int" where
  "count_nibbles b = (b AND 0x33) + (drop_bit 2 b AND 0x33)"

definition count_byte :: "int \<Rightarrow> int" where
  "count_byte b = (let c = count_nibbles (count_pairs b) in (c + c div 16) AND 0xF)"

definition count_byte_ok :: "int \<Rightarrow> bool" where
  "count_byte_ok b \<longleftrightarrow>
     (let c = count_pairs b; d = count_nibbles c in
      0 \<le> c \<and> c < 256 \<and> 0 \<le> d \<and> d \<le> 0x44 \<and> d mod 16 \<le> 4 \<and> 0 \<le> count_byte b \<and> count_byte b \<le> 8 \<and>
      count_byte b = sum_list (map (\<lambda>n. of_bool (bit b n)) [0..<8]))"

lemma count_byte_all: "0 \<le> b \<Longrightarrow> b < 256 \<Longrightarrow> count_byte_ok b"
  by (rule all_bytes[of count_byte_ok]) code_simp

lemma bit_count_byte:
  assumes "0 \<le> b" "b < 256"
  shows "bit_count b = count_byte b"
proof -
  have "take_bit 8 b = b" using assms by (simp add: take_bit_int_eq_self_iff)
  then have "{n. bit b n} = {n \<in> {0..<8}. bit b n}" by (metis (lifting) atLeastLessThan_iff bit_take_bit_iff le0)
  then have "bit_count b = (\<Sum>n = 0..<8. of_bool (bit b n))"
    by (simp add: bit_count_def sum.If_cases Int_def of_bool_def)
  then show ?thesis
    using count_byte_all[OF assms] by (simp add: count_byte_ok_def Let_def interv_sum_list_conv_sum_set_nat)
qed

lemma four_digits:
  assumes "0 \<le> x" "x < 2 ^ 32"
  shows "\<exists>a b c d. x = digits [a, b, c, d] \<and> (\<forall>e \<in> {a, b, c, d}. 0 \<le> e \<and> e < 256)"
proof -
  have "x = digits [x mod 256, x div 256 mod 256, x div 256 div 256 mod 256, x div 256 div 256 div 256]"
    by simp
  moreover have "0 \<le> x div 256 div 256 div 256" "x div 256 div 256 div 256 < 256" using assms by simp_all
  ultimately show ?thesis by (metis (no_types, lifting) insert_iff pos_mod_bound pos_mod_sign singletonD zero_less_numeral)
qed

lemma u32_digits:
  "\<forall>e \<in> {a, b, c, d}. 0 \<le> e \<and> e < 256 \<Longrightarrow> u32_of (digits [a, b, c, d]) = digits [a, b, c, d]"
  by (rule u32_of_id) auto

text \<open>The third round adds before it masks, the fourth and fifth add whole bytes.\<close>

lemma count_round3:
  assumes "\<forall>e \<in> {a, b, c, d}. 0 \<le> e \<and> e \<le> 0x44 \<and> e mod 16 \<le> (4 :: int)"
  shows "u32_of (digits [a, b, c, d] + drop_bit 4 (digits [a, b, c, d])) AND 0x0F0F0F0F =
    digits (map (\<lambda>e. (e + e div 16) AND 0xF) [a, b, c, d])"
proof -
  have sh: "digits [a, b, c, d] + drop_bit 4 (digits [a, b, c, d]) =
      digits [a + a div 16 + 2 ^ 4 * (b mod 16), b + b div 16 + 2 ^ 4 * (c mod 16), c + c div 16 + 2 ^ 4 * (d mod 16), d + d div 16 + 2 ^ 4 * 0]"
    by (simp only: drop_4_digits) simp
  have low: "(e + e div 16 + 16 * k) AND 0xF = (e + e div 16) AND 0xF" for e k :: int
    using take_bit_eq_mask[of 4 "e + e div 16 + 16 * k"] take_bit_eq_mask[of 4 "e + e div 16"]
    by (simp add: mask_eq_exp_minus_1 take_bit_eq_mod)
  have bd: "0 \<le> e + e div 16 + 2 ^ 4 * k \<and> e + e div 16 + 2 ^ 4 * k < 256"
    if "0 \<le> e" "e \<le> 0x44" "0 \<le> k" "k \<le> 4" for e k :: int using that by auto
  have "0x0F0F0F0F = digits (map (\<lambda>_. 0xF) [a, b, c, d])" by simp
  moreover have "\<forall>e \<in> set [a + a div 16 + 2 ^ 4 * (b mod 16), b + b div 16 + 2 ^ 4 * (c mod 16),
      c + c div 16 + 2 ^ 4 * (d mod 16), d + d div 16 + 2 ^ 4 * 0]. 0 \<le> e \<and> e < 256"
    using assms bd[of a "b mod 16"] bd[of b "c mod 16"] bd[of c "d mod 16"] bd[of d 0] by simp
  ultimately show ?thesis
    using drop_and_digits[of 0 "0xF" "[a + a div 16 + 2 ^ 4 * (b mod 16), b + b div 16 + 2 ^ 4 * (c mod 16),
      c + c div 16 + 2 ^ 4 * (d mod 16), d + d div 16 + 2 ^ 4 * 0]"]
    unfolding sh by (subst u32_digits) (simp_all add: low)
qed

lemma count_rounds4:
  assumes "\<forall>e \<in> {a, b, c, d}. 0 \<le> e \<and> e \<le> (8 :: int)" "x = digits [a, b, c, d]"
  shows "u32_of (u32_of (x + drop_bit 8 x) + drop_bit 16 (u32_of (x + drop_bit 8 x))) AND 0x3F = a + b + c + d"
proof -
  have sum: "u32_of (digits [a, b, c, d] + digits [e, f, g, h]) = digits [a + e, b + f, c + g, d + h]"
    if "\<forall>i \<in> {a, b, c, d, e, f, g, h}. 0 \<le> i \<and> i \<le> 16" for a b c d e f g h
    using that by (subst u32_of_id) simp_all
  have d: "drop_bit 8 (digits [a, b, c, d]) = digits [b, c, d, 0]"
    using assms drop_digits[of a "[b, c, d]"] by simp
  have 1: "u32_of (x + drop_bit 8 x) = digits [a + b, b + c, c + d, d]"
    unfolding assms(2) d by (subst sum) (use assms in simp_all)
  have "drop_bit 16 y = drop_bit 8 (drop_bit 8 y)" for y :: int by simp
  then have "drop_bit 16 (digits [a + b, b + c, c + d, d]) = digits [c + d, d, 0, 0]"
    using assms drop_digits[of "a + b" "[b + c, c + d, d]"] drop_digits[of "b + c" "[c + d, d]"]
    by (simp del: drop_bit_drop_bit)
  then have "u32_of (digits [a + b, b + c, c + d, d] + drop_bit 16 (digits [a + b, b + c, c + d, d])) =
      digits [a + b + c + d, b + c + d, c + d, d]"
    by (simp only:) (subst sum, use assms in simp_all)
  moreover have "digits [a + b + c + d, b + c + d, c + d, d] AND 0x3F = a + b + c + d"
  proof -
    have "digits [a + b + c + d, b + c + d, c + d, d] = a + b + c + d + 64 * (4 * digits [b + c + d, c + d, d])" by simp
    also have "\<dots> mod 64 = a + b + c + d" using assms(1) by (simp only: mod_mult_self2) simp
    finally show ?thesis
      using take_bit_eq_mask[of 6 "digits [a + b + c + d, b + c + d, c + d, d]"]
      by (simp add: mask_eq_exp_minus_1 take_bit_eq_mod del: digits.simps)
  qed
  ultimately show ?thesis unfolding 1 by simp
qed

lemma popcount_digits:
  assumes "\<forall>e \<in> {a, b, c, d}. 0 \<le> e \<and> e < 256"
  shows "av_popcount_c (digits [a, b, c, d]) = count_byte a + count_byte b + count_byte c + count_byte d"
proof -
  define f where "f = count_pairs"
  define g where "g = (\<lambda>e. count_nibbles (f e))"
  have r: "\<forall>e \<in> {f a, f b, f c, f d}. 0 \<le> e \<and> e < 256"
    "\<forall>e \<in> {g a, g b, g c, g d}. 0 \<le> e \<and> e \<le> 0x44 \<and> e mod 16 \<le> 4"
    "\<forall>e \<in> {count_byte a, count_byte b, count_byte c, count_byte d}. 0 \<le> e \<and> e \<le> 8"
  proof -
    have "0 \<le> f e \<and> f e < 256 \<and> 0 \<le> g e \<and> g e \<le> 0x44 \<and> g e mod 16 \<le> 4 \<and> 0 \<le> count_byte e \<and> count_byte e \<le> 8"
      if "e \<in> {a, b, c, d}" for e
      using assms that count_byte_all[of e] unfolding count_byte_ok_def Let_def f_def g_def by blast
    then show "\<forall>e \<in> {f a, f b, f c, f d}. 0 \<le> e \<and> e < 256"
      "\<forall>e \<in> {g a, g b, g c, g d}. 0 \<le> e \<and> e \<le> 0x44 \<and> e mod 16 \<le> 4"
      "\<forall>e \<in> {count_byte a, count_byte b, count_byte c, count_byte d}. 0 \<le> e \<and> e \<le> 8" by blast+
  qed
  have m: "0x55555555 = digits (map (\<lambda>_. 0x55) [a, b, c, d])"
    "0x33333333 = digits (map (\<lambda>_. 0x33) [f a, f b, f c, f d])" by simp_all
  have 1: "u32_of (digits [a, b, c, d] - (drop_bit 1 (digits [a, b, c, d]) AND 0x55555555)) = digits [f a, f b, f c, f d]"
  proof -
    have "drop_bit 1 (digits [a, b, c, d]) AND 0x55555555 = digits (map (\<lambda>c. drop_bit 1 c AND 0x55) [a, b, c, d])"
      unfolding m(1) using assms by (intro drop_and_digits) simp_all
    then have "digits [a, b, c, d] - (drop_bit 1 (digits [a, b, c, d]) AND 0x55555555) = digits [f a, f b, f c, f d]"
      using digits_minus[of "\<lambda>e. e" "[a, b, c, d]" "\<lambda>c. drop_bit 1 c AND 0x55"]
      by (simp only: list.map f_def count_pairs_def)
    then show ?thesis using u32_digits[OF r(1)] by simp
  qed
  have 2: "u32_of ((digits [f a, f b, f c, f d] AND 0x33333333) + (drop_bit 2 (digits [f a, f b, f c, f d]) AND 0x33333333)) =
      digits [g a, g b, g c, g d]"
  proof -
    have "drop_bit k (digits [f a, f b, f c, f d]) AND 0x33333333 =
        digits (map (\<lambda>c. drop_bit k c AND 0x33) [f a, f b, f c, f d])" if "k \<le> 2" for k
    proof -
      have "(51 :: int) < 2 ^ (8 - k)" using power_increasing[of 6 "8 - k" "2 :: int"] that by (simp add: le_diff_conv2)
      then show ?thesis unfolding m(2) using r(1) that by (intro drop_and_digits) simp_all
    qed
    from this[of 0] this[of 2] have "(digits [f a, f b, f c, f d] AND 0x33333333) +
        (drop_bit 2 (digits [f a, f b, f c, f d]) AND 0x33333333) = digits [g a, g b, g c, g d]"
      using digits_plus[of "\<lambda>c. c AND 0x33" "[f a, f b, f c, f d]" "\<lambda>c. drop_bit 2 c AND 0x33"]
      by (simp only: list.map g_def count_nibbles_def drop_bit_0 order.refl zero_le True_implies_equals id_apply)
    moreover have "u32_of (digits [g a, g b, g c, g d]) = digits [g a, g b, g c, g d]"
      using r(2) by (intro u32_digits) auto
    ultimately show ?thesis by simp
  qed
  have 3: "u32_of (digits [g a, g b, g c, g d] + drop_bit 4 (digits [g a, g b, g c, g d])) AND 0x0F0F0F0F =
      digits [count_byte a, count_byte b, count_byte c, count_byte d]"
    using count_round3[OF r(2)] by (simp add: count_byte_def Let_def f_def g_def)
  show ?thesis
    unfolding av_popcount_c_def Let_def 1 2 3 using count_rounds4[OF r(3) refl] .
qed

lemma bit_count_digits:
  "\<forall>c \<in> set cs. 0 \<le> c \<and> c < 256 \<Longrightarrow> bit_count (digits cs) = sum_list (map count_byte cs)"
proof (induction cs)
  case Nil
  then show ?case by (simp add: bit_count_def)
next
  case (Cons c cs)
  then show ?case
    using bit_count_concat[of c 8 "digits cs"] digits_nonneg[of cs] by (simp add: bit_count_byte)
qed

lemma popcount_correct:
  assumes "0 \<le> x" "x \<le> UINT_MAX"
  shows "av_popcount_c x = bit_count x"
proof -
  obtain a b c d where x: "x = digits [a, b, c, d]" and e: "\<forall>e \<in> {a, b, c, d}. 0 \<le> e \<and> e < 256"
    using four_digits[of x] assms by auto
  show ?thesis unfolding x popcount_digits[OF e] using bit_count_digits[of "[a, b, c, d]"] e by simp
qed

lemma popcount64_correct:
  assumes "0 \<le> x" "x < 2 ^ 64"
  shows "av_popcount64_c x = bit_count x"
proof -
  have "bit_count (x mod 2 ^ 32 + 2 ^ 32 * (x div 2 ^ 32)) = bit_count (x mod 2 ^ 32) + bit_count (x div 2 ^ 32)"
    using assms by (intro bit_count_concat) (simp_all add: pos_imp_zdiv_nonneg_iff)
  moreover have "0 \<le> x div 2 ^ 32" "x div 2 ^ 32 < 2 ^ 32" using assms by simp_all
  ultimately show ?thesis
    using assms by (simp add: av_popcount64_c_def u32_of_def drop_bit_eq_div popcount_correct)
qed

section \<open>Clipping and saturation\<close>

definition clip :: "int \<Rightarrow> int \<Rightarrow> int \<Rightarrow> int" where
  "clip lo hi a = max lo (min hi a)"

lemma outside_mask: "(a :: int) AND NOT (2 ^ n - 1) \<noteq> 0 \<longleftrightarrow> a < 0 \<or> 2 ^ n \<le> a"
  by (auto simp: and_not_mask zdiv_eq_0_iff) (use zero_less_power[of "2 :: int" n] in linarith)+

text \<open>The signed ranges: the offset makes them start at 0.\<close>

lemma outside_signed:
  assumes "in_s32 a" "0 \<le> m" "m \<le> 2 ^ 31" "n \<le> 31"
  shows "u32_of (a + m) AND NOT (2 ^ n - 1) \<noteq> 0 \<longleftrightarrow> a < - m \<or> 2 ^ n - m \<le> a"
proof -
  have n: "(2 :: int) ^ n \<le> 2 ^ 31" using assms(4) by (intro power_increasing) simp_all
  show ?thesis
  proof (cases "0 \<le> a + m")
    case True
    then have "u32_of (a + m) = a + m" using assms by (intro u32_of_id) (simp_all add: in_s32_def)
    then show ?thesis using True by (auto simp: outside_mask)
  next
    case False
    then have "u32_of (a + m) = a + m + 2 ^ 32"
      using assms u32_of_id[of "a + m + 2 ^ 32"] by (simp add: in_s32_def u32_of_def)
    then show ?thesis using False n assms by (auto simp: outside_mask in_s32_def)
  qed
qed

lemma outside_signed64:
  assumes "in_s64 a"
  shows "u64_of (a + 2 ^ 31) AND NOT (2 ^ 32 - 1) \<noteq> 0 \<longleftrightarrow> a < - (2 ^ 31) \<or> 2 ^ 31 \<le> a"
proof (cases "0 \<le> a + 2 ^ 31")
  case True
  then have "u64_of (a + 2 ^ 31) = a + 2 ^ 31" using assms by (intro u64_of_id) (simp_all add: in_s64_def)
  then show ?thesis using True outside_mask[of "a + 2 ^ 31" 32] by auto
next
  case False
  then have "u64_of (a + 2 ^ 31) = a + 2 ^ 31 + 2 ^ 64"
    using assms u64_of_id[of "a + 2 ^ 31 + 2 ^ 64"] mod_add_self2[of "a + 2 ^ 31" "2 ^ 64"]
    by (simp add: in_s64_def u64_of_def add.assoc)
  then show ?thesis using False assms outside_mask[of "a + 2 ^ 31 + 2 ^ 64" 32] by (auto simp: in_s64_def)
qed

lemma drop_sign: "- (2 ^ n) \<le> a \<Longrightarrow> a < 2 ^ n \<Longrightarrow> drop_bit n a = (if a < 0 then - 1 else (0 :: int))"
  using div_add_self2[of "2 ^ n :: int" a] by (auto simp: drop_bit_eq_div zdiv_eq_0_iff)

lemma sign_bits:
  "in_s32 a \<Longrightarrow> drop_bit 31 a = (if a < 0 then - 1 else 0)"
  "in_s32 a \<Longrightarrow> drop_bit 31 (NOT a) = (if a < 0 then 0 else - 1)"
  "in_s64 a \<Longrightarrow> drop_bit 63 a = (if a < 0 then - 1 else 0)"
  using drop_sign[of 31 a] drop_sign[of 31 "NOT a"] drop_sign[of 63 a]
  by (auto simp: in_s32_def in_s64_def not_int_def)

lemma clip_uint: "in_s32 a \<Longrightarrow> (if a AND NOT (2 ^ n - 1) \<noteq> 0 then drop_bit 31 (NOT a) AND (2 ^ n - 1) else a) = clip 0 (2 ^ n - 1) a"
  unfolding outside_mask by (auto simp: sign_bits clip_def) (use zero_less_power[of "2 :: int" n] in linarith)+

lemma clip_sint:
  assumes "in_s32 a" "n \<le> 30"
  shows "(if u32_of (a + 2 ^ n) AND NOT (2 * 2 ^ n - 1) \<noteq> 0 then drop_bit 31 a XOR (2 ^ n - 1) else a) =
    clip (- (2 ^ n)) (2 ^ n - 1) a"
proof -
  have "(2 :: int) ^ n \<le> 2 ^ 30" using assms(2) by (intro power_increasing) simp_all
  moreover have "- 1 XOR (2 ^ n - 1) = - (2 ^ n :: int)" by (simp add: bit.xor_one_left not_int_def)
  ultimately show ?thesis
    using outside_signed[of a "2 ^ n" "Suc n"] assms
    by (auto simp: sign_bits clip_def) (use zero_less_power[of "2 :: int" n] in linarith)+
qed

lemma clip_s32:
  assumes "in_s64 a"
  shows "av_clipl_int32_c a = clip INT_MIN INT_MAX a"
proof -
  have "s32 (- 1 XOR INT_MAX) = INT_MIN" "s32 (0 XOR INT_MAX) = INT_MAX" by code_simp+
  then show ?thesis
    using outside_signed64[OF assms] s32_id[of a]
    by (auto simp: av_clipl_int32_c_def sign_bits assms clip_def in_s32_def)
qed

lemma clips_correct:
  assumes "in_s32 a"
  shows "av_clip_uint8_c a = clip 0 255 a" "av_clip_int8_c a = clip (- 128) 127 a"
    "av_clip_uint16_c a = clip 0 65535 a" "av_clip_int16_c a = clip (- 32768) 32767 a"
  using clip_uint[OF assms, of 8] clip_sint[OF assms, of 7] clip_uint[OF assms, of 16] clip_sint[OF assms, of 15]
  by (simp_all add: av_clip_uint8_c_def av_clip_int8_c_def av_clip_uint16_c_def av_clip_int16_c_def cong: if_cong)

lemma clip_p2_correct:
  assumes "in_s32 a" "p \<le> 29"
  shows "av_clip_intp2_c a p = clip (- (2 ^ p)) (2 ^ p - 1) a" "av_clip_uintp2_c a p = clip 0 (2 ^ p - 1) a"
    "av_mod_uintp2_c (u32_of a) p = a mod 2 ^ p"
proof -
  have p: "(2 :: int) ^ p \<le> 2 ^ 29" using assms(2) by (intro power_increasing) simp_all
  then have s: "s32 (2 ^ p) = 2 ^ p" "s32 (2 * 2 ^ p) = 2 * 2 ^ p" "s32 (2 ^ p - 1) = 2 ^ p - 1" "s32 (2 * 2 ^ p - 1) = 2 * 2 ^ p - 1"
    "u32_of (2 ^ p) = 2 ^ p" "u32_of (2 ^ p - 1) = 2 ^ p - 1"
    using zero_less_power[of "2 :: int" p] by (simp_all add: s32_id u32_of_id in_s32_def del: zero_less_power)
  have "u32_of (u32_of a + 2 ^ p) = u32_of (a + 2 ^ p)" by (simp add: u32_of_def mod_simps)
  then show "av_clip_intp2_c a p = clip (- (2 ^ p)) (2 ^ p - 1) a"
    using clip_sint[OF assms(1), of p] assms(2) by (simp add: av_clip_intp2_c_def s cong: if_cong)
  show "av_clip_uintp2_c a p = clip 0 (2 ^ p - 1) a"
    using clip_uint[OF assms(1), of p] by (simp add: av_clip_uintp2_c_def s cong: if_cong)
  have "(2 :: int) ^ p dvd 2 ^ 32" using assms(2) by (intro le_imp_power_dvd) simp
  then have "u32_of a mod 2 ^ p = a mod 2 ^ p" by (simp add: u32_of_def mod_mod_cancel)
  moreover have "u32_of a AND (2 ^ p - 1) = u32_of a mod 2 ^ p"
    using take_bit_eq_mask[of p "u32_of a"] by (simp add: mask_eq_exp_minus_1 take_bit_eq_mod)
  ultimately show "av_mod_uintp2_c (u32_of a) p = a mod 2 ^ p" by (simp add: av_mod_uintp2_c_def s)
qed

lemma sat32_correct:
  assumes "in_s32 a" "in_s32 b"
  shows "av_sat_add32_c a b = clip INT_MIN INT_MAX (a + b)" "av_sat_sub32_c a b = clip INT_MIN INT_MAX (a - b)"
    "in_s32 (av_sat_add32_c a b)"
proof -
  have "in_s64 (a + b)" "in_s64 (a - b)" using assms by (auto simp: in_s32_def in_s64_def)
  then show "av_sat_add32_c a b = clip INT_MIN INT_MAX (a + b)" "av_sat_sub32_c a b = clip INT_MIN INT_MAX (a - b)"
    by (simp_all add: av_sat_add32_c_def av_sat_sub32_c_def clip_s32)
  then show "in_s32 (av_sat_add32_c a b)" by (auto simp: clip_def in_s32_def)
qed

lemma s64_shift: "s64 (x + 18446744073709551616) = s64 x" "s64 (x - 18446744073709551616) = s64 x"
proof -
  have *: "s64 (x + 18446744073709551616) = s64 x" for x
    using mod_add_self2[of "x + 9223372036854775808" 18446744073709551616] by (simp add: s64_def add.assoc)
  show "s64 (x + 18446744073709551616) = s64 x" by (rule *)
  show "s64 (x - 18446744073709551616) = s64 x" using *[of "x - 18446744073709551616"] by simp
qed

text \<open>The wrapped value of a sum or difference of two 64-bit values.\<close>

lemma s64_wrap:
  assumes "2 * INT64_MIN \<le> x" "x \<le> 2 * INT64_MAX + 1"
  shows "s64 x = (if x < INT64_MIN then x + 2 ^ 64 else if x > INT64_MAX then x - 2 ^ 64 else x)"
proof -
  have "s64 (x + 2 ^ 64) = x + 2 ^ 64" if "x < INT64_MIN" using that assms by (intro s64_id) (simp add: in_s64_def)
  moreover have "s64 (x - 2 ^ 64) = x - 2 ^ 64" if "x > INT64_MAX" using that assms by (intro s64_id) (simp add: in_s64_def)
  moreover have "s64 x = x" if "\<not> x < INT64_MIN" "\<not> x > INT64_MAX" using that by (intro s64_id) (simp add: in_s64_def)
  ultimately show ?thesis by (simp add: s64_shift)
qed

lemma sat_add64_correct:
  assumes "in_s64 a" "in_s64 b"
  shows "av_sat_add64_builtin a b = clip INT64_MIN INT64_MAX (a + b)" "av_sat_add64_c a b = clip INT64_MIN INT64_MAX (a + b)"
proof -
  have w: "s64 (a + b) = (if a + b < INT64_MIN then a + b + 2 ^ 64 else if a + b > INT64_MAX then a + b - 2 ^ 64 else a + b)"
    using assms by (intro s64_wrap) (auto simp: in_s64_def)
  then show "av_sat_add64_builtin a b = clip INT64_MIN INT64_MAX (a + b)"
    using assms by (auto simp: av_sat_add64_builtin_def clip_def in_s64_def)
  have "s64 (u64_of (a + u64_of b)) = s64 (a + b)" by (simp add: s64_def u64_of_def mod_simps)
  moreover have "INT64_MAX XOR drop_bit 63 b = (if b < 0 then INT64_MIN else INT64_MAX)"
    using assms by (simp add: sign_bits)
  ultimately show "av_sat_add64_c a b = clip INT64_MIN INT64_MAX (a + b)"
    using assms by (auto simp: av_sat_add64_c_def Let_def clip_def in_s64_def w)
qed

lemma sat_sub64_correct:
  assumes "in_s64 a" "in_s64 b"
  shows "av_sat_sub64_builtin a b = clip INT64_MIN INT64_MAX (a - b)" "av_sat_sub64_c a b = clip INT64_MIN INT64_MAX (a - b)"
proof -
  have w: "s64 (a - b) = (if a - b < INT64_MIN then a - b + 2 ^ 64 else if a - b > INT64_MAX then a - b - 2 ^ 64 else a - b)"
    using assms by (intro s64_wrap) (auto simp: in_s64_def)
  then show "av_sat_sub64_builtin a b = clip INT64_MIN INT64_MAX (a - b)"
    using assms by (auto simp: av_sat_sub64_builtin_def clip_def in_s64_def)
  have "b \<le> 0 \<Longrightarrow> s64 (INT64_MAX + b) = INT64_MAX + b" "b \<ge> 0 \<Longrightarrow> s64 (INT64_MIN + b) = INT64_MIN + b"
    using assms by (auto intro!: s64_id simp: in_s64_def)
  then show "av_sat_sub64_c a b = clip INT64_MIN INT64_MAX (a - b)"
    using assms by (auto simp: av_sat_sub64_c_def clip_def in_s64_def w)
qed

section \<open>Round trip of the Unicode encodings\<close>

text \<open>A memory buffer as the source: the next unit, or 0 at the end.\<close>

fun next_unit :: "int list \<Rightarrow> int \<times> int list" where
  "next_unit [] = (0, [])"
| "next_unit (x # xs) = (x, xs)"

text \<open>An encoding of \<open>n\<close> bytes, read as one number in base 64: the marker of the first byte above the value.\<close>

definition utf8_number :: "nat \<Rightarrow> int \<Rightarrow> int" where
  "utf8_number n v = 2 ^ (5 * n + 2) * (2 ^ n - 1) + v"

lemma or_disjoint:
  assumes "0 \<le> b" "b < (2 :: int) ^ n"
  shows "2 ^ n * r OR b = 2 ^ n * r + b"
proof -
  have "push_bit n r AND take_bit n b = 0" by (rule bit_eqI) (auto simp: bit_simps)
  moreover have "take_bit n b = b" using assms by (simp add: take_bit_int_eq_self_iff)
  ultimately have "2 ^ n * r AND b = 0" by (simp add: push_bit_eq_mult mult.commute)
  then show ?thesis by (simp add: disjunctive_add_eq_or)
qed

lemma pow64: "(64 :: int) ^ r = 2 ^ (6 * r)"
  by (simp add: power_mult)

lemma u32_take_bit: "u32_of x = take_bit 32 x"
  by (simp add: u32_of_def take_bit_eq_mod)

lemma and_pow_iff: "(v AND 2 ^ m \<noteq> 0) = bit (v :: int) m"
  by (simp add: bit_iff_and_push_bit_not_eq_0 push_bit_of_1)

lemma utf8_number_concat:
  "0 \<le> v \<Longrightarrow> v < 2 ^ (5 * n + 1) \<Longrightarrow> utf8_number n v = concat_bit (5 * n + 2) v (mask n)"
  by (simp add: utf8_number_def mask_eq_exp_minus_1 flip: concat_plus)

lemma utf8_bits:
  assumes "0 \<le> v" "v < 2 ^ (5 * n + 1)" "r < n"
  shows "bit (utf8_number n v) (5 * n + 1 + r) \<longleftrightarrow> r \<noteq> 0"
proof -
  have "take_bit (5 * n + 1) v = v" using assms by (simp add: take_bit_int_eq_self_iff)
  then have "\<not> bit v (5 * n + 1)" by (metis bit_take_bit_iff less_irrefl)
  then show ?thesis
    using assms(3) by (cases r) (auto simp: utf8_number_concat[OF assms(1,2)] bit_concat_bit_iff bit_mask_iff)
qed

text \<open>Each byte after the first holds the next six bits.\<close>

lemma utf8_digit:
  assumes "0 \<le> v" "v < 2 ^ (5 * n + 1)" "n \<le> 6" "r + 2 \<le> n"
  shows "utf8_number n v div 64 ^ r mod 64 = v div 64 ^ r mod 64"
proof -
  have "take_bit 6 (drop_bit (6 * r) (utf8_number n v)) = take_bit 6 (drop_bit (6 * r) v)"
    using assms(3,4) by (intro bit_eqI) (auto simp: utf8_number_concat[OF assms(1,2)] bit_take_bit_iff bit_drop_bit_eq bit_concat_bit_iff)
  moreover have "(64 :: int) ^ r = 2 ^ (6 * r)" by (simp add: power_mult)
  ultimately show ?thesis by (simp add: take_bit_eq_mod drop_bit_eq_div)
qed

lemma put_utf8_length: "length (put_utf8_loop v (6 * r)) = r"
proof (induction r)
  case (Suc r)
  have "6 * Suc r - 6 = 6 * r" by simp
  then show ?case using Suc by (simp only: put_utf8_loop.simps[of v "6 * Suc r"]) simp
qed (simp add: put_utf8_loop.simps)

lemma continuation_byte:
  assumes "d = 0x80 OR (x AND 0x3f)"
  shows "u32_of (d - 128) = x mod 64" "drop_bit 6 (u32_of (d - 128)) = 0"
proof -
  have m: "x AND 0x3f = x mod 64" using take_bit_eq_mask[of 6 x] by (simp add: mask_eq_exp_minus_1 take_bit_eq_mod)
  have "x mod 64 < 64" "0 \<le> x mod 64" by simp_all
  then have "d = 128 + x mod 64" using or_disjoint[of "x mod 64" 7 1] by (simp add: assms m)
  then show "u32_of (d - 128) = x mod 64" by (simp add: u32_of_id)
  then show "drop_bit 6 (u32_of (d - 128)) = 0" by (simp add: drop_bit_eq_div)
qed

lemma get_utf8_step:
  "val AND tp \<noteq> 0 \<Longrightarrow> get_byte s = (d, s') \<Longrightarrow> drop_bit 6 (u32_of (d - 128)) = 0 \<Longrightarrow>
     get_utf8_loop (Suc k) get_byte val tp s =
       get_utf8_loop k get_byte (u32_of (u32_of (val * 64) + u32_of (d - 128))) (u32_of (tp * 32)) s'"
  by simp

text \<open>The loop of the decoder from the state after \<open>n - 1 - r\<close> further bytes on.\<close>

lemma get_utf8_rest:
  assumes "0 \<le> v" "v < 2 ^ (5 * n + 1)" "n \<le> 6"
  shows "r < n \<Longrightarrow> get_utf8_loop (Suc r + m) next_unit (u32_of (utf8_number n v div 64 ^ r)) (2 ^ (5 * n + 1 - 5 * r))
    (put_utf8_loop v (6 * r) @ rest) = (Some v, rest)"
proof (induction r)
  case 0
  have "\<not> bit (u32_of (utf8_number n v)) (5 * n + 1)"
    using utf8_bits[OF assms(1,2), of 0] 0 by (simp add: u32_take_bit bit_take_bit_iff)
  moreover have "u32_of (utf8_number n v) AND u32_of (u32_of (2 ^ (5 * n + 1) * 2) - 1) = v"
  proof -
    have "u32_of (u32_of (2 ^ (5 * n + 1) * 2) - 1) = mask (5 * n + 2)"
    proof (cases "n = 6")
      case True
      show ?thesis unfolding True by code_simp
    next
      case False
      then have "(2 :: int) ^ (5 * n + 2) \<le> 2 ^ 27" using assms(3) by (intro power_increasing) simp_all
      then show ?thesis
        using zero_less_power[of "2 :: int" "5 * n + 2"] u32_of_id[of "2 ^ (5 * n + 2)"] u32_of_id[of "2 ^ (5 * n + 2) - 1"]
        by (simp add: mask_eq_exp_minus_1)
    qed
    moreover have "u32_of (utf8_number n v) AND mask (5 * n + 2) = take_bit (min (5 * n + 2) 32) (utf8_number n v)"
      by (simp add: u32_take_bit flip: take_bit_eq_mask)
    moreover have "min (5 * n + 2) 32 = 5 * n + 2" using assms(3) by simp
    moreover have "take_bit (5 * n + 2) (utf8_number n v) = v"
      using assms by (simp add: utf8_number_concat take_bit_concat_bit_eq take_bit_int_eq_self_iff)
    ultimately show ?thesis by simp
  qed
  ultimately show ?case by (simp add: and_pow_iff[symmetric] put_utf8_loop.simps[of v 0])
next
  case (Suc r)
  define G where "G = utf8_number n v"
  define d where "d = 0x80 OR (drop_bit (6 * r) v AND 0x3f)"
  have p: "put_utf8_loop v (6 * Suc r) = d # put_utf8_loop v (6 * r)"
  proof -
    have "6 * Suc r - 6 = 6 * r" by simp
    then show ?thesis by (simp only: put_utf8_loop.simps[of v "6 * Suc r"] d_def) simp
  qed
  have e: "5 * n + 1 - 5 * Suc r < 32" "5 * n + 1 - 5 * r = 5 * n + 1 - 5 * Suc r + 5"
      "5 * n + 1 - 5 * Suc r + 6 * Suc r = 5 * n + 1 + Suc r" "5 * n + 1 - 5 * r < 32" using Suc.prems assms(3) by auto
  have "bit (G div 64 ^ Suc r) (5 * n + 1 - 5 * Suc r)"
    using utf8_bits[OF assms(1,2), of "Suc r"] Suc.prems e(3)
    by (simp only: G_def pow64 bit_drop_bit_eq add.commute[of "6 * Suc r"] flip: drop_bit_eq_div) (simp add: add.commute)
  then have c: "u32_of (G div 64 ^ Suc r) AND 2 ^ (5 * n + 1 - 5 * Suc r) \<noteq> 0"
    using e(1) by (simp add: and_pow_iff u32_take_bit bit_take_bit_iff)
  have t: "u32_of (2 ^ (5 * n + 1 - 5 * Suc r) * 32) = 2 ^ (5 * n + 1 - 5 * r)"
  proof -
    have "2 ^ (5 * n + 1 - 5 * Suc r) * 32 = (2 :: int) ^ (5 * n + 1 - 5 * r)" unfolding e(2) power_add by simp
    moreover have "(2 :: int) ^ (5 * n + 1 - 5 * r) \<le> 2 ^ 31" using e(4) by (intro power_increasing) simp_all
    ultimately show ?thesis by (simp add: u32_of_id)
  qed
  have b: "u32_of (d - 128) = G div 64 ^ r mod 64" "drop_bit 6 (u32_of (d - 128)) = 0"
    using continuation_byte[of d "drop_bit (6 * r) v"] utf8_digit[OF assms, of r] Suc.prems
    by (simp_all add: d_def G_def drop_bit_eq_div power_mult)
  have "u32_of (u32_of (u32_of (G div 64 ^ Suc r) * 64) + G div 64 ^ r mod 64) = u32_of (G div 64 ^ r)"
  proof -
    have "G div 64 ^ Suc r = G div 64 ^ r div 64"
      by (simp only: power_Suc2) (rule zdiv_zmult2_eq, simp)
    then have "G div 64 ^ Suc r * 64 + G div 64 ^ r mod 64 = G div 64 ^ r" by simp
    moreover have "u32_of (u32_of (u32_of x * 64) + y) = u32_of (x * 64 + y)" for x y
      by (simp add: u32_of_def mod_simps)
    ultimately show ?thesis by simp
  qed
  then have "get_utf8_loop (Suc (Suc r + m)) next_unit (u32_of (G div 64 ^ Suc r)) (2 ^ (5 * n + 1 - 5 * Suc r)) (d # xs) =
      get_utf8_loop (Suc r + m) next_unit (u32_of (G div 64 ^ r)) (2 ^ (5 * n + 1 - 5 * r)) xs" for xs
    using get_utf8_step[where get_byte = next_unit, OF c next_unit.simps(2)[of d xs] b(2), of "Suc r + m"]
    unfolding b(1) t by simp
  then show ?case using Suc by (simp only: p append_Cons add_Suc G_def)
qed

text \<open>The number of bytes, and the first of them.\<close>

definition utf8_length :: "int \<Rightarrow> nat" where
  "utf8_length v =
     (if v < 0x80 then 1 else if v < 0x800 then 2 else if v < 0x10000 then 3 else if v < 0x200000 then 4
      else if v < 0x4000000 then 5 else 6)"

lemma utf8_length_log2:
  assumes "128 \<le> v" "v < 2 ^ 31" "is_log2 v l"
  shows "cdiv (l + 4) 5 = int (utf8_length v)"
proof -
  define k where "k = nat l"
  have k: "2 ^ k \<le> v" "v < 2 ^ Suc k" "l = int k" using assms by (auto simp: is_log2_def k_def)
  have ge: "m \<le> k" if "2 ^ m \<le> v" for m
  proof (rule ccontr)
    assume "\<not> m \<le> k"
    then have "(2 :: int) ^ Suc k \<le> 2 ^ m" by (intro power_increasing) simp_all
    then show False using k(2) that by linarith
  qed
  have le: "k < m" if "v < 2 ^ m" for m
  proof (rule ccontr)
    assume "\<not> k < m"
    then have "(2 :: int) ^ m \<le> 2 ^ k" by (intro power_increasing) simp_all
    then show False using k(1) that by linarith
  qed
  have "(k + 4) div 5 = utf8_length v"
    using assms(1,2) ge[of 7] ge[of 11] ge[of 16] ge[of 21] ge[of 26] le[of 11] le[of 16] le[of 21] le[of 26] le[of 31]
    by (auto simp: utf8_length_def)
  then show ?thesis unfolding k(3) by (simp add: zdiv_int[symmetric])
qed

lemma put_utf8_first:
  assumes "128 \<le> v" "v < 2 ^ 31"
  defines "n \<equiv> utf8_length v"
  shows "PUT_UTF8 v = utf8_number n v div 64 ^ (n - 1) # put_utf8_loop v (6 * (n - 1))"
    "192 \<le> utf8_number n v div 64 ^ (n - 1)" "utf8_number n v div 64 ^ (n - 1) < 254"
    "2 \<le> n" "n \<le> 6" "v < 2 ^ (5 * n + 1)"
proof -
  define hi where "hi = v div 64 ^ (n - 1)"
  show n: "2 \<le> n" "n \<le> 6" "v < 2 ^ (5 * n + 1)"
    using assms(1,2) by (auto simp: n_def utf8_length_def)
  have "64 ^ (n - 1) * 2 ^ (7 - n) = (2 :: int) ^ (5 * n + 1)"
  proof -
    have "6 * (n - 1) + (7 - n) = 5 * n + 1" using n(1,2) by arith
    then show ?thesis unfolding pow64 by (simp flip: power_add)
  qed
  then have hi: "0 \<le> hi" "hi < 2 ^ (7 - n)"
    using n(3) assms(1) zdiv_lt_mult[of "64 ^ (n - 1)" v "2 ^ (7 - n)"] by (simp_all add: hi_def pos_imp_zdiv_nonneg_iff mult.commute)
  have p: "2 ^ (5 * n + 2) = (64 :: int) ^ (n - 1) * 2 ^ (8 - n)"
  proof -
    have "6 * (n - 1) + (8 - n) = 5 * n + 2" using n(1,2) by arith
    then show ?thesis unfolding pow64 by (simp flip: power_add)
  qed
  then have G: "utf8_number n v div 64 ^ (n - 1) = 2 ^ (8 - n) * (2 ^ n - 1) + hi"
    by (simp add: utf8_number_def hi_def mult.assoc)
  have c: "2 ^ (8 - n) * (2 ^ n - 1) = 256 - (2 :: int) ^ (8 - n)"
    using n(2) by (simp add: algebra_simps flip: power_add)
  have b: "(2 :: int) ^ (8 - n) = 2 * 2 ^ (7 - n)" "(2 :: int) ^ (7 - n) \<le> 2 ^ 5" "2 \<le> (2 :: int) ^ (7 - n)"
    using n(1,2) power_increasing[of "7 - n" 5 "2 :: int"] power_increasing[of 1 "7 - n" "2 :: int"]
    by (simp_all flip: power_Suc add: Suc_diff_le)
  show g: "192 \<le> utf8_number n v div 64 ^ (n - 1)" "utf8_number n v div 64 ^ (n - 1) < 254"
    unfolding G c using hi b by simp_all
  have l: "cdiv (ff_log2_c v + 4) 5 = int n"
    using utf8_length_log2[OF assms(1,2)] log2_correct[of v] assms by (simp add: n_def)
  have "drop_bit n (256 :: int) = 2 ^ (8 - n)"
    using n(2) by (simp add: drop_bit_eq_div power_diff)
  moreover have "drop_bit (6 * (n - 1)) v = hi" unfolding hi_def drop_bit_eq_div pow64 ..
  moreover have "nat ((int n - 1) * 6) = 6 * (n - 1)" using n(1) by (simp add: nat_mult_distrib nat_diff_distrib' of_nat_diff)
  moreover have "(256 - 2 ^ (8 - n)) OR hi = utf8_number n v div 64 ^ (n - 1)"
    using or_disjoint[of hi "8 - n" "2 ^ n - 1"] hi b(1) unfolding G c by simp
  moreover have "x AND 0xFF = x" if "192 \<le> x" "x < 254" for x :: int
    using take_bit_eq_mask[of 8 x] that by (simp add: mask_eq_exp_minus_1 take_bit_eq_mod)
  ultimately show "PUT_UTF8 v = utf8_number n v div 64 ^ (n - 1) # put_utf8_loop v (6 * (n - 1))"
    using assms(1) g by (simp add: PUT_UTF8_def l)
qed

lemma utf8_roundtrip_aux:
  assumes "0 \<le> v" "v < 2 ^ 31"
  shows "GET_UTF8 next_unit (PUT_UTF8 v @ rest) = (Some v, rest)" "length (PUT_UTF8 v) = utf8_length v"
proof -
  have "GET_UTF8 next_unit (PUT_UTF8 v @ rest) = (Some v, rest) \<and> length (PUT_UTF8 v) = utf8_length v"
  proof (cases "v < 128")
    case True
    have "v < 128 \<longrightarrow> v AND 0xc0 \<noteq> 0x80 \<and> v AND 128 = 0"
      using assms(1) True by (intro all_bytes[of "\<lambda>v. v < 128 \<longrightarrow> v AND 0xc0 \<noteq> 0x80 \<and> v AND 128 = 0"]) (code_simp, simp_all)
    then have c: "v AND 0xc0 \<noteq> 0x80" "v AND 128 = 0" using True by simp_all
    have "v AND 0xFFFFFFFF = v"
      using take_bit_eq_mask[of 32 v] assms(1) True by (simp add: mask_eq_exp_minus_1 take_bit_eq_mod)
    moreover have "get_utf8_loop 7 next_unit v 0 rest = (Some (v AND u32_of (u32_of (0 * 2) - 1)), rest)"
      by (simp add: eval_nat_numeral)
    moreover have "u32_of (u32_of (0 * 2) - 1) = 0xFFFFFFFF" by code_simp
    ultimately show ?thesis using True c by (simp add: PUT_UTF8_def GET_UTF8_def utf8_length_def del: drop_bit_and)
  next
    case False
    define n where "n = utf8_length v"
    define b where "b = utf8_number n v div 64 ^ (n - 1)"
    note f = put_utf8_first[of v, folded n_def, folded b_def]
    have p: "PUT_UTF8 v = b # put_utf8_loop v (6 * (n - 1))" "192 \<le> b" "b < 254" "2 \<le> n" "n \<le> 6" "v < 2 ^ (5 * n + 1)"
      using f False assms(2) by simp_all
    have "192 \<le> b \<and> b < 254 \<longrightarrow> b AND 0xc0 = 0xc0 \<and> b AND 128 = 128"
      using p(2,3) by (intro all_bytes[of "\<lambda>b. 192 \<le> b \<and> b < 254 \<longrightarrow> b AND 0xc0 = 0xc0 \<and> b AND 128 = 128"]) (code_simp, simp_all)
    then have c: "b AND 0xc0 = 0xc0" "b AND 128 = 128" using p(2,3) by simp_all
    have "get_utf8_loop (Suc (n - 1) + (7 - n)) next_unit (u32_of b) (2 ^ (5 * n + 1 - 5 * (n - 1)))
        (put_utf8_loop v (6 * (n - 1)) @ rest) = (Some v, rest)"
      unfolding b_def using assms(1) p(4-6) by (intro get_utf8_rest) simp_all
    moreover have "Suc (n - 1) + (7 - n) = 7" "5 * n + 1 - 5 * (n - 1) = 6" "u32_of b = b"
      using p(2-5) by (auto intro: u32_of_id)
    ultimately have "get_utf8_loop 7 next_unit b 64 (put_utf8_loop v (6 * (n - 1)) @ rest) = (Some v, rest)" by simp
    then show ?thesis
      using p c put_utf8_length[of v "n - 1"] by (simp add: GET_UTF8_def drop_bit_eq_div del: drop_bit_and flip: n_def)
  qed
  then show "GET_UTF8 next_unit (PUT_UTF8 v @ rest) = (Some v, rest)" "length (PUT_UTF8 v) = utf8_length v" by simp_all
qed

lemma utf16_roundtrip_aux:
  assumes "0 \<le> v" "v < 0x110000" "v < 0xD800 \<or> 0xDFFF < v"
  shows "GET_UTF16 next_unit (PUT_UTF16 v @ rest) = (Some v, rest)"
proof (cases "v < 0x10000")
  case True
  have "\<not> u32_of (v - 0xD800) < 0x800"
  proof (cases "v < 0xD800")
    case True
    then have "u32_of (v - 0xD800) = v - 0xD800 + 2 ^ 32"
      using assms(1) u32_of_id[of "v - 0xD800 + 2 ^ 32"] mod_add_self2[of "v - 0xD800" "2 ^ 32"] by (simp add: u32_of_def)
    then show ?thesis using assms(1) by simp
  next
    case False
    then show ?thesis using assms True by (simp add: u32_of_id)
  qed
  then show ?thesis using True by (simp add: PUT_UTF16_def GET_UTF16_def)
next
  case False
  define w where "w = v - 0x10000"
  have w: "0 \<le> w div 2 ^ 10" "w div 2 ^ 10 < 2 ^ 10" "w AND 0x3FF = w mod 2 ^ 10"
    using False assms take_bit_eq_mask[of 10 w] by (auto simp: w_def mask_eq_exp_minus_1 take_bit_eq_mod)
  have hi: "(0xD800 OR drop_bit 10 w) AND 0xFFFF = 0xD800 + w div 2 ^ 10"
  proof -
    have "0xD800 OR drop_bit 10 w = 0xD800 + w div 2 ^ 10"
      using or_disjoint[of "w div 2 ^ 10" 10 54] w by (simp add: drop_bit_eq_div)
    then show ?thesis
      using take_bit_eq_mask[of 16 "0xD800 + w div 2 ^ 10"] w by (simp add: mask_eq_exp_minus_1 take_bit_eq_mod)
  qed
  have lo: "0xDC00 OR (w AND 0x3FF) = 0xDC00 + w mod 2 ^ 10"
    using or_disjoint[of "w mod 2 ^ 10" 10 55] by (simp add: w(3))
  have "u32_of (0xD800 + w div 2 ^ 10 - 0xD800) = w div 2 ^ 10" "u32_of (0xDC00 + w mod 2 ^ 10 - 0xDC00) = w mod 2 ^ 10"
    using w by (simp_all add: u32_of_id)
  moreover have "u32_of (w mod 2 ^ 10 + (w div 2 ^ 10 * 2 ^ 10 + 0x10000)) = v"
    using assms(1,2) by (simp add: w_def u32_of_id)
  moreover have "PUT_UTF16 v = [0xD800 + w div 2 ^ 10, 0xDC00 + w mod 2 ^ 10]"
    unfolding PUT_UTF16_def w_def[symmetric] hi lo using False by simp
  ultimately show ?thesis using w by (simp add: GET_UTF16_def Let_def)
qed

section \<open>Properties\<close>

text \<open>C25: The bit scans. The table-driven logarithm finds the highest set bit of every \<open>unsigned\<close> (and 0 for 0), the
  loop that counts leading zeros agrees with it, the multiplication by a De Bruijn constant finds the lowest set bit of
  every nonzero \<open>int\<close> and \<open>long long\<close>, the rounded-up logarithm is the smallest power of two that is not below, and
  the population count adds up exactly the bits that are set.\<close>

theorem bit_scans_correct:
  assumes "0 \<le> v" "v \<le> UINT_MAX" "in_s32 i" "i \<noteq> 0" "in_s64 l" "l \<noteq> 0" "0 \<le> w" "w < 2 ^ 64"
  shows "is_log2 v (ff_log2_c v) \<and> (v < 2 ^ 16 \<longrightarrow> ff_log2_16bit_c v = ff_log2_c v) \<and>
    ff_clz_c v = (if v = 0 then 32 else 31 - ff_log2_c v) \<and>
    (0 < i \<longrightarrow> i \<le> 2 ^ nat (av_ceil_log2_c i) \<and> (\<forall>n. i \<le> 2 ^ n \<longrightarrow> nat (av_ceil_log2_c i) \<le> n)) \<and>
    2 ^ nat (ff_ctz_c i) dvd i \<and> odd (i div 2 ^ nat (ff_ctz_c i)) \<and>
    2 ^ nat (ff_ctzll_c l) dvd l \<and> odd (l div 2 ^ nat (ff_ctzll_c l)) \<and> ff_ctzll_c l = int (ctz l) \<and>
    av_popcount_c v = int (card {n. bit v n}) \<and> av_popcount64_c w = int (card {n. bit w n}) \<and>
    av_parity_c v = of_bool (odd (card {n. bit v n}))"
proof -
  have "is_log2 v (ff_log2_c v)" using assms by (simp add: log2_correct)
  moreover have "v < 2 ^ 16 \<longrightarrow> ff_log2_16bit_c v = ff_log2_c v"
    using assms and_high[of v 16 16] div_mult_0_iff[of v 16] by (simp add: ff_log2_16bit_c_def ff_log2_c_def)
  moreover have "ff_clz_c v = (if v = 0 then 32 else 31 - ff_log2_c v)"
    using clz_loop_correct[OF assms(1) log2_correct[OF assms(1,2)]] by (simp add: ff_clz_c_def)
  moreover have "0 < i \<longrightarrow> i \<le> 2 ^ nat (av_ceil_log2_c i) \<and> (\<forall>n. i \<le> 2 ^ n \<longrightarrow> nat (av_ceil_log2_c i) \<le> n)"
    using ceil_log2_correct[of i] assms by (simp add: in_s32_def)
  moreover have "2 ^ nat (ff_ctz_c i) dvd i" "odd (i div 2 ^ nat (ff_ctz_c i))"
    "2 ^ nat (ff_ctzll_c l) dvd l" "odd (l div 2 ^ nat (ff_ctzll_c l))" "ff_ctzll_c l = int (ctz l)"
    using assms by (simp_all add: ctz32_correct ctz64_correct ctz_spec)
  moreover have p: "av_popcount_c v = int (card {n. bit v n})" "av_popcount64_c w = int (card {n. bit w n})"
    using assms popcount_correct popcount64_correct by (simp_all add: bit_count_def)
  moreover have "av_parity_c v = of_bool (odd (card {n. bit v n}))"
    by (simp add: av_parity_c_def p and_one_eq mod_2_eq_odd)
  ultimately show ?thesis by blast
qed

theorem bit_scans_correct_witness:
  "ff_ctz_c 80 = 4 \<and> ff_ctzll_c (- 96) = 5 \<and> ff_clz_c 1000 = 22 \<and> 5 \<le> (2 :: int) ^ nat (av_ceil_log2_c 5)"
proof -
  have "0 \<le> (1000 :: int)" "1000 \<le> UINT_MAX" "in_s32 80" "80 \<noteq> (0 :: int)" "in_s32 5" "5 \<noteq> (0 :: int)" "in_s64 (- 96)"
    "- 96 \<noteq> (0 :: int)" "0 \<le> (7 :: int)" "7 < (2 :: int) ^ 64" by (simp_all add: in_s32_def in_s64_def)
  note h = this
  have v: "ff_log2_c 1000 = 9" "ff_ctz_c 80 = 4" "ctz (- 96) = 5" by code_simp+
  show ?thesis
    using bit_scans_correct[OF h(1-4,7-10)] bit_scans_correct[OF h(1,2,5-10)] unfolding v by simp
qed

text \<open>Clipping and saturation. Every clipping function tests one mask of the value, or of the value moved to start
  at 0, and fills the result with its sign; the result is the nearest value of the target range, for any \<open>int\<close> and
  for powers of two up to 29. Both builds of the 64-bit sums, the one with the overflow builtins and the one that looks
  at the signs of the wrapped sum, give the nearest 64-bit value to the exact sum or difference.\<close>

theorem clips_saturate:
  assumes "in_s32 a" "in_s32 b" "in_s64 x" "in_s64 y" "p \<le> 29"
  shows "av_clip_uint8_c a = clip 0 255 a \<and> av_clip_int8_c a = clip (- 128) 127 a \<and>
    av_clip_uint16_c a = clip 0 65535 a \<and> av_clip_int16_c a = clip (- 32768) 32767 a \<and>
    av_clipl_int32_c x = clip INT_MIN INT_MAX x \<and>
    av_clip_intp2_c a p = clip (- (2 ^ p)) (2 ^ p - 1) a \<and> av_clip_uintp2_c a p = clip 0 (2 ^ p - 1) a \<and>
    av_mod_uintp2_c (u32_of a) p = a mod 2 ^ p \<and>
    av_sat_add32_c a b = clip INT_MIN INT_MAX (a + b) \<and> av_sat_sub32_c a b = clip INT_MIN INT_MAX (a - b) \<and>
    av_sat_dadd32_c a b = clip INT_MIN INT_MAX (a + clip INT_MIN INT_MAX (2 * b)) \<and>
    av_sat_dsub32_c a b = clip INT_MIN INT_MAX (a - clip INT_MIN INT_MAX (2 * b)) \<and>
    av_sat_add64_c x y = clip INT64_MIN INT64_MAX (x + y) \<and> av_sat_add64_builtin x y = av_sat_add64_c x y \<and>
    av_sat_sub64_c x y = clip INT64_MIN INT64_MAX (x - y) \<and> av_sat_sub64_builtin x y = av_sat_sub64_c x y"
proof -
  note d = sat32_correct[OF assms(2,2)]
  have "av_sat_dadd32_c a b = clip INT_MIN INT_MAX (a + clip INT_MIN INT_MAX (2 * b))"
    "av_sat_dsub32_c a b = clip INT_MIN INT_MAX (a - clip INT_MIN INT_MAX (2 * b))"
    using sat32_correct[OF assms(1) d(3)] d(1) by (simp_all add: av_sat_dadd32_c_def av_sat_dsub32_c_def)
  then show ?thesis
    using assms clips_correct clip_s32 clip_p2_correct sat32_correct(1,2) sat_add64_correct sat_sub64_correct by simp
qed

theorem clips_saturate_witness:
  "av_clip_int16_c 40000 = 32767 \<and> av_clip_uint8_c 40000 = 255 \<and> av_clip_intp2_c 40000 9 = 511 \<and>
   av_sat_dadd32_c 40000 INT_MIN = - 2147443648 \<and> av_sat_add64_c INT64_MIN (- 1) = INT64_MIN"
proof -
  have h: "in_s32 40000" "in_s32 INT_MIN" "in_s64 INT64_MIN" "in_s64 (- 1)" "9 \<le> (29 :: nat)"
    by (simp_all add: in_s32_def in_s64_def)
  show ?thesis using clips_saturate[OF h] by (simp add: clip_def)
qed

text \<open>C26: The Unicode conversions. Every value below 2 ^ 31 is written as one to six bytes, as many as its size needs, and
  the decoder reads it back and stops behind it, whatever follows; every code point outside the surrogates is written
  as one or two UTF-16 units and read back.\<close>

theorem utf_roundtrip:
  assumes "0 \<le> v" "v < 2 ^ 31"
  shows "GET_UTF8 next_unit (PUT_UTF8 v @ rest) = (Some v, rest) \<and> length (PUT_UTF8 v) = utf8_length v \<and>
    (v < 0x110000 \<and> \<not> (0xD800 \<le> v \<and> v \<le> 0xDFFF) \<longrightarrow> GET_UTF16 next_unit (PUT_UTF16 v @ rest) = (Some v, rest))"
  using utf8_roundtrip_aux[OF assms] utf16_roundtrip_aux[of v rest] assms(1) by auto

theorem utf_roundtrip_witness:
  "PUT_UTF8 0x20AC = [0xE2, 0x82, 0xAC] \<and> GET_UTF8 next_unit [0xE2, 0x82, 0xAC, 7] = (Some 0x20AC, [7]) \<and>
   GET_UTF16 next_unit (PUT_UTF16 0x1F600 @ [7]) = (Some 0x1F600, [7])"
proof -
  have p: "PUT_UTF8 0x20AC = [0xE2, 0x82, 0xAC]" by code_simp
  have h: "0 \<le> (0x20AC :: int)" "(0x20AC :: int) < 2 ^ 31" "0 \<le> (0x1F600 :: int)" "(0x1F600 :: int) < 2 ^ 31" by simp_all
  show ?thesis using utf_roundtrip[OF h(1,2), of "[7]"] utf_roundtrip[OF h(3,4), of "[7]"] by (simp add: p)
qed

end
