(* ===== verification/Rational.thy ===== *)
theory Rational
  imports IntMath Complex_Main
begin

text \<open>
  AVRational of libavutil/rational.c and rational.h: reduction to bounded numerators and denominators by continued
  fractions, comparison, arithmetic, the search for the nearest fraction and the conversion to a single-precision
  float; with \<open>av_add_stable\<close> of mathematics.c, which needs the multiplication. The conversions from and to
  \<open>double\<close> are left out. \<open>None\<close> stands for a loop that does not end or a read outside an array.
\<close>

section \<open>Operations\<close>

definition av_make_q :: "int \<Rightarrow> int \<Rightarrow> AVRational" where
  "av_make_q n d = \<lparr>num = n, den = d\<rparr>"

definition av_inv_q :: "AVRational \<Rightarrow> AVRational" where
  "av_inv_q q = \<lparr>num = den q, den = num q\<rparr>"

definition av_cmp_q :: "AVRational \<Rightarrow> AVRational \<Rightarrow> int" where
  "av_cmp_q a b =
     (let tmp = s64 (num a * den b - num b * den a) in
      if tmp \<noteq> 0 then s32 (drop_bit 63 (tmp XOR den a XOR den b) OR 1)
      else if den b \<noteq> 0 \<and> den a \<noteq> 0 then 0
      else if num a \<noteq> 0 \<and> num b \<noteq> 0 then drop_bit 31 (num a) - drop_bit 31 (num b)
      else INT_MIN)"

text \<open>The iterations of \<open>av_reduce\<close> from a pair of convergents \<open>a0\<close>, \<open>a1\<close> on; \<open>x\<close>, \<open>num\<close> and \<open>den\<close> are 64 bits
  wide, the convergents are \<open>int\<close>s. The result is \<open>a1\<close> with \<open>den\<close>.\<close>

definition reduce_x :: "int \<Rightarrow> int \<Rightarrow> AVRational \<Rightarrow> AVRational \<Rightarrow> int \<Rightarrow> int" where
  "reduce_x n d a0 a1 mx =
     (let x = u64_of (cdiv n d);
          x = (if num a1 \<noteq> 0 then u64_of (cdiv (s64 (mx - num a0)) (num a1)) else x);
          y = u64_of (cdiv (s64 (mx - den a0)) (den a1))
      in if den a1 \<noteq> 0 then (if x > y then y else x) else x)"

definition reduce_last :: "int \<Rightarrow> int \<Rightarrow> AVRational \<Rightarrow> AVRational \<Rightarrow> int \<Rightarrow> AVRational" where
  "reduce_last n d a0 a1 mx =
     (let x = reduce_x n d a0 a1 mx
      in if u64_of (d * (2 * x * den a1 + den a0)) > u64_of (s64 (n * den a1))
         then \<lparr>num = s32 (x * num a1 + num a0), den = s32 (x * den a1 + den a0)\<rparr> else a1)"

partial_function (option) reduce_loop ::
  "int \<Rightarrow> int \<Rightarrow> AVRational \<Rightarrow> AVRational \<Rightarrow> int \<Rightarrow> (AVRational \<times> int) option" where
  "reduce_loop n d a0 a1 mx =
     (if d = 0 then Some (a1, d)
      else
        (let x = u64_of (cdiv n d);
             next_den = s64 (u64_of (n - d * x));
             a2n = s64 (u64_of (x * num a1 + num a0));
             a2d = s64 (u64_of (x * den a1 + den a0))
         in if a2n > mx \<or> a2d > mx then Some (reduce_last n d a0 a1 mx, d)
            else reduce_loop d next_den a1 \<lparr>num = s32 a2n, den = s32 a2d\<rparr> mx))"

definition FFABS :: "int \<Rightarrow> int" where
  "FFABS a = (if a \<ge> 0 then a else s64 (- a))"

definition av_reduce :: "int \<Rightarrow> int \<Rightarrow> int \<Rightarrow> (AVRational \<times> int) option" where
  "av_reduce n d mx =
     Option.bind (av_gcd (FFABS n) (FFABS d)) (\<lambda>g.
       let sign = ((n < 0) \<noteq> (d < 0));
           (n, d) = (if g \<noteq> 0 then (cdiv (FFABS n) g, cdiv (FFABS d) g) else (n, d))
       in map_option
            (\<lambda>(a1, d). (\<lparr>num = (if sign then - num a1 else num a1), den = den a1\<rparr>, if d = 0 then 1 else 0))
            (if n \<le> mx \<and> d \<le> mx then Some (\<lparr>num = s32 n, den = s32 d\<rparr>, 0)
             else reduce_loop n d \<lparr>num = 0, den = 1\<rparr> \<lparr>num = 1, den = 0\<rparr> mx))"

definition av_mul_q :: "AVRational \<Rightarrow> AVRational \<Rightarrow> AVRational option" where
  "av_mul_q b c = map_option fst (av_reduce (s64 (num b * num c)) (s64 (den b * den c)) INT_MAX)"

definition av_div_q :: "AVRational \<Rightarrow> AVRational \<Rightarrow> AVRational option" where
  "av_div_q b c = av_mul_q b \<lparr>num = den c, den = num c\<rparr>"

definition av_add_q :: "AVRational \<Rightarrow> AVRational \<Rightarrow> AVRational option" where
  "av_add_q b c =
     map_option fst (av_reduce (s64 (num b * den c + num c * den b)) (s64 (den b * den c)) INT_MAX)"

definition av_sub_q :: "AVRational \<Rightarrow> AVRational \<Rightarrow> AVRational option" where
  "av_sub_q b c = av_add_q b \<lparr>num = s32 (- num c), den = den c\<rparr>"

definition av_nearer_q :: "AVRational \<Rightarrow> AVRational \<Rightarrow> AVRational \<Rightarrow> int" where
  "av_nearer_q q q1 q2 =
     (let a = s64 (num q1 * den q2 + num q2 * den q1);
          b = s64 (2 * den q1 * den q2);
          x_up = av_rescale_rnd a (den q) b AV_ROUND_UP;
          x_down = av_rescale_rnd a (den q) b AV_ROUND_DOWN
      in s32 ((of_bool (x_up > num q) - of_bool (x_down < num q)) * av_cmp_q q2 q1))"

text \<open>The list ends with the first fraction whose denominator is 0; without one the code reads past its end.\<close>

fun find_nearest_loop :: "AVRational \<Rightarrow> AVRational list \<Rightarrow> nat \<Rightarrow> AVRational list \<Rightarrow> nat \<Rightarrow> nat option" where
  "find_nearest_loop q q_list i [] nearest = None"
| "find_nearest_loop q q_list i (c # cs) nearest =
     (if den c = 0 then Some nearest
      else find_nearest_loop q q_list (Suc i) cs
             (if av_nearer_q q c (q_list ! nearest) > 0 then i else nearest))"

definition av_find_nearest_q_idx :: "AVRational \<Rightarrow> AVRational list \<Rightarrow> nat option" where
  "av_find_nearest_q_idx q q_list = find_nearest_loop q q_list 0 q_list 0"

definition av_gcd_q :: "AVRational \<Rightarrow> AVRational \<Rightarrow> int \<Rightarrow> AVRational \<Rightarrow> AVRational option" where
  "av_gcd_q a b max_den dflt =
     Option.bind (av_gcd (den a) (den b)) (\<lambda>g.
       let lcm = s64 (cdiv (den a) g * den b) in
       if lcm < max_den then map_option (\<lambda>n. av_make_q (s32 n) (s32 lcm)) (av_gcd (num a) (num b)) else Some dflt)"

section \<open>Conversion to a float\<close>

text \<open>The significand for a shift: both assignments to \<open>n\<close> are this.\<close>

definition intfloat_n :: "AVRational \<Rightarrow> int \<Rightarrow> int" where
  "intfloat_n q shift =
     (if shift \<ge> 0 then av_rescale (num q) (2 ^ nat shift) (den q)
      else av_rescale (num q) 1 (den q * 2 ^ nat (- shift)))"

definition av_q2intfloat :: "AVRational \<Rightarrow> int" where
  "av_q2intfloat q =
     (let q = (if den q < 0 then \<lparr>num = s32 (num q * - 1), den = s32 (den q * - 1)\<rparr> else q);
          sign = (if num q < 0 then 1 else 0);
          q = (if num q < 0 then q\<lparr>num := s32 (num q * - 1)\<rparr> else q)
      in if num q = 0 \<and> den q = 0 then 0xFFC00000
         else if num q = 0 then 0
         else if den q = 0 then 0x7F800000 OR (num q AND 0x80000000)
         else
           (let shift = 23 + ff_log2_c (den q) - ff_log2_c (num q);
                n = intfloat_n q shift;
                shift = shift - (if n \<ge> 2 ^ 24 then 1 else 0);
                shift = shift + (if n < 2 ^ 23 then 1 else 0);
                n = intfloat_n q shift
            in u32_of (sign * 2 ^ 31 OR (150 - shift) * 2 ^ 23 OR (n - 2 ^ 23))))"

section \<open>Addition without drift (mathematics.c)\<close>

text \<open>\<open>None\<close> is a loop that does not end or a division by zero.\<close>

definition av_add_stable :: "AVRational \<Rightarrow> int \<Rightarrow> AVRational \<Rightarrow> int \<Rightarrow> int option" where
  "av_add_stable ts_tb ts inc_tb inc =
     Option.bind (if inc \<noteq> 1 then av_mul_q inc_tb \<lparr>num = s32 inc, den = 1\<rparr> else Some inc_tb) (\<lambda>inc_tb.
       let m = s64 (num inc_tb * den ts_tb); d = s64 (den inc_tb * num ts_tb) in
       if d = 0 then None
       else if Prelude.cmod m d = 0 \<and> ts \<le> s64 (INT64_MAX - cdiv m d) then Some (s64 (ts + cdiv m d))
       else if m < d then Some ts
       else
         (let old = av_rescale_q ts ts_tb inc_tb; old_ts = av_rescale_q old inc_tb ts_tb in
          if old = INT64_MAX \<or> old = AV_NOPTS_VALUE \<or> old_ts = AV_NOPTS_VALUE then Some ts
          else Some (av_sat_add64_c (av_rescale_q (old + 1) inc_tb ts_tb) (s64 (ts - old_ts)))))"

section \<open>Best approximation\<close>

text \<open>\<open>p / q\<close> is reduced, inside the bound, and no fraction inside the bound is nearer to \<open>N / D\<close>.\<close>

definition best_fraction :: "int \<Rightarrow> int \<Rightarrow> int \<Rightarrow> int \<Rightarrow> int \<Rightarrow> bool" where
  "best_fraction N D mx p q \<longleftrightarrow>
     0 \<le> p \<and> p \<le> mx \<and> 0 < q \<and> q \<le> mx \<and> coprime p q \<and>
     (\<forall>p' q'. \<bar>p'\<bar> \<le> mx \<and> 0 < q' \<and> q' \<le> mx \<longrightarrow> \<bar>N * q - p * D\<bar> * q' \<le> \<bar>N * q' - p' * D\<bar> * q)"

text \<open>Two consecutive convergents span all fractions: one with \<open>\<alpha> > 0\<close> and \<open>\<beta> > 0\<close> leaves the bound, the others
  are worse than one of the two. \<open>C\<close> is \<open>a1\<close> and \<open>S\<close> the last semiconvergent inside the bound.\<close>

lemma span_worse:
  fixes qC qS \<alpha> \<beta> :: int
  assumes "0 \<le> qC" "0 \<le> qS" "0 < eC" "0 < eS" "0 < q'" "q' = \<alpha> * qC + \<beta> * qS" "E = \<bar>\<beta> * eS - \<alpha> * eC\<bar>"
    and "\<not> (1 \<le> \<alpha> \<and> 1 \<le> \<beta>)"
  shows "0 < qC \<and> eC * q' \<le> E * qC \<or> 0 < qS \<and> eS * q' \<le> E * qS"
proof -
  have "\<not> (\<alpha> \<le> 0 \<and> \<beta> \<le> 0)"
  proof
    assume "\<alpha> \<le> 0 \<and> \<beta> \<le> 0"
    then have "\<alpha> * qC \<le> 0" "\<beta> * qS \<le> 0" using assms(1,2) by (simp_all add: mult_nonpos_nonneg)
    then show False using assms(5,6) by linarith
  qed
  then consider "1 \<le> \<alpha>" "\<beta> \<le> 0" | "\<alpha> \<le> 0" "1 \<le> \<beta>" using assms(8) by linarith
  then show ?thesis
  proof cases
    case 1
    have n: "\<beta> * qS \<le> 0" "\<beta> * eS \<le> 0" "0 \<le> \<alpha> * eC" using 1 assms by (simp_all add: mult_nonpos_nonneg)
    then have "q' \<le> \<alpha> * qC" "\<alpha> * eC \<le> E" using assms by linarith+
    then have "eC * q' \<le> eC * (\<alpha> * qC)" "\<alpha> * eC * qC \<le> E * qC"
      using assms by (simp_all add: mult_left_mono mult_right_mono)
    then have "eC * q' \<le> E * qC" by (simp only: ac_simps)
    moreover have "0 < qC" using \<open>q' \<le> \<alpha> * qC\<close> assms(1,5) by (cases "qC = 0") auto
    ultimately show ?thesis by simp
  next
    case 2
    have n: "\<alpha> * qC \<le> 0" "\<alpha> * eC \<le> 0" "0 \<le> \<beta> * eS" using 2 assms by (simp_all add: mult_nonpos_nonneg)
    then have "q' \<le> \<beta> * qS" "\<beta> * eS \<le> E" using assms by linarith+
    then have "eS * q' \<le> eS * (\<beta> * qS)" "\<beta> * eS * qS \<le> E * qS"
      using assms by (simp_all add: mult_left_mono mult_right_mono)
    then have "eS * q' \<le> E * qS" by (simp only: ac_simps)
    moreover have "0 < qS" using \<open>q' \<le> \<beta> * qS\<close> assms(2,5) by (cases "qS = 0") auto
    ultimately show ?thesis by simp
  qed
qed

text \<open>If \<open>a\<close> is at least as good as \<open>b\<close>, and \<open>b\<close> at least as good as the third, then so is \<open>a\<close>.\<close>

lemma better_trans:
  fixes qa qb :: int
  assumes "ea * qb \<le> eb * qa" "eb * q' \<le> E * qb" "0 < qb" "0 \<le> qa" "0 < q'"
  shows "ea * q' \<le> E * qa"
proof -
  have "ea * qb * q' \<le> eb * qa * q'" "eb * q' * qa \<le> E * qb * qa"
    using assms by (simp_all add: mult_right_mono)
  then have "ea * q' * qb \<le> E * qa * qb" by (simp add: ac_simps)
  then show ?thesis using assms(3) by simp
qed

text \<open>The state of the loop: \<open>a0 = p0 / q0\<close>, \<open>a1 = p1 / q1\<close>, and what is left of the fraction is \<open>n / d\<close>.\<close>

definition convergents :: "int \<Rightarrow> int \<Rightarrow> int \<Rightarrow> int \<Rightarrow> int \<Rightarrow> int \<Rightarrow> int \<Rightarrow> int \<Rightarrow> bool" where
  "convergents N D n d p0 q0 p1 q1 \<longleftrightarrow>
     0 \<le> p0 \<and> 0 \<le> q0 \<and> 0 \<le> p1 \<and> 0 \<le> q1 \<and> 0 \<le> n \<and> 0 \<le> d \<and> coprime n d \<and>
     N = p1 * n + p0 * d \<and> D = q1 * n + q0 * d \<and> (p1 * q0 - p0 * q1 = 1 \<or> p1 * q0 - p0 * q1 = - 1)"

lemma convergents_num:
  assumes "convergents N D n d p0 q0 p1 q1"
  shows "n \<le> N \<or> n \<le> D"
proof -
  note c = assms[unfolded convergents_def]
  have "1 \<le> p1 \<or> 1 \<le> q1" using c by (cases "p1 = 0"; cases "q1 = 0") auto
  moreover have "1 * n \<le> p1 * n" if "1 \<le> p1" using c that by (intro mult_right_mono) simp_all
  moreover have "1 * n \<le> q1 * n" if "1 \<le> q1" using c that by (intro mult_right_mono) simp_all
  moreover have "0 \<le> p0 * d" "0 \<le> q0 * d" using c by simp_all
  ultimately show ?thesis using c by linarith
qed

lemma last_better:
  fixes N D :: int
  assumes "convergents N D n d p0 q0 p1 q1" "0 < d" "0 \<le> x" "x * d + d \<le> n"
    and "mx < (x + 1) * p1 + p0 \<or> mx < (x + 1) * q1 + q0" "0 \<le> p'" "p' \<le> mx" "0 < q'" "q' \<le> mx"
    and "(p, q) = (if d * (2 * x * q1 + q0) > n * q1 then (x * p1 + p0, x * q1 + q0) else (p1, q1))"
  shows "\<bar>N * q - p * D\<bar> * q' \<le> \<bar>N * q' - p' * D\<bar> * q"
proof -
  define s where "s = p1 * q0 - p0 * q1"
  define pS where "pS = x * p1 + p0"
  define qS where "qS = x * q1 + q0"
  define eS where "eS = n - x * d"
  define \<alpha> where "\<alpha> = s * (p' * qS - pS * q')"
  define \<beta> where "\<beta> = s * (p1 * q' - q1 * p')"
  have c: "0 \<le> p0" "0 \<le> q0" "0 \<le> p1" "0 \<le> q1" "N = p1 * n + p0 * d" "D = q1 * n + q0 * d" "s = 1 \<or> s = - 1"
    using assms(1) by (simp_all add: convergents_def s_def)
  have nn: "0 \<le> pS" "0 \<le> qS" "0 < eS" using c assms(2-4) by (simp_all add: pS_def qS_def eS_def)
  have ss: "s * s = 1" using c(7) by auto
  have det: "p1 * qS - pS * q1 = s" by (simp add: pS_def qS_def s_def algebra_simps)
  have pq: "p' = \<alpha> * p1 + \<beta> * pS" "q' = \<alpha> * q1 + \<beta> * qS"
  proof -
    have "\<alpha> * p1 + \<beta> * pS = s * (p1 * qS - pS * q1) * p'" "\<alpha> * q1 + \<beta> * qS = s * (p1 * qS - pS * q1) * q'"
      by (simp_all add: \<alpha>_def \<beta>_def algebra_simps)
    then show "p' = \<alpha> * p1 + \<beta> * pS" "q' = \<alpha> * q1 + \<beta> * qS" by (simp_all add: det ss)
  qed
  have eC: "N * q1 - p1 * D = s * - d" "N * qS - pS * D = s * eS"
    unfolding c(5,6) by (simp_all add: s_def pS_def qS_def eS_def algebra_simps)
  have "N * q' - p' * D = \<alpha> * (N * q1 - p1 * D) + \<beta> * (N * qS - pS * D)"
    unfolding pq by (simp add: algebra_simps)
  also have "\<dots> = s * (\<beta> * eS - \<alpha> * d)" unfolding eC by (simp add: algebra_simps)
  finally have E: "\<bar>N * q' - p' * D\<bar> = \<bar>\<beta> * eS - \<alpha> * d\<bar>" using c(7) by (auto simp: abs_mult)
  have "\<not> (1 \<le> \<alpha> \<and> 1 \<le> \<beta>)"
  proof
    assume ab: "1 \<le> \<alpha> \<and> 1 \<le> \<beta>"
    then have "1 * p1 \<le> \<alpha> * p1" "1 * pS \<le> \<beta> * pS" "1 * q1 \<le> \<alpha> * q1" "1 * qS \<le> \<beta> * qS"
      using ab c(3,4) nn(1,2) by (blast intro: mult_right_mono)+
    then have "(x + 1) * p1 + p0 \<le> p'" "(x + 1) * q1 + q0 \<le> q'"
      unfolding pq by (simp_all add: pS_def qS_def algebra_simps)
    then show False using assms(5-9) by linarith
  qed
  from span_worse[OF c(4) nn(2) assms(2) nn(3) assms(8) pq(2) E this]
  have w: "0 < q1 \<and> d * q' \<le> \<bar>N * q' - p' * D\<bar> * q1 \<or> 0 < qS \<and> eS * q' \<le> \<bar>N * q' - p' * D\<bar> * qS" by simp
  have t: "d * (2 * x * q1 + q0) > n * q1 \<longleftrightarrow> eS * q1 < d * qS" by (simp add: eS_def qS_def algebra_simps)
  have abs: "\<bar>N * q1 - p1 * D\<bar> = d" "\<bar>N * qS - pS * D\<bar> = eS"
    unfolding eC using c(7) assms(2) nn(3) by (auto simp: abs_mult)
  show ?thesis
  proof (cases "eS * q1 < d * qS")
    case True
    then have "p = pS" "q = qS" using assms(10) t by (simp_all add: pS_def qS_def)
    then show ?thesis using w better_trans[of eS q1 d qS q'] True assms(8) nn(2) abs by auto
  next
    case False
    then have "p = p1" "q = q1" using assms(10) t by simp_all
    then show ?thesis using w better_trans[of d qS eS q1 q'] False assms(8) c(4) abs by auto
  qed
qed

lemma coprime_det:
  assumes "a * d - b * c = 1 \<or> a * d - b * c = (- 1 :: int)"
  shows "coprime a c"
proof (rule coprimeI)
  fix k assume "k dvd a" "k dvd c"
  then have "k dvd a * d - b * c" by simp
  then show "is_unit k" using assms by auto
qed

lemma last_best:
  assumes "convergents N D n d p0 q0 p1 q1" "0 < d" "0 \<le> x" "x * d + d \<le> n" "p1 \<le> mx" "q1 \<le> mx"
    and "x * p1 + p0 \<le> mx" "x * q1 + q0 \<le> mx" "mx < (x + 1) * p1 + p0 \<or> mx < (x + 1) * q1 + q0"
    and r: "(p, q) = (if d * (2 * x * q1 + q0) > n * q1 then (x * p1 + p0, x * q1 + q0) else (p1, q1))"
  shows "best_fraction N D mx p q \<and> N * q \<noteq> p * D"
proof -
  have c: "0 \<le> p0" "0 \<le> q0" "0 \<le> p1" "0 \<le> q1" "N = p1 * n + p0 * d" "D = q1 * n + q0 * d" "0 \<le> n"
      "p1 * q0 - p0 * q1 = 1 \<or> p1 * q0 - p0 * q1 = - 1"
    using assms(1) by (simp_all add: convergents_def)
  have xn: "0 \<le> x * p1" "0 \<le> x * q1" "0 < n - x * d" using c assms(2-4) by simp_all
  have t: "d * (2 * x * q1 + q0) > n * q1 \<longleftrightarrow> (n - x * d) * q1 < d * (x * q1 + q0)" by (simp add: algebra_simps)
  have q0: "0 < q"
  proof (cases "(n - x * d) * q1 < d * (x * q1 + q0)")
    case True
    have "0 \<le> (n - x * d) * q1" using xn c(4) by simp
    then have "0 < d * (x * q1 + q0)" using True by linarith
    then have "0 < x * q1 + q0" using assms(2) by (simp add: zero_less_mult_iff)
    then show ?thesis using True r t by simp
  next
    case False
    have "q1 \<noteq> 0"
    proof
      assume "q1 = 0"
      then have "d * q0 \<le> 0" using False by simp
      then have "q0 = 0" using assms(2) c(2) by (simp add: mult_le_0_iff)
      then show False using c(8) \<open>q1 = 0\<close> by simp
    qed
    then show ?thesis using False r t c(4) by simp
  qed
  have cop: "coprime p q"
  proof (cases "(n - x * d) * q1 < d * (x * q1 + q0)")
    case True
    then have "p = x * p1 + p0" "q = x * q1 + q0" using r t by simp_all
    then have "p * q1 - p1 * q = - (p1 * q0 - p0 * q1)" by (simp add: algebra_simps)
    then show ?thesis using coprime_det[of p q1 p1 q] c(8) by auto
  next
    case False
    then show ?thesis using r t coprime_det[of p1 q0 p0 q1] c(8) by auto
  qed
  have neq: "N * q \<noteq> p * D"
  proof -
    have "N * q1 - p1 * D = (p1 * q0 - p0 * q1) * - d" "N * (x * q1 + q0) - (x * p1 + p0) * D = (p1 * q0 - p0 * q1) * (n - x * d)"
      unfolding c(5,6) by (simp_all add: algebra_simps)
    then show ?thesis using r c(8) assms(2) xn(3) by (auto split: if_splits)
  qed
  have "\<bar>N * q - p * D\<bar> * q' \<le> \<bar>N * q' - p' * D\<bar> * q" if "\<bar>p'\<bar> \<le> mx" "0 < q'" "q' \<le> mx" for p' q'
  proof (cases "0 \<le> p'")
    case True
    then show ?thesis using last_better[OF assms(1-4,9) _ _ that(2,3) r] that(1) by simp
  next
    case False
    have ND: "0 \<le> N" "0 \<le> D" using c assms(2) by simp_all
    then have "\<bar>N * q' - 0 * D\<bar> \<le> \<bar>N * q' - p' * D\<bar>"
      using False that(2) mult_nonpos_nonneg[of p' D] by simp
    then have "\<bar>N * q' - 0 * D\<bar> * q \<le> \<bar>N * q' - p' * D\<bar> * q" using q0 by (intro mult_right_mono) simp_all
    then show ?thesis using last_better[OF assms(1-4,9) _ _ that(2,3) r, of 0] that by linarith
  qed
  then show ?thesis
    unfolding best_fraction_def using q0 cop neq r assms(5-8) c xn by (auto split: if_splits)
qed

lemma div_floor:
  assumes "0 < (b :: int)"
  shows "a div b * b \<le> a" "a < (a div b + 1) * b"
proof -
  have "a = a div b * b + a mod b" by simp
  then show "a div b * b \<le> a" "a < (a div b + 1) * b"
    using pos_mod_bound[OF assms, of a] pos_mod_sign[OF assms, of a] unfolding distrib_right by linarith+
qed

text \<open>The last round: \<open>x\<close> is the greatest number for which the semiconvergent stays inside the bound.\<close>

lemma reduce_last_correct:
  assumes "convergents N D n d p0 q0 p1 q1" "0 < d" "N \<le> INT64_MAX" "D \<le> INT64_MAX" "mx \<le> INT_MAX"
    and "p0 \<le> mx" "q0 \<le> mx" "p1 \<le> mx" "q1 \<le> mx"
    and "mx < n div d * p1 + p0 \<or> mx < n div d * q1 + q0"
  shows "\<exists>x. 0 \<le> x \<and> x * d + d \<le> n \<and> x * p1 + p0 \<le> mx \<and> x * q1 + q0 \<le> mx \<and>
    (mx < (x + 1) * p1 + p0 \<or> mx < (x + 1) * q1 + q0) \<and>
    reduce_last n d \<lparr>num = p0, den = q0\<rparr> \<lparr>num = p1, den = q1\<rparr> mx =
      (if d * (2 * x * q1 + q0) > n * q1 then \<lparr>num = x * p1 + p0, den = x * q1 + q0\<rparr> else \<lparr>num = p1, den = q1\<rparr>)"
proof -
  have c: "0 \<le> p0" "0 \<le> q0" "0 \<le> p1" "0 \<le> q1" "N = p1 * n + p0 * d" "D = q1 * n + q0 * d" "0 \<le> n"
      "p1 * q0 - p0 * q1 = 1 \<or> p1 * q0 - p0 * q1 = - 1"
    using assms(1) by (simp_all add: convergents_def)
  define X where "X = n div d"
  define x1 where "x1 = (if p1 \<noteq> 0 then (mx - p0) div p1 else X)"
  define x where "x = (if q1 \<noteq> 0 then (if x1 > (mx - q0) div q1 then (mx - q0) div q1 else x1) else x1)"
  have X: "0 \<le> X" "X * d \<le> n" using c(7) assms(2) by (simp_all add: X_def pos_imp_zdiv_nonneg_iff flip: minus_mod_eq_div_mult)
  have dv: "0 < b \<Longrightarrow> b \<noteq> 0" "0 < b \<Longrightarrow> 0 \<le> a \<Longrightarrow> 0 \<le> a div b" "0 < b \<Longrightarrow> a div b * b \<le> a" "0 < b \<Longrightarrow> a < (a div b + 1) * b" for a b :: int
    using div_floor[of b a] by (simp_all add: pos_imp_zdiv_nonneg_iff)
  have P: "p1 \<noteq> 0 \<Longrightarrow> x \<le> (mx - p0) div p1" "q1 \<noteq> 0 \<Longrightarrow> x \<le> (mx - q0) div q1" by (simp_all add: x_def x1_def)
  have x0: "0 \<le> x" using X c assms dv(2) by (auto simp: x_def x1_def)
  have pmx: "x * p1 + p0 \<le> mx"
  proof (cases "p1 = 0")
    case False
    then have "x * p1 \<le> (mx - p0) div p1 * p1" using P(1) c(3) by (intro mult_right_mono) simp_all
    then show ?thesis using dv(3)[of p1 "mx - p0"] c(3) False by linarith
  qed (use assms in simp)
  have qmx: "x * q1 + q0 \<le> mx"
  proof (cases "q1 = 0")
    case False
    then have "x * q1 \<le> (mx - q0) div q1 * q1" using P(2) c(4) by (intro mult_right_mono) simp_all
    then show ?thesis using dv(3)[of q1 "mx - q0"] c(4) False by linarith
  qed (use assms in simp)
  have lt: "x < X"
  proof (rule ccontr)
    assume "\<not> x < X"
    then have "X * p1 \<le> x * p1" "X * q1 \<le> x * q1" using c(3,4) by (simp_all add: mult_right_mono)
    then show False using assms(10) pmx qmx by (simp add: X_def)
  qed
  have top: "mx < (x + 1) * p1 + p0 \<or> mx < (x + 1) * q1 + q0"
    using lt c(3,4) dv(4)[of p1 "mx - p0"] dv(4)[of q1 "mx - q0"] by (auto simp: x_def x1_def split: if_splits)
  have xd: "x * d + d \<le> n" using X(2) mult_right_mono[of "x + 1" X d] lt assms(2) by (simp add: algebra_simps)
  have "d * (2 * x * q1 + q0) \<le> 2 * D"
  proof -
    have "x * d * q1 \<le> n * q1" using xd assms(2) c(4) by (intro mult_right_mono) simp_all
    moreover have "0 \<le> q0 * d" "0 \<le> n * q1" using c assms(2) by simp_all
    ultimately show ?thesis unfolding c(6) by (simp add: algebra_simps)
  qed
  moreover have "n * q1 \<le> D" "0 \<le> n * q1" "0 \<le> d * (2 * x * q1 + q0)"
    using c assms(2) x0 by (simp_all add: mult.commute)
  ultimately have cmp: "u64_of (d * (2 * x * q1 + q0)) = d * (2 * x * q1 + q0)" "u64_of (s64 (n * q1)) = n * q1"
    using assms(4) by (simp_all add: u64_of_id s64_id in_s64_def)
  have "n \<le> INT64_MAX"
    using convergents_num[OF assms(1)] assms(3,4) by linarith
  moreover have "X \<le> n" using X mult_left_mono[of 1 d X] assms(2) by linarith
  ultimately have uX: "u64_of (cdiv n d) = X" using X(1) c(7) assms(2) by (simp add: u64_of_id X_def)
  have sm: "s64 (mx - a) = mx - a" if "0 \<le> a" "a \<le> mx" for a
    using that assms(5) by (intro s64_id) (simp add: in_s64_def)
  have ud: "u64_of (cdiv (mx - a) b) = (mx - a) div b" if "0 \<le> a" "a \<le> mx" "0 \<le> b" "b \<noteq> 0" for a b
  proof -
    have "(mx - a) div b \<le> mx - a" using dv(3)[of b "mx - a"] dv(2)[of b "mx - a"] mult_left_mono[of 1 b "(mx - a) div b"] that by linarith
    then show ?thesis using that dv(2)[of b "mx - a"] assms(5) by (simp add: u64_of_id)
  qed
  have rx: "reduce_x n d \<lparr>num = p0, den = q0\<rparr> \<lparr>num = p1, den = q1\<rparr> mx = x"
    using sm[of p0] sm[of q0] ud[of p0 p1] ud[of q0 q1] c assms uX by (simp add: reduce_x_def x_def x1_def Let_def)
  have "0 \<le> x * p1" "0 \<le> x * q1" using x0 c(3,4) by simp_all
  then have "s32 (x * p1 + p0) = x * p1 + p0" "s32 (x * q1 + q0) = x * q1 + q0"
    using pmx qmx c(1,2) assms(5) by (auto intro!: s32_id simp: in_s32_def)
  then have "reduce_last n d \<lparr>num = p0, den = q0\<rparr> \<lparr>num = p1, den = q1\<rparr> mx =
      (if d * (2 * x * q1 + q0) > n * q1 then \<lparr>num = x * p1 + p0, den = x * q1 + q0\<rparr> else \<lparr>num = p1, den = q1\<rparr>)"
    by (simp add: reduce_last_def rx cmp)
  then show ?thesis using x0 xd pmx qmx top by blast
qed

text \<open>The loop, from any pair of convergents inside the bound, for a fraction that is not inside it.\<close>

lemma reduce_loop_best:
  assumes "convergents N D n d p0 q0 p1 q1" "N \<le> INT64_MAX" "D \<le> INT64_MAX" "mx \<le> INT_MAX"
    and "p0 \<le> mx" "q0 \<le> mx" "p1 \<le> mx" "q1 \<le> mx" "mx < N \<or> mx < D"
  shows "\<exists>p q d'. reduce_loop n d \<lparr>num = p0, den = q0\<rparr> \<lparr>num = p1, den = q1\<rparr> mx = Some (\<lparr>num = p, den = q\<rparr>, d') \<and>
    d' \<noteq> 0 \<and> best_fraction N D mx p q \<and> N * q \<noteq> p * D"
  using assms
proof (induction "nat d" arbitrary: n d p0 q0 p1 q1 rule: less_induct)
  case less
  note c = less.prems(1)[unfolded convergents_def]
  have "d \<noteq> 0"
  proof
    assume "d = 0"
    then have "n = 1" using c by auto
    then show False using \<open>d = 0\<close> c less.prems(7-9) by auto
  qed
  then have d: "0 < d" using c by simp
  define x where "x = n div d"
  have x: "0 \<le> x" "x * d \<le> n" "n - d * x = n mod d" "1 * x \<le> d * x"
    using d c mult_right_mono[of 1 d "n div d"]
    by (simp_all add: x_def pos_imp_zdiv_nonneg_iff minus_mult_div_eq_mod flip: minus_mod_eq_div_mult)
  define a where "a = x * p1 + p0"
  define b where "b = x * q1 + q0"
  have le: "x * u + v \<le> u * n + v * d" if "0 \<le> u" "0 \<le> v" for u v
  proof -
    have "u * x \<le> u * n" "v * 1 \<le> v * d" using that x d by (intro mult_left_mono; simp add: mult.commute)+
    then show ?thesis by (simp add: mult.commute)
  qed
  have ab: "0 \<le> a" "a \<le> N" "0 \<le> b" "b \<le> D" using c x(1) le[of p1 p0] le[of q1 q0] by (simp_all add: a_def b_def)
  have n: "n \<le> INT64_MAX"
    using convergents_num[OF less.prems(1)] less.prems(2,3) by linarith
  have "0 \<le> n mod d" "n mod d < d" "d * x \<ge> 0" using d x(1) by simp_all
  then have u: "u64_of (cdiv n d) = x" "s64 (u64_of (n - d * x)) = n mod d" "s64 (u64_of a) = a" "s64 (u64_of b) = b"
    using d c n x ab less.prems(2,3) by (simp_all add: u64_of_id s64_id in_s64_def mult.commute flip: x_def)
  have step: "reduce_loop n d \<lparr>num = p0, den = q0\<rparr> \<lparr>num = p1, den = q1\<rparr> mx =
      (if a > mx \<or> b > mx then Some (reduce_last n d \<lparr>num = p0, den = q0\<rparr> \<lparr>num = p1, den = q1\<rparr> mx, d)
       else reduce_loop d (n mod d) \<lparr>num = p1, den = q1\<rparr> \<lparr>num = s32 a, den = s32 b\<rparr> mx)"
    using \<open>d \<noteq> 0\<close> by (subst reduce_loop.simps) (simp add: u Let_def flip: a_def b_def)
  show ?case
  proof (cases "a > mx \<or> b > mx")
    case True
    then obtain x where x: "0 \<le> x" "x * d + d \<le> n" "x * p1 + p0 \<le> mx" "x * q1 + q0 \<le> mx"
        "mx < (x + 1) * p1 + p0 \<or> mx < (x + 1) * q1 + q0"
        "reduce_last n d \<lparr>num = p0, den = q0\<rparr> \<lparr>num = p1, den = q1\<rparr> mx =
          (if d * (2 * x * q1 + q0) > n * q1 then \<lparr>num = x * p1 + p0, den = x * q1 + q0\<rparr> else \<lparr>num = p1, den = q1\<rparr>)"
      using reduce_last_correct[OF less.prems(1) d less.prems(2-8)] by (auto simp: a_def b_def x_def)
    define p q where "p = (if d * (2 * x * q1 + q0) > n * q1 then x * p1 + p0 else p1)"
      and "q = (if d * (2 * x * q1 + q0) > n * q1 then x * q1 + q0 else q1)"
    have "best_fraction N D mx p q \<and> N * q \<noteq> p * D"
      by (rule last_best[OF less.prems(1) d x(1,2) less.prems(7,8) x(3-5)]) (simp add: p_def q_def)
    moreover have "reduce_loop n d \<lparr>num = p0, den = q0\<rparr> \<lparr>num = p1, den = q1\<rparr> mx = Some (\<lparr>num = p, den = q\<rparr>, d)"
      unfolding step using True x(6) by (simp add: p_def q_def)
    ultimately show ?thesis using \<open>d \<noteq> 0\<close> by blast
  next
    case False
    have cop: "coprime d (n mod d)" using c \<open>d \<noteq> 0\<close> by (simp add: coprime_mod_right_iff coprime_commute)
    have nd: "n = x * d + n mod d" by (simp add: x_def)
    have "u * n + v * d = (x * u + v) * d + u * (n mod d)" for u v
      using arg_cong[OF nd, of "(*) u"] by (simp add: algebra_simps)
    then have "N = a * d + p1 * (n mod d)" "D = b * d + q1 * (n mod d)" using c by (simp_all add: a_def b_def)
    moreover have "a * q1 - p1 * b = - (p1 * q0 - p0 * q1)" by (simp add: a_def b_def algebra_simps)
    ultimately have "convergents N D d (n mod d) p1 q1 a b"
      unfolding convergents_def using c ab(1,3) d cop by auto
    moreover have "s32 a = a" "s32 b = b" using False ab less.prems(4) by (simp_all add: s32_id in_s32_def)
    moreover have "nat (n mod d) < nat d" using d by simp
    ultimately show ?thesis
      unfolding step using less.hyps[of "n mod d" d p1 q1 a b] False less.prems by simp
  qed
qed

lemma best_fraction_exact:
  assumes "best_fraction N D mx p q" "0 < D" "\<bar>p'\<bar> \<le> mx" "0 < q'" "q' \<le> mx" "N * q' = p' * D"
  shows "N * q = p * D"
proof -
  have "\<bar>N * q - p * D\<bar> * q' \<le> \<bar>N * q' - p' * D\<bar> * q" using assms(1,3-5) by (simp add: best_fraction_def)
  then have "\<bar>N * q - p * D\<bar> * q' \<le> 0" by (simp add: assms(6))
  then show ?thesis using assms(4) by (simp add: mult_le_0_iff)
qed

text \<open>The whole function on the absolute values, reduced by their greatest common divisor.\<close>

lemma reduce_positive:
  assumes "0 \<le> N" "N \<le> INT64_MAX" "0 < D" "D \<le> INT64_MAX" "coprime N D" "0 < mx" "mx \<le> INT_MAX"
  shows "\<exists>p q d'. (if N \<le> mx \<and> D \<le> mx then Some (\<lparr>num = s32 N, den = s32 D\<rparr>, 0)
      else reduce_loop N D \<lparr>num = 0, den = 1\<rparr> \<lparr>num = 1, den = 0\<rparr> mx) = Some (\<lparr>num = p, den = q\<rparr>, d') \<and>
    best_fraction N D mx p q \<and> (d' = 0 \<longleftrightarrow> N * q = p * D)"
proof (cases "N \<le> mx \<and> D \<le> mx")
  case True
  then have "s32 N = N" "s32 D = D" using assms by (simp_all add: s32_id in_s32_def)
  then show ?thesis using True assms by (auto simp: best_fraction_def)
next
  case False
  then have "\<exists>p q d'. reduce_loop N D \<lparr>num = 0, den = 1\<rparr> \<lparr>num = 1, den = 0\<rparr> mx = Some (\<lparr>num = p, den = q\<rparr>, d') \<and>
      d' \<noteq> 0 \<and> best_fraction N D mx p q \<and> N * q \<noteq> p * D"
    using assms by (intro reduce_loop_best) (auto simp: convergents_def)
  then show ?thesis using False by auto
qed

text \<open>Fractions as rational numbers.\<close>

definition q_rat :: "AVRational \<Rightarrow> rat" where
  "q_rat q = of_int (num q) / of_int (den q)"

definition q_within :: "int \<Rightarrow> AVRational \<Rightarrow> bool" where
  "q_within mx q \<longleftrightarrow> \<bar>num q\<bar> \<le> mx \<and> 0 < den q \<and> den q \<le> mx"

definition nearest_q :: "int \<Rightarrow> rat \<Rightarrow> AVRational \<Rightarrow> bool" where
  "nearest_q mx x r \<longleftrightarrow> q_within mx r \<and> coprime (num r) (den r) \<and> (\<forall>c. q_within mx c \<longrightarrow> \<bar>q_rat r - x\<bar> \<le> \<bar>q_rat c - x\<bar>)"

lemma rat_distance:
  assumes "0 < D" "0 < q"
  shows "\<bar>of_int p / of_int q - of_int N / of_int D\<bar> = (of_int \<bar>N * q - p * D\<bar> / (of_int q * of_int D) :: rat)"
proof -
  have "of_int p / of_int q - of_int N / of_int D = (of_int (p * D - N * q) / (of_int q * of_int D) :: rat)"
    using assms by (simp add: field_simps)
  then show ?thesis using assms by (simp add: abs_divide abs_mult abs_minus_commute)
qed

lemma best_fraction_nearest:
  assumes "best_fraction N D mx p q" "0 < D" "s = 1 \<or> s = - 1"
  shows "nearest_q mx (of_int (s * N) / of_int D) \<lparr>num = s * p, den = q\<rparr>"
proof -
  have q: "0 < q" using assms(1) by (simp add: best_fraction_def)
  have a: "\<bar>s * x\<bar> = \<bar>x\<bar>" "s * (s * x) = x" for x :: int using assms(3) by (auto simp: abs_mult)
  have "\<bar>of_int (s * p) / of_int q - of_int (s * N) / of_int D\<bar> \<le> \<bar>of_int p' / of_int q' - of_int (s * N) / of_int D :: rat\<bar>"
    if "\<bar>p'\<bar> \<le> mx" "0 < q'" "q' \<le> mx" for p' q'
  proof -
    have 1: "\<bar>N * q - p * D\<bar> * q' \<le> \<bar>N * q' - (s * p') * D\<bar> * q"
      using assms(1) that by (simp add: best_fraction_def a)
    have "\<bar>s * N * q - s * p * D\<bar> = \<bar>N * q - p * D\<bar>" "\<bar>s * N * q' - p' * D\<bar> = \<bar>N * q' - (s * p') * D\<bar>"
      using assms(3) by (elim disjE; simp; linarith)+
    then have "\<bar>s * N * q - s * p * D\<bar> * q' \<le> \<bar>s * N * q' - p' * D\<bar> * q" using 1 by simp
    then have "(of_int (\<bar>s * N * q - s * p * D\<bar> * q') :: rat) \<le> of_int (\<bar>s * N * q' - p' * D\<bar> * q)"
      by (simp only: of_int_le_iff)
    then show ?thesis
      unfolding rat_distance[OF assms(2) q] rat_distance[OF assms(2) that(2)]
      using q that(2) assms(2) by (simp add: divide_simps mult.commute mult.left_commute)
  qed
  then show ?thesis
    using assms(1) a(1)[of p] assms(3) by (auto simp: nearest_q_def q_within_def q_rat_def best_fraction_def)
qed

text \<open>The whole function, for both signs.\<close>

lemma reduce_correct:
  assumes "- INT64_MAX \<le> n" "n \<le> INT64_MAX" "- INT64_MAX \<le> d" "d \<le> INT64_MAX" "d \<noteq> 0" "0 < mx" "mx \<le> INT_MAX"
  shows "\<exists>r i. av_reduce n d mx = Some (r, i) \<and> nearest_q mx (of_int n / of_int d) r \<and>
    i = of_bool (q_rat r = of_int n / of_int d)"
proof -
  define g where "g = gcd \<bar>n\<bar> \<bar>d\<bar>"
  define N where "N = \<bar>n\<bar> div g"
  define D where "D = \<bar>d\<bar> div g"
  define s :: int where "s = (if (n < 0) \<noteq> (d < 0) then - 1 else 1)"
  have g: "0 < g" "\<bar>n\<bar> = N * g" "\<bar>d\<bar> = D * g" using assms(5) by (simp_all add: g_def N_def D_def)
  have F: "FFABS n = \<bar>n\<bar>" "FFABS d = \<bar>d\<bar>" using assms(1-4) by (simp_all add: FFABS_def s64_id in_s64_def)
  have abs: "in_s64 \<bar>n\<bar>" "in_s64 \<bar>d\<bar>" unfolding in_s64_def using assms(1-4) by linarith+
  have G: "av_gcd \<bar>n\<bar> \<bar>d\<bar> = Some g"
  proof (cases "n = 0")
    case False
    then show ?thesis using assms(5) av_gcd_nonzero[OF abs] abs_ge_zero[of n] by (simp add: g_def del: abs_ge_zero)
  qed (simp add: av_gcd_def g_def)
  have N: "0 \<le> N" "N \<le> INT64_MAX" "0 < D" "D \<le> INT64_MAX" "coprime N D"
  proof -
    have "0 < N * g \<or> N = 0" "0 < D * g" using g(2,3) assms(5) by (auto simp: N_def)
    then show "0 \<le> N" "0 < D" using g(1) by (auto simp: zero_less_mult_iff)
    then have "N * 1 \<le> N * g" "D * 1 \<le> D * g" using g(1) mult_left_mono[of 1 g N] mult_left_mono[of 1 g D] by simp_all
    then show "N \<le> INT64_MAX" "D \<le> INT64_MAX" using g(2,3) assms by linarith+
    show "coprime N D" unfolding N_def D_def g_def using assms(5) by (intro div_gcd_coprime) auto
  qed
  obtain p q d' where r: "(if N \<le> mx \<and> D \<le> mx then Some (\<lparr>num = s32 N, den = s32 D\<rparr>, 0)
      else reduce_loop N D \<lparr>num = 0, den = 1\<rparr> \<lparr>num = 1, den = 0\<rparr> mx) = Some (\<lparr>num = p, den = q\<rparr>, d')"
      and b: "best_fraction N D mx p q" and d': "d' = 0 \<longleftrightarrow> N * q = p * D"
    using reduce_positive[OF N assms(6,7)] by blast
  have "av_reduce n d mx = Some (\<lparr>num = s * p, den = q\<rparr>, if d' = 0 then 1 else 0)"
    using r g(1) N(1,3) by (simp add: av_reduce_def F G s_def flip: N_def D_def)
  moreover have x: "of_int n / of_int d = (of_int (s * N) / of_int D :: rat)"
  proof -
    have "n = (if n < 0 then - (N * g) else N * g)" "d = (if d < 0 then - (D * g) else D * g)" using g(2,3) by (auto simp: abs_if split: if_splits)
    then have "n * D = s * N * d" by (auto simp: s_def split: if_splits)
    then have "(of_int (n * D) :: rat) = of_int (s * N * d)" by (simp only:)
    then show ?thesis using assms(5) N(3) by (simp add: field_simps)
  qed
  moreover have "nearest_q mx (of_int (s * N) / of_int D) \<lparr>num = s * p, den = q\<rparr>"
    using best_fraction_nearest[OF b N(3)] by (simp add: s_def)
  moreover have "d' = 0 \<longleftrightarrow> q_rat \<lparr>num = s * p, den = q\<rparr> = of_int (s * N) / of_int D"
  proof -
    have q: "0 < q" using b by (simp add: best_fraction_def)
    have "q_rat \<lparr>num = s * p, den = q\<rparr> = of_int (s * N) / of_int D \<longleftrightarrow> (of_int (s * p * D) :: rat) = of_int (s * N * q)"
      using q N(3) by (simp add: q_rat_def field_simps)
    also have "\<dots> \<longleftrightarrow> N * q = p * D" unfolding of_int_eq_iff by (auto simp: s_def)
    finally show ?thesis using d' by simp
  qed
  ultimately show ?thesis by auto
qed

section \<open>Arithmetic\<close>

abbreviation q_valid :: "AVRational \<Rightarrow> bool" where
  "q_valid \<equiv> q_within INT_MAX"

lemma in_s64_INT64: "- INT64_MAX \<le> x \<Longrightarrow> x \<le> INT64_MAX \<Longrightarrow> s64 x = x"
  by (simp add: s64_id in_s64_def)

lemma q_products:
  assumes "\<bar>a\<bar> \<le> INT_MAX" "\<bar>b\<bar> \<le> INT_MAX"
  shows "\<bar>a * b\<bar> \<le> INT_MAX * INT_MAX"
  using assms unfolding abs_mult by (intro mult_mono) simp_all

text \<open>A nonzero denominator of either sign: a quotient has the numerator of its divisor there.\<close>

lemma mul_q_correct:
  assumes "\<bar>num b\<bar> \<le> INT_MAX" "\<bar>den b\<bar> \<le> INT_MAX" "\<bar>num c\<bar> \<le> INT_MAX" "\<bar>den c\<bar> \<le> INT_MAX" "den b \<noteq> 0" "den c \<noteq> 0"
  shows "\<exists>r. av_mul_q b c = Some r \<and> nearest_q INT_MAX (q_rat b * q_rat c) r"
proof -
  have p: "\<bar>num b * num c\<bar> \<le> INT64_MAX" "\<bar>den b * den c\<bar> \<le> INT64_MAX"
    using q_products[of "num b" "num c"] q_products[of "den b" "den c"] assms by simp_all
  then have s: "s64 (num b * num c) = num b * num c" "s64 (den b * den c) = den b * den c"
    by (auto intro!: in_s64_INT64)
  have "- INT64_MAX \<le> num b * num c" "num b * num c \<le> INT64_MAX" "- INT64_MAX \<le> den b * den c" "den b * den c \<le> INT64_MAX"
    using p by linarith+
  then obtain r i where "av_reduce (num b * num c) (den b * den c) INT_MAX = Some (r, i)"
      "nearest_q INT_MAX (of_int (num b * num c) / of_int (den b * den c)) r"
    using reduce_correct[of "num b * num c" "den b * den c" INT_MAX] assms by auto
  then show ?thesis by (auto simp: av_mul_q_def s q_rat_def)
qed

lemma add_q_correct:
  assumes "q_valid b" "q_valid c"
  shows "\<exists>r. av_add_q b c = Some r \<and> nearest_q INT_MAX (q_rat b + q_rat c) r"
proof -
  have v: "\<bar>num b\<bar> \<le> INT_MAX" "\<bar>den b\<bar> \<le> INT_MAX" "\<bar>num c\<bar> \<le> INT_MAX" "\<bar>den c\<bar> \<le> INT_MAX" "0 < den b" "0 < den c"
    using assms by (simp_all add: q_within_def)
  then have p: "\<bar>num b * den c\<bar> \<le> INT_MAX * INT_MAX" "\<bar>num c * den b\<bar> \<le> INT_MAX * INT_MAX" "\<bar>den b * den c\<bar> \<le> INT_MAX * INT_MAX"
    by (intro q_products; simp)+
  then have le: "- INT64_MAX \<le> num b * den c + num c * den b" "num b * den c + num c * den b \<le> INT64_MAX"
    "- INT64_MAX \<le> den b * den c" "den b * den c \<le> INT64_MAX"
    by linarith+
  then have s: "s64 (num b * den c + num c * den b) = num b * den c + num c * den b" "s64 (den b * den c) = den b * den c"
    by (simp_all add: in_s64_INT64)
  obtain r i where "av_reduce (num b * den c + num c * den b) (den b * den c) INT_MAX = Some (r, i)"
      "nearest_q INT_MAX (of_int (num b * den c + num c * den b) / of_int (den b * den c)) r"
    using reduce_correct[OF le, of INT_MAX] v by auto
  moreover have "of_int (num b * den c + num c * den b) / of_int (den b * den c) = q_rat b + q_rat c"
    using v by (simp add: q_rat_def add_frac_eq)
  ultimately show ?thesis by (simp add: av_add_q_def s)
qed

lemma nearest_q_exact:
  assumes "nearest_q mx x r" "q_within mx c" "q_rat c = x"
  shows "q_rat r = x"
  using assms by (force simp: nearest_q_def)

lemma sgn_int_quotient: "sgn (of_int x / of_int y :: rat) = of_int (sgn x * sgn y)"
  by (auto simp: sgn_if zero_less_divide_iff divide_less_0_iff)

lemma s32_product:
  assumes "in_s32 x" "in_s32 y"
  shows "- 4611686016279904256 \<le> x * y \<and> x * y \<le> 4611686018427387904"
proof -
  have low: "- 4611686016279904256 \<le> x * y" if "0 \<le> x" "x \<le> INT_MAX" "- 2147483648 \<le> y" for x y :: int
  proof -
    have "x * - 2147483648 \<le> x * y" using that by (intro mult_left_mono)
    then show ?thesis using that by simp
  qed
  have "0 \<le> x * y" if "x < 0" "y < 0" using that by (simp add: mult_nonpos_nonpos)
  then have "- 4611686016279904256 \<le> x * y"
    using low[of x y] low[of y x] assms by (cases "0 \<le> x"; cases "0 \<le> y") (simp_all add: in_s32_def mult.commute)
  moreover have "\<bar>x * y\<bar> \<le> 2147483648 * 2147483648"
    using assms unfolding abs_mult in_s32_def by (intro mult_mono) auto
  ultimately show ?thesis by simp
qed

lemma cmp_q_correct:
  assumes "in_s32 (num a)" "in_s32 (den a)" "in_s32 (num b)" "in_s32 (den b)" "den a \<noteq> 0" "den b \<noteq> 0"
  shows "av_cmp_q a b = (if q_rat a < q_rat b then - 1 else if q_rat b < q_rat a then 1 else 0)"
proof -
  define t where "t = num a * den b - num b * den a"
  have p: "in_s64 t"
    using s32_product[of "num a" "den b"] s32_product[of "num b" "den a"] assms(1-4) by (simp add: t_def in_s64_def)
  have sgn: "sgn (q_rat a - q_rat b) = of_int (sgn t * (sgn (den a) * sgn (den b)))"
  proof -
    have "q_rat a - q_rat b = of_int t / of_int (den a * den b)"
      using assms(5,6) by (simp add: q_rat_def t_def diff_frac_eq)
    then show ?thesis by (simp only: sgn_int_quotient sgn_mult)
  qed
  have d: "drop_bit 63 x = (if x < 0 then - 1 else 0)" if "in_s64 x" for x using drop_sign[of 63 x] that by (simp add: in_s64_def)
  have in64: "in_s64 (den a)" "in_s64 (den b)" using assms(2,4) by (simp_all add: in_s32_def in_s64_def)
  have "t \<noteq> 0 \<Longrightarrow> s32 (drop_bit 63 (t XOR den a XOR den b) OR 1) = sgn t * (sgn (den a) * sgn (den b))"
    using assms(5,6) by (simp add: d[OF p] d[OF in64(1)] d[OF in64(2)] s32_id in_s32_def sgn_if)
  then have "av_cmp_q a b = sgn t * (sgn (den a) * sgn (den b))"
    using assms(5,6) p by (simp add: av_cmp_q_def s64_id flip: t_def)
  then have "of_int (av_cmp_q a b) = sgn (q_rat a - q_rat b)" using sgn by simp
  then show ?thesis by (auto simp: sgn_if split: if_splits)
qed

section \<open>The nearest fraction of a list\<close>

text \<open>The mean of two different valid fractions is the fraction \<open>a / b\<close> of the code; the two roundings of \<open>a * d / b\<close>
  tell on which side of it \<open>n / d\<close> is.\<close>

lemma rescale_up_down:
  assumes "\<bar>a\<bar> \<le> INT64_MAX" "0 < d" "d \<le> INT_MAX" "0 < b" "b \<le> INT64_MAX" "\<bar>a\<bar> \<le> INT_MAX * b"
  shows "of_bool (av_rescale_rnd a d b AV_ROUND_UP > n) - of_bool (av_rescale_rnd a d b AV_ROUND_DOWN < n) =
    sgn (a * d - n * b)"
proof -
  have a: "- INT64_MAX \<le> a" "a \<le> INT64_MAX" using assms(1) by linarith+
  have "\<bar>a * d\<bar> \<le> INT_MAX * b * INT_MAX" using assms(2,3,6) unfolding abs_mult by (intro mult_mono) simp_all
  then have x: "- (INT_MAX * INT_MAX) * b \<le> a * d" "a * d \<le> INT_MAX * INT_MAX * b" by simp_all
  have lim: "- (INT_MAX * INT_MAX) \<le> y div b \<and> y div b \<le> INT_MAX * INT_MAX" if "y = a * d \<or> y = - (a * d)" for y
    using that x zle_div_mult[OF assms(4), of "- (INT_MAX * INT_MAX)" y] zdiv_lt_mult[OF assms(4), of y "INT_MAX * INT_MAX + 1"] assms(4)
    by auto
  have "av_rescale_rnd a d b AV_ROUND_UP = - (- (a * d) div b)" "av_rescale_rnd a d b AV_ROUND_DOWN = a * d div b"
    using lim[of "a * d"] lim[of "- (a * d)"] assms(2-5) a
    by (simp_all add: rescale_exact_aux rounding_modes_def round_div_def round_defs abs_le_iff)
  moreover have "- (- (a * d) div b) > n \<longleftrightarrow> n * b < a * d"
    using Mathematics.floor_less_iff[OF assms(4), of "- (a * d)" "- n"] by auto
  moreover have "a * d div b < n \<longleftrightarrow> a * d < n * b" using Mathematics.floor_less_iff[OF assms(4)] by simp
  ultimately show ?thesis by (simp add: sgn_if)
qed

lemma sgn_distance: "sgn (\<bar>u\<bar> - \<bar>v\<bar>) = sgn (u * u - v * v :: rat)"
proof -
  have "\<bar>v\<bar> < \<bar>u\<bar> \<longleftrightarrow> v * v < u * u" "\<bar>u\<bar> < \<bar>v\<bar> \<longleftrightarrow> u * u < v * v"
    using abs_le_square_iff[of u v] abs_le_square_iff[of v u] by (auto simp: power2_eq_square)
  then show ?thesis by (auto simp: sgn_if)
qed

lemma nearer_q_correct:
  assumes "q_valid q" "q_valid q1" "q_valid q2"
  shows "of_int (av_nearer_q q q1 q2) = sgn (\<bar>q_rat q2 - q_rat q\<bar> - \<bar>q_rat q1 - q_rat q\<bar>)"
proof -
  define a where "a = num q1 * den q2 + num q2 * den q1"
  define b where "b = 2 * den q1 * den q2"
  have v: "\<bar>num q1\<bar> \<le> INT_MAX" "0 < den q1" "den q1 \<le> INT_MAX" "\<bar>num q2\<bar> \<le> INT_MAX" "0 < den q2" "den q2 \<le> INT_MAX"
    "0 < den q" "den q \<le> INT_MAX" using assms by (simp_all add: q_within_def)
  then have p: "\<bar>num q1 * den q2\<bar> \<le> INT_MAX * INT_MAX" "\<bar>num q2 * den q1\<bar> \<le> INT_MAX * INT_MAX" "\<bar>den q1 * den q2\<bar> \<le> INT_MAX * INT_MAX"
    by (intro q_products; simp)+
  have b: "0 < b" "b \<le> INT64_MAX" using v p(3) by (simp_all add: b_def)
  have aM: "\<bar>a\<bar> \<le> INT64_MAX" using p(1,2) unfolding a_def by linarith
  have "\<bar>num q1 * den q2\<bar> \<le> INT_MAX * (den q1 * den q2)" "\<bar>num q2 * den q1\<bar> \<le> INT_MAX * (den q1 * den q2)"
  proof -
    have "\<bar>num q1\<bar> * den q2 \<le> INT_MAX * den q1 * den q2" "\<bar>num q2\<bar> * den q1 \<le> INT_MAX * den q2 * den q1"
      using v by (auto intro!: mult_right_mono)
    then show "\<bar>num q1 * den q2\<bar> \<le> INT_MAX * (den q1 * den q2)" "\<bar>num q2 * den q1\<bar> \<le> INT_MAX * (den q1 * den q2)"
      using v by (simp_all add: abs_mult ac_simps)
  qed
  then have "\<bar>a\<bar> \<le> INT_MAX * b" unfolding a_def b_def by linarith
  note ud = rescale_up_down[OF aM v(7,8) b this, of "num q"]
  have s: "s64 a = a" "s64 b = b" using aM b by (auto intro!: in_s64_INT64)
  have c: "of_int (av_cmp_q q2 q1) = sgn (q_rat q2 - q_rat q1)"
    using cmp_q_correct[of q2 q1] v by (auto simp: in_s32_def sgn_if abs_le_iff)
  have "q_rat q1 + q_rat q2 - 2 * q_rat q = of_int (2 * (a * den q - num q * b)) / of_int (b * den q)"
    using v by (simp add: q_rat_def a_def b_def field_simps)
  then have m: "sgn (q_rat q1 + q_rat q2 - 2 * q_rat q) = of_int (sgn (a * den q - num q * b))"
    using b v(7) by (simp only: sgn_int_quotient sgn_mult[of 2]) (simp add: sgn_mult)
  have "in_s32 (sgn (a * den q - num q * b) * av_cmp_q q2 q1)"
    using cmp_q_correct[of q2 q1] v by (auto simp: in_s32_def sgn_if abs_le_iff)
  then have "av_nearer_q q q1 q2 = sgn (a * den q - num q * b) * av_cmp_q q2 q1"
    by (simp add: av_nearer_q_def s ud s32_id flip: a_def b_def)
  then have "of_int (av_nearer_q q q1 q2) = sgn ((q_rat q1 + q_rat q2 - 2 * q_rat q) * (q_rat q2 - q_rat q1))"
    by (simp add: m c sgn_mult)
  also have "(q_rat q1 + q_rat q2 - 2 * q_rat q) * (q_rat q2 - q_rat q1) =
      (q_rat q2 - q_rat q) * (q_rat q2 - q_rat q) - (q_rat q1 - q_rat q) * (q_rat q1 - q_rat q)" by (simp add: algebra_simps)
  finally show ?thesis by (simp only: sgn_distance)
qed

text \<open>The search keeps the first of the nearest seen so far.\<close>

definition first_nearest :: "rat \<Rightarrow> AVRational list \<Rightarrow> nat \<Rightarrow> bool" where
  "first_nearest x cs i \<longleftrightarrow> i < length cs \<and>
     (\<forall>j < length cs. \<bar>q_rat (cs ! i) - x\<bar> \<le> \<bar>q_rat (cs ! j) - x\<bar> \<and> (j < i \<longrightarrow> \<bar>q_rat (cs ! i) - x\<bar> < \<bar>q_rat (cs ! j) - x\<bar>))"

lemma find_nearest_correct:
  assumes "q_valid q" "\<forall>c \<in> set (seen @ cs). q_valid c" "den t = 0" "first_nearest (q_rat q) seen i"
  shows "\<exists>k. find_nearest_loop q (seen @ cs @ t # rest) (length seen) (cs @ t # rest) i = Some k \<and>
    first_nearest (q_rat q) (seen @ cs) k"
  using assms
proof (induction cs arbitrary: seen i)
  case (Cons c cs)
  define k where "k = (if av_nearer_q q c ((seen @ c # cs @ t # rest) ! i) > 0 then length seen else i)"
  have i: "i < length seen" using Cons.prems(4) by (simp add: first_nearest_def)
  then have nth: "(seen @ c # cs @ t # rest) ! i = seen ! i" by (simp add: nth_append)
  have "q_valid (seen ! i)" "q_valid c" using Cons.prems(2) i by simp_all
  note n = nearer_q_correct[OF Cons.prems(1) this(2,1)]
  have pos: "av_nearer_q q c (seen ! i) > 0 \<longleftrightarrow> \<bar>q_rat c - q_rat q\<bar> < \<bar>q_rat (seen ! i) - q_rat q\<bar>"
  proof -
    have "av_nearer_q q c (seen ! i) > 0 \<longleftrightarrow> (0 :: rat) < of_int (av_nearer_q q c (seen ! i))" by simp
    then show ?thesis unfolding n by (simp add: sgn_if)
  qed
  have f: "first_nearest (q_rat q) (seen @ [c]) k"
  proof (cases "av_nearer_q q c (seen ! i) > 0")
    case True
    then show ?thesis using Cons.prems(4) pos by (force simp: k_def nth first_nearest_def nth_append less_Suc_eq)
  next
    case False
    then show ?thesis using Cons.prems(4) pos by (auto simp: k_def nth first_nearest_def nth_append less_Suc_eq)
  qed
  have "den c \<noteq> 0" using Cons.prems(2) by (simp add: q_within_def)
  then show ?case
    using Cons.IH[OF Cons.prems(1) _ Cons.prems(3) f] Cons.prems(2) by (simp add: k_def)
qed simp

section \<open>Conversion to a float\<close>

lemma round_div_near:
  assumes "0 \<le> n" "0 < d"
  shows "round_div AV_ROUND_NEAR_INF n d = round (of_int n / of_int d :: rat)"
proof -
  have "round_div AV_ROUND_NEAR_INF n d = (2 * n + d) div (2 * d)"
    using assms by (cases "n = 0") (simp_all add: round_div_def round_defs)
  also have "\<dots> = \<lfloor>of_int (2 * n + d) / of_int (2 * d) :: rat\<rfloor>" by (rule floor_divide_of_int_eq[symmetric])
  also have "(of_int (2 * n + d) / of_int (2 * d) :: rat) = of_int n / of_int d + 1 / 2" using assms(2) by (simp add: field_simps)
  finally show ?thesis by (simp add: round_def)
qed

lemma intfloat_n_round:
  assumes "0 < num q" "num q \<le> INT_MAX" "0 < den q" "den q \<le> INT_MAX" "- 20 \<le> s" "s \<le> 60" "q_rat q * 2 powi s < 2 ^ 30"
  shows "intfloat_n q s = round (q_rat q * 2 powi s)"
proof -
  define b :: int where "b = (if s \<ge> 0 then 2 ^ nat s else 1)"
  define c :: int where "c = (if s \<ge> 0 then den q else den q * 2 ^ nat (- s))"
  have v: "of_int (num q * b) / of_int c = q_rat q * 2 powi s"
  proof (cases "s \<ge> 0")
    case False
    then have "2 powi s = (inverse (2 ^ nat (- s)) :: rat)" by (simp add: power_int_def power_one_over inverse_eq_divide)
    then show ?thesis using False by (simp add: b_def c_def q_rat_def divide_inverse)
  qed (simp add: b_def c_def q_rat_def power_int_def)
  have "(2 :: int) ^ nat s \<le> 2 ^ 60" "(2 :: int) ^ nat (- s) \<le> 2 ^ 20" using assms(5,6) power_increasing[of "nat s" 60 "2 :: int"] power_increasing[of "nat (- s)" 20 "2 :: int"] by simp_all
  then have b: "0 < b" "b \<le> INT64_MAX" and c: "0 < c" "c \<le> INT64_MAX"
  proof -
    show "0 < b" "b \<le> INT64_MAX" using \<open>2 ^ nat s \<le> 2 ^ 60\<close> by (simp_all add: b_def)
    show "0 < c" using assms(3) by (simp add: c_def)
    have "den q * 2 ^ nat (- s) \<le> INT_MAX * 2 ^ 20"
      using assms(3,4) \<open>2 ^ nat (- s) \<le> 2 ^ 20\<close> by (intro mult_mono) simp_all
    then show "c \<le> INT64_MAX" using assms(4) by (simp add: c_def)
  qed
  have n: "intfloat_n q s = av_rescale_rnd (num q) b c AV_ROUND_NEAR_INF"
    by (simp add: intfloat_n_def av_rescale_def b_def c_def)
  have r: "round_div AV_ROUND_NEAR_INF (num q * b) c = round (q_rat q * 2 powi s)"
    using round_div_near[of "num q * b" c] assms(1) b(1) c(1) by (simp add: v del: of_int_mult)
  have "0 \<le> q_rat q * 2 powi s" using assms(1,3) by (simp add: q_rat_def)
  then have "0 \<le> round (q_rat q * 2 powi s)" "round (q_rat q * 2 powi s) \<le> 2 ^ 30"
    using assms(7) round_mono[of 0 "q_rat q * 2 powi s"] round_mono[of "q_rat q * 2 powi s" "2 ^ 30"] by simp_all
  then show ?thesis
    unfolding n using assms(1,2) b c r by (simp add: rescale_exact_aux rounding_modes_def)
qed

lemma log2_power:
  assumes "0 < v" "v \<le> INT_MAX"
  shows "2 powi (ff_log2_c v) \<le> (of_int v :: rat)" "(of_int v :: rat) < 2 * 2 powi (ff_log2_c v)" "0 \<le> ff_log2_c v" "ff_log2_c v \<le> 30"
proof -
  have l: "0 \<le> ff_log2_c v" "2 ^ nat (ff_log2_c v) \<le> v" "v < 2 ^ Suc (nat (ff_log2_c v))"
    using log2_correct[of v] assms by (simp_all add: is_log2_def)
  then have "(of_int (2 ^ nat (ff_log2_c v)) :: rat) \<le> of_int v" "(of_int v :: rat) < of_int (2 ^ Suc (nat (ff_log2_c v)))"
    by (simp_all only: of_int_le_iff of_int_less_iff)
  then show "2 powi (ff_log2_c v) \<le> (of_int v :: rat)" "(of_int v :: rat) < 2 * 2 powi (ff_log2_c v)"
    using l(1) by (simp_all add: power_int_def)
  show "0 \<le> ff_log2_c v" by (rule l)
  show "ff_log2_c v \<le> 30"
  proof (rule ccontr)
    assume "\<not> ff_log2_c v \<le> 30"
    then have "(2 :: int) ^ 31 \<le> 2 ^ nat (ff_log2_c v)" by (intro power_increasing) simp_all
    then show False using l(2) assms(2) by simp
  qed
qed

text \<open>The two rounds of the scaling end with a significand of 24 bits.\<close>

lemma intfloat_scaled:
  assumes "0 < num q" "num q \<le> INT_MAX" "0 < den q" "den q \<le> INT_MAX"
    and "s0 = 23 + ff_log2_c (den q) - ff_log2_c (num q)" "n0 = intfloat_n q s0"
    and "s = s0 - (if n0 \<ge> 2 ^ 24 then 1 else 0) + (if n0 < 2 ^ 23 then 1 else 0)" "n = intfloat_n q s"
  shows "2 ^ 23 \<le> n \<and> n < 2 ^ 24 \<and> \<bar>of_int n - q_rat q * 2 powi s\<bar> \<le> 1 / 2 \<and> - 8 \<le> s \<and> s \<le> 54"
proof -
  note lb = log2_power[OF assms(3,4)] and la = log2_power[OF assms(1,2)]
  define y where "y = q_rat q * 2 powi s0"
  have "2 powi s0 = 2 ^ 23 * (2 powi ff_log2_c (den q) / 2 powi ff_log2_c (num q) :: rat)"
    by (simp add: assms(5) power_int_add power_int_diff)
  then have y: "y = 2 ^ 23 * ((of_int (num q) / 2 powi ff_log2_c (num q)) * (2 powi ff_log2_c (den q) / of_int (den q)))"
    by (simp add: y_def q_rat_def mult_ac)
  have "1 \<le> of_int (num q) / (2 powi ff_log2_c (num q) :: rat)" "of_int (num q) / (2 powi ff_log2_c (num q) :: rat) < 2"
    "1 / 2 < 2 powi ff_log2_c (den q) / (of_int (den q) :: rat)" "2 powi ff_log2_c (den q) / (of_int (den q) :: rat) \<le> 1"
    using la lb assms(1,3) by (simp_all add: field_simps)
  note f = this
  have "2 ^ 22 \<le> y" "y < 2 ^ 24"
  proof -
    have "1 * (1 / 2) \<le> of_int (num q) / 2 powi ff_log2_c (num q) * (2 powi ff_log2_c (den q) / of_int (den q) :: rat)"
      using f assms(1,3) by (intro mult_mono) simp_all
    then show "2 ^ 22 \<le> y" unfolding y by simp
    have "of_int (num q) / 2 powi ff_log2_c (num q) * (2 powi ff_log2_c (den q) / of_int (den q) :: rat) < 2 * 1"
      using f assms(1,3) by (intro mult_less_le_imp_less) simp_all
    then show "y < 2 ^ 24" unfolding y by simp
  qed
  note yb = this
  have s0: "- 7 \<le> s0" "s0 \<le> 53" using la(3,4) lb(3,4) assms(5) by simp_all
  have n0: "n0 = round y" unfolding assms(6) y_def using assms(1-4) s0 yb by (intro intfloat_n_round) (simp_all add: y_def)
  have rd: "\<bar>of_int (round z) - z\<bar> \<le> 1 / 2" for z :: rat by (rule of_int_round_abs_le)
  have y1: "q_rat q * 2 powi (s0 - 1) = y / 2" "q_rat q * 2 powi (s0 + 1) = 2 * y" by (simp_all add: y_def power_int_diff power_int_add)
  consider "n0 \<ge> 2 ^ 24" | "n0 < 2 ^ 23" | "2 ^ 23 \<le> n0" "n0 < 2 ^ 24" by linarith
  then show ?thesis
  proof cases
    case 1
    have s: "s = s0 - 1" using 1 assms(7) by simp
    have n: "n = round (y / 2)" unfolding assms(8) s using assms(1-4) s0 yb by (subst intfloat_n_round) (simp_all add: y1)
    have "(of_int (2 ^ 24) :: rat) \<le> of_int (round y)" using 1 unfolding n0 by (simp only: of_int_le_iff)
    then have "2 ^ 24 - 1 / 2 \<le> y" using rd[of y] unfolding of_int_power of_int_numeral by linarith
    then have "2 ^ 23 - 1 / 4 \<le> y / 2" "y / 2 < 2 ^ 23" using yb by simp_all
    then have "round (y / 2) = 2 ^ 23" by (intro round_unique') simp
    then show ?thesis using n s s0 rd[of "y / 2"] by (simp add: y1)
  next
    case 2
    have s: "s = s0 + 1" using 2 assms(7) by simp
    have n: "n = round (2 * y)" unfolding assms(8) s using assms(1-4) s0 yb by (subst intfloat_n_round) (simp_all add: y1)
    have "(of_int (round y) :: rat) \<le> of_int (2 ^ 23 - 1)" using 2 unfolding n0 by (simp only: of_int_le_iff)
    then have "y \<le> 2 ^ 23 - 1 / 2" using rd[of y] unfolding of_int_diff of_int_1 of_int_power of_int_numeral by linarith
    then have "round (2 * y) \<le> round (2 ^ 24 - 1 :: rat)" "round (2 ^ 23 :: rat) \<le> round (2 * y)" using yb by (intro round_mono; simp)+
    then have "2 ^ 23 \<le> n" "n < 2 ^ 24" unfolding n by simp_all
    then show ?thesis using n s s0 rd[of "2 * y"] by (simp add: y1)
  next
    case 3
    then have s: "s = s0" using assms(7) by simp
    then have "n = n0" using assms(6,8) by simp
    then show ?thesis using 3 s s0 rd[of y] n0 by (simp add: y_def)
  qed
qed

text \<open>The value of a normal number of the single-precision format.\<close>

definition float_exponent :: "int \<Rightarrow> int" where
  "float_exponent w = w div 2 ^ 23 mod 2 ^ 8"

definition float_value :: "int \<Rightarrow> rat" where
  "float_value w = (if w div 2 ^ 31 = 1 then - 1 else 1) * of_int (2 ^ 23 + w mod 2 ^ 23) * 2 powi (float_exponent w - 150)"

lemma float_fields:
  assumes "sg = 0 \<or> sg = 1" "0 \<le> e" "e < 2 ^ 8" "0 \<le> m" "m < 2 ^ 23"
  shows "u32_of (sg * 2 ^ 31 OR e * 2 ^ 23 OR m) = sg * 2 ^ 31 + e * 2 ^ 23 + m"
    "(sg * 2 ^ 31 + e * 2 ^ 23 + m) div 2 ^ 31 = sg" "float_exponent (sg * 2 ^ 31 + e * 2 ^ 23 + m) = e"
    "(sg * 2 ^ 31 + e * 2 ^ 23 + m) mod 2 ^ 23 = (m :: int)"
proof -
  have "e * 2 ^ 23 OR m = e * 2 ^ 23 + m" using or_disjoint[OF assms(4,5), of e] by (simp add: mult.commute)
  moreover have "0 \<le> e * 2 ^ 23 + m" "e * 2 ^ 23 + m < 2 ^ 31" using assms by simp_all
  ultimately have "sg * 2 ^ 31 OR e * 2 ^ 23 OR m = sg * 2 ^ 31 + (e * 2 ^ 23 + m)"
    using or_disjoint[of "e * 2 ^ 23 + m" 31 sg] by (simp add: or.assoc mult.commute)
  then show "u32_of (sg * 2 ^ 31 OR e * 2 ^ 23 OR m) = sg * 2 ^ 31 + e * 2 ^ 23 + m"
    using assms by (auto simp: u32_of_id)
  have 1: "sg * 2 ^ 31 + e * 2 ^ 23 + m = m + 2 ^ 23 * (e + 2 ^ 8 * sg)" by simp
  then show "(sg * 2 ^ 31 + e * 2 ^ 23 + m) mod 2 ^ 23 = m" using assms(4,5) by (simp only: mod_mult_self2) simp
  have "(sg * 2 ^ 31 + e * 2 ^ 23 + m) div 2 ^ 23 = e + 2 ^ 8 * sg" unfolding 1 using assms(4,5) by (subst div_mult_self2) simp_all
  then show "float_exponent (sg * 2 ^ 31 + e * 2 ^ 23 + m) = e"
    unfolding float_exponent_def using assms(2,3) by (simp only: mod_mult_self2) simp
  have "sg * 2 ^ 31 + e * 2 ^ 23 + m = e * 2 ^ 23 + m + 2 ^ 31 * sg" by simp
  then show "(sg * 2 ^ 31 + e * 2 ^ 23 + m) div 2 ^ 31 = sg" using assms(2-5) by (simp only:) (subst div_mult_self2, simp_all)
qed

lemma q2intfloat_positive:
  assumes "0 < num q" "num q \<le> INT_MAX" "0 < den q" "den q \<le> INT_MAX" "sg = 0 \<or> sg = 1"
    and "s0 = 23 + ff_log2_c (den q) - ff_log2_c (num q)" "n0 = intfloat_n q s0"
    and "s = s0 - (if n0 \<ge> 2 ^ 24 then 1 else 0) + (if n0 < 2 ^ 23 then 1 else 0)" "n = intfloat_n q s"
    and "w = u32_of (sg * 2 ^ 31 OR (150 - s) * 2 ^ 23 OR (n - 2 ^ 23))"
  shows "1 \<le> float_exponent w \<and> float_exponent w \<le> 254 \<and>
    \<bar>float_value w - (if sg = 1 then - q_rat q else q_rat q)\<bar> \<le> 2 powi (float_exponent w - 151)"
proof -
  have sc: "2 ^ 23 \<le> n" "n < 2 ^ 24" "\<bar>of_int n - q_rat q * 2 powi s\<bar> \<le> 1 / 2" "- 8 \<le> s" "s \<le> 54"
    using intfloat_scaled[OF assms(1-4,6-9)] by simp_all
  have f: "w = sg * 2 ^ 31 + (150 - s) * 2 ^ 23 + (n - 2 ^ 23)" "w div 2 ^ 31 = sg" "float_exponent w = 150 - s" "w mod 2 ^ 23 = n - 2 ^ 23"
    using float_fields[of sg "150 - s" "n - 2 ^ 23"] assms(5) sc unfolding assms(10) by simp_all
  have v: "float_value w = (if sg = 1 then - 1 else 1) * (of_int n * 2 powi (- s))"
    unfolding float_value_def f(2-4) by simp
  have "q_rat q = (q_rat q * 2 powi s) * 2 powi (- s)" by (simp add: power_int_minus)
  then have "of_int n * 2 powi (- s) - q_rat q = (of_int n - q_rat q * 2 powi s) * 2 powi (- s)" by (simp add: left_diff_distrib)
  then have "\<bar>of_int n * 2 powi (- s) - q_rat q\<bar> = \<bar>of_int n - q_rat q * 2 powi s\<bar> * 2 powi (- s)" by (simp add: abs_mult)
  also have "\<dots> \<le> 1 / 2 * 2 powi (- s)" using sc(3) by (intro mult_right_mono) simp_all
  also have "\<dots> = 2 powi (150 - s - 151)" by (simp add: power_int_diff power_int_minus inverse_eq_divide)
  finally have "\<bar>of_int n * 2 powi (- s) - q_rat q\<bar> \<le> 2 powi (150 - s - 151)" .
  moreover have "\<bar>- x + y\<bar> = \<bar>x - y\<bar>" for x y :: rat by (simp add: abs_if)
  ultimately show ?thesis using sc(4,5) f(3) assms(5) by (auto simp: v)
qed

section \<open>Properties\<close>

text \<open>C27: \<open>av_reduce\<close> returns a reduced fraction inside the bound that no other fraction inside the bound is nearer to
  the given one than, whatever the two 64-bit numbers and their signs are, and returns 1 exactly when it is equal to the
  given one. The loop over the convergents ends, and no operation of it overflows.\<close>

theorem av_reduce_best:
  assumes "- INT64_MAX \<le> n" "n \<le> INT64_MAX" "- INT64_MAX \<le> d" "d \<le> INT64_MAX" "d \<noteq> 0" "0 < mx" "mx \<le> INT_MAX"
  shows "\<exists>r i. av_reduce n d mx = Some (r, i) \<and> q_within mx r \<and> coprime (num r) (den r) \<and>
    (\<forall>c. q_within mx c \<longrightarrow> \<bar>q_rat r - of_int n / of_int d\<bar> \<le> \<bar>q_rat c - of_int n / of_int d\<bar>) \<and>
    i = of_bool (q_rat r = of_int n / of_int d)"
  using reduce_correct[OF assms] unfolding nearest_q_def by blast

theorem av_reduce_best_witness:
  "\<exists>r i. av_reduce 314159265 100000000 1000 = Some (r, i) \<and>
    (\<forall>c. q_within 1000 c \<longrightarrow> \<bar>q_rat r - 314159265 / 100000000\<bar> \<le> \<bar>q_rat c - 314159265 / 100000000\<bar>)"
proof -
  have h: "- INT64_MAX \<le> 314159265" "314159265 \<le> INT64_MAX" "- INT64_MAX \<le> 100000000" "100000000 \<le> INT64_MAX"
    "(100000000 :: int) \<noteq> 0" "(0 :: int) < 1000" "1000 \<le> INT_MAX" by simp_all
  show ?thesis using av_reduce_best[OF h] by auto
qed

text \<open>C28: Sum, difference, product and quotient of two valid fractions are the nearest representable fractions to the
  exact results, so they are exact whenever the result can be represented; \<open>av_cmp_q\<close> compares exactly, without
  overflow even for the extreme values of \<open>int\<close>.\<close>

theorem q_arithmetic_nearest:
  assumes "q_valid b" "q_valid c"
  shows "(\<exists>r. av_add_q b c = Some r \<and> nearest_q INT_MAX (q_rat b + q_rat c) r) \<and>
    (\<exists>r. av_sub_q b c = Some r \<and> nearest_q INT_MAX (q_rat b - q_rat c) r) \<and>
    (\<exists>r. av_mul_q b c = Some r \<and> nearest_q INT_MAX (q_rat b * q_rat c) r) \<and>
    (num c \<noteq> 0 \<longrightarrow> (\<exists>r. av_div_q b c = Some r \<and> nearest_q INT_MAX (q_rat b / q_rat c) r)) \<and>
    (\<forall>x y r. q_valid x \<and> q_rat x = y \<and> nearest_q INT_MAX y r \<longrightarrow> q_rat r = y) \<and>
    av_cmp_q b c = (if q_rat b < q_rat c then - 1 else if q_rat c < q_rat b then 1 else 0)"
proof -
  have v: "\<bar>num b\<bar> \<le> INT_MAX" "0 < den b" "den b \<le> INT_MAX" "\<bar>num c\<bar> \<le> INT_MAX" "0 < den c" "den c \<le> INT_MAX"
    using assms by (simp_all add: q_within_def)
  have "s32 (- num c) = - num c" using v(4) by (auto intro!: s32_id simp: in_s32_def)
  then have "\<exists>r. av_sub_q b c = Some r \<and> nearest_q INT_MAX (q_rat b - q_rat c) r"
    using add_q_correct[of b "\<lparr>num = - num c, den = den c\<rparr>"] v by (simp add: av_sub_q_def q_within_def q_rat_def)
  moreover have "\<exists>r. av_div_q b c = Some r \<and> nearest_q INT_MAX (q_rat b / q_rat c) r" if "num c \<noteq> 0"
    using mul_q_correct[of b "\<lparr>num = den c, den = num c\<rparr>"] v that by (simp add: av_div_q_def q_rat_def)
  moreover have "\<exists>r. av_mul_q b c = Some r \<and> nearest_q INT_MAX (q_rat b * q_rat c) r"
    using mul_q_correct[of b c] v by simp
  moreover have "av_cmp_q b c = (if q_rat b < q_rat c then - 1 else if q_rat c < q_rat b then 1 else 0)"
    using v by (intro cmp_q_correct) (auto simp: in_s32_def)
  ultimately show ?thesis using add_q_correct[OF assms] nearest_q_exact by blast
qed

theorem q_arithmetic_nearest_witness:
  "\<exists>r. av_add_q \<lparr>num = 1, den = 6\<rparr> \<lparr>num = 1, den = 3\<rparr> = Some r \<and> q_rat r = 1 / 2"
proof -
  have v: "q_valid \<lparr>num = 1, den = 6\<rparr>" "q_valid \<lparr>num = 1, den = 3\<rparr>" "q_valid \<lparr>num = 1, den = 2\<rparr>" by (simp_all add: q_within_def)
  have e: "q_rat \<lparr>num = 1, den = 6\<rparr> + q_rat \<lparr>num = 1, den = 3\<rparr> = 1 / 2" "q_rat \<lparr>num = 1, den = 2\<rparr> = 1 / 2" by (simp_all add: q_rat_def)
  show ?thesis using q_arithmetic_nearest[OF v(1,2)] v(3) e by metis
qed

text \<open>\<open>av_nearer_q\<close> decides which of two valid fractions is nearer to a third, exactly, and the search through a list
  that ends with a zero denominator returns the index of the nearest, the first one of several.\<close>

theorem find_nearest_first:
  assumes "q_valid q" "\<forall>c \<in> set cs. q_valid c" "cs \<noteq> []" "den t = 0"
  shows "\<exists>i. av_find_nearest_q_idx q (cs @ t # rest) = Some i \<and> first_nearest (q_rat q) cs i"
proof -
  obtain c cs' where cs: "cs = c # cs'" using assms(3) by (cases cs) auto
  have "den c \<noteq> 0" "q_valid c" using assms(2) by (auto simp: cs q_within_def)
  then have "\<not> av_nearer_q q c c > 0"
    using nearer_q_correct[OF assms(1), of c c] by simp
  then have "av_find_nearest_q_idx q (cs @ t # rest) = find_nearest_loop q ([c] @ cs' @ t # rest) (length [c]) (cs' @ t # rest) 0"
    using \<open>den c \<noteq> 0\<close> by (simp add: av_find_nearest_q_idx_def cs)
  moreover have "first_nearest (q_rat q) [c] 0" by (simp add: first_nearest_def)
  ultimately show ?thesis
    using find_nearest_correct[OF assms(1) _ assms(4), of "[c]" cs' 0 rest] assms(2) by (simp add: cs)
qed

theorem find_nearest_first_witness:
  "\<exists>i. av_find_nearest_q_idx \<lparr>num = 2997, den = 100\<rparr>
     [\<lparr>num = 24, den = 1\<rparr>, \<lparr>num = 30000, den = 1001\<rparr>, \<lparr>num = 30, den = 1\<rparr>, \<lparr>num = 0, den = 0\<rparr>] = Some i \<and>
   first_nearest (2997 / 100) [\<lparr>num = 24, den = 1\<rparr>, \<lparr>num = 30000, den = 1001\<rparr>, \<lparr>num = 30, den = 1\<rparr>] i"
proof -
  have h: "q_valid \<lparr>num = 2997, den = 100\<rparr>" "\<forall>c \<in> set [\<lparr>num = 24, den = 1\<rparr>, \<lparr>num = 30000, den = 1001\<rparr>, \<lparr>num = 30, den = 1\<rparr>]. q_valid c"
    "[\<lparr>num = 24, den = 1\<rparr>, \<lparr>num = 30000, den = 1001\<rparr>, \<lparr>num = 30, den = 1\<rparr>] \<noteq> []" "den \<lparr>num = 0, den = 0\<rparr> = 0"
    by (simp_all add: q_within_def)
  show ?thesis using find_nearest_first[OF h, of "[]"] by (simp add: q_rat_def)
qed

text \<open>\<open>av_q2intfloat\<close> returns the bits of a normal single-precision number whose distance from the fraction is at
  most half a unit in the last place, for every fraction with a nonzero numerator and denominator; the scaling always
  ends with a significand of 24 bits. A negative fraction with denominator 0 becomes the positive infinity.\<close>

theorem q2intfloat_nearest:
  assumes "\<bar>num q\<bar> \<le> INT_MAX" "\<bar>den q\<bar> \<le> INT_MAX" "num q \<noteq> 0"
  shows "if den q = 0 then av_q2intfloat q = 0x7F800000
    else 1 \<le> float_exponent (av_q2intfloat q) \<and> float_exponent (av_q2intfloat q) \<le> 254 \<and>
      \<bar>float_value (av_q2intfloat q) - q_rat q\<bar> \<le> 2 powi (float_exponent (av_q2intfloat q) - 151)"
proof -
  define p where "p = (if den q < 0 then \<lparr>num = - num q, den = - den q\<rparr> else q)"
  define sg where "sg = (if num p < 0 then 1 else 0 :: int)"
  define r where "r = \<lparr>num = \<bar>num p\<bar>, den = den p\<rparr>"
  have b: "- INT_MAX \<le> num q" "num q \<le> INT_MAX" "- INT_MAX \<le> den q" "den q \<le> INT_MAX" using assms(1,2) by linarith+
  have p: "(if den q < 0 then \<lparr>num = s32 (num q * - 1), den = s32 (den q * - 1)\<rparr> else q) = p"
    using b by (simp add: p_def s32_id in_s32_def)
  have "(if num p < 0 then p\<lparr>num := s32 (num p * - 1)\<rparr> else p) = r"
    using b by (cases p) (auto simp: p_def r_def s32_id in_s32_def split: if_splits)
  note r = this
  have v: "0 < num r" "num r \<le> INT_MAX" "0 \<le> den r" "den r \<le> INT_MAX" "den r = 0 \<longleftrightarrow> den q = 0"
    using assms b by (auto simp: r_def p_def)
  have x: "(if sg = 1 then - q_rat r else q_rat r) = q_rat q"
    by (auto simp: sg_def r_def p_def q_rat_def)
  define s0 where "s0 = 23 + ff_log2_c (den r) - ff_log2_c (num r)"
  define n0 where "n0 = intfloat_n r s0"
  define s where "s = s0 - (if n0 \<ge> 2 ^ 24 then 1 else 0) + (if n0 < 2 ^ 23 then 1 else 0)"
  have w: "av_q2intfloat q = (if den r = 0 then 0x7F800000 OR (num r AND 0x80000000)
      else u32_of (sg * 2 ^ 31 OR (150 - s) * 2 ^ 23 OR (intfloat_n r s - 2 ^ 23)))"
    unfolding av_q2intfloat_def p Let_def r using v(1) by (simp add: sg_def s_def n0_def s0_def)
  show ?thesis
  proof (cases "den q = 0")
    case True
    have "num r AND 0x80000000 = 0"
      using and_high[of "num r" 1 31] v(1,2) by simp
    then show ?thesis using True v(5) by (simp add: w)
  next
    case False
    then show ?thesis
      using q2intfloat_positive[OF v(1,2) _ v(4) _ s0_def n0_def s_def refl refl, of sg] v(3,5) x by (simp add: w sg_def)
  qed
qed

theorem q2intfloat_nearest_witness:
  "\<bar>float_value (av_q2intfloat \<lparr>num = 1, den = - 3\<rparr>) - (- 1 / 3)\<bar> \<le>
     2 powi (float_exponent (av_q2intfloat \<lparr>num = 1, den = - 3\<rparr>) - 151) \<and>
   av_q2intfloat \<lparr>num = - 1, den = 0\<rparr> = 0x7F800000"
proof -
  have h: "\<bar>num \<lparr>num = 1, den = - 3\<rparr>\<bar> \<le> INT_MAX" "\<bar>den \<lparr>num = 1, den = - 3\<rparr>\<bar> \<le> INT_MAX" "num \<lparr>num = 1, den = - 3\<rparr> \<noteq> 0"
    "\<bar>num \<lparr>num = - 1, den = 0\<rparr>\<bar> \<le> INT_MAX" "\<bar>den \<lparr>num = - 1, den = 0\<rparr>\<bar> \<le> INT_MAX" "num \<lparr>num = - 1, den = 0\<rparr> \<noteq> 0" by simp_all
  show ?thesis using q2intfloat_nearest[OF h(1-3)] q2intfloat_nearest[OF h(4-6)] by (simp add: q_rat_def)
qed

end
