(* ===== verification/PutBits.thy ===== *)
theory PutBits
  imports IntMath Bytes
begin

text \<open>
  The bit writer of libavcodec/put_bits.h, big-endian, with \<open>ff_put_string\<close> and \<open>ff_copy_bits\<close> of bitstream.c. The
  bits not yet stored are the low \<open>32 - bit_left\<close> bits of \<open>bit_buf\<close>; what is above them is left over. The buffer is a
  list of bytes and \<open>buf_ptr\<close> and \<open>buf_end\<close> are offsets into it. \<open>None\<close> is a store outside the buffer or a failed
  \<open>av_assert0\<close>; the asserts of level 2 are compiled out.
\<close>

section \<open>Operations\<close>

record PutBitContext =
  bit_buf :: u32
  bit_left :: nat
  pb_buf :: "u8 list"
  buf_ptr :: nat
  buf_end :: nat
  pb_size_in_bits :: int

text \<open>A negative size is taken for an empty buffer.\<close>

definition init_put_bits :: "u8 list \<Rightarrow> int \<Rightarrow> PutBitContext" where
  "init_put_bits buffer buffer_size =
     (let buffer = (if buffer_size < 0 then [] else buffer);
          buffer_size = (if buffer_size < 0 then 0 else buffer_size)
      in \<lparr>bit_buf = 0, bit_left = 32, pb_buf = buffer, buf_ptr = 0, buf_end = nat buffer_size,
          pb_size_in_bits = s32 (8 * buffer_size)\<rparr>)"

definition put_bits_count :: "PutBitContext \<Rightarrow> int" where
  "put_bits_count s = s32 (int (buf_ptr s) * 8 + 32 - int (bit_left s))"

definition put_bits_left :: "PutBitContext \<Rightarrow> int" where
  "put_bits_left s = s32 ((int (buf_end s) - int (buf_ptr s)) * 8 - 32 + int (bit_left s))"

definition rebase_put_bits :: "PutBitContext \<Rightarrow> u8 list \<Rightarrow> int \<Rightarrow> PutBitContext option" where
  "rebase_put_bits s buffer buffer_size =
     (if s32 (8 * buffer_size) < put_bits_count s then None
      else Some (s\<lparr>buf_end := nat buffer_size, pb_buf := buffer, pb_size_in_bits := s32 (8 * buffer_size)\<rparr>))"

text \<open>\<open>buf_end - buf_ptr >= sizeof(BitBuf)\<close> compares unsigned values: a writer that was moved behind its end passes.\<close>

definition has_room :: "PutBitContext \<Rightarrow> bool" where
  "has_room s \<longleftrightarrow> buf_end s < buf_ptr s \<or> buf_ptr s + 4 \<le> buf_end s"

text \<open>A full word, or only a message when there is no room.\<close>

definition write_word :: "PutBitContext \<Rightarrow> u32 \<Rightarrow> PutBitContext option" where
  "write_word s w =
     (if has_room s then
        map_option (\<lambda>buf. s\<lparr>pb_buf := buf, buf_ptr := buf_ptr s + 4\<rparr>) (store (pb_buf s) (buf_ptr s) (AV_WB32 w))
      else Some s)"

definition put_bits_no_assert :: "PutBitContext \<Rightarrow> nat \<Rightarrow> u32 \<Rightarrow> PutBitContext option" where
  "put_bits_no_assert s n v =
     (if n < bit_left s then
        Some (s\<lparr>bit_buf := push_bit n (bit_buf s) OR v, bit_left := bit_left s - n\<rparr>)
      else
        map_option (\<lambda>s'. s'\<lparr>bit_buf := v, bit_left := bit_left s + 32 - n\<rparr>)
          (write_word s (push_bit (bit_left s) (bit_buf s) OR drop_bit (n - bit_left s) v)))"

definition put_bits :: "PutBitContext \<Rightarrow> nat \<Rightarrow> u32 \<Rightarrow> PutBitContext option" where
  "put_bits s n v = put_bits_no_assert s n v"

definition put_sbits :: "PutBitContext \<Rightarrow> nat \<Rightarrow> int \<Rightarrow> PutBitContext option" where
  "put_sbits s n v = put_bits s n (word_of_int (av_mod_uintp2_c (u32_of v) n))"

definition put_bits32 :: "PutBitContext \<Rightarrow> u32 \<Rightarrow> PutBitContext option" where
  "put_bits32 s v =
     (let b = push_bit (bit_left s) (bit_buf s) OR drop_bit (32 - bit_left s) v
      in map_option (\<lambda>s'. s'\<lparr>bit_buf := v\<rparr>) (write_word s b))"

definition put_bits64 :: "PutBitContext \<Rightarrow> nat \<Rightarrow> u64 \<Rightarrow> PutBitContext option" where
  "put_bits64 s n v =
     (let lo = ucast (v AND 0xffffffff); hi = ucast (drop_bit 32 v) in
      if n < 32 then put_bits s n (ucast v)
      else if n = 32 then put_bits32 s (ucast v)
      else if n < 64 then Option.bind (put_bits s (n - 32) hi) (\<lambda>s. put_bits32 s lo)
      else Option.bind (put_bits32 s hi) (\<lambda>s. put_bits32 s lo))"

text \<open>The loop stores one byte a round.\<close>

function flush_loop :: "PutBitContext \<Rightarrow> PutBitContext option" where
  "flush_loop s =
     (if bit_left s < 32 then
        (if buf_ptr s < buf_end s then
           Option.bind (store (pb_buf s) (buf_ptr s) [ucast (drop_bit 24 (bit_buf s))]) (\<lambda>buf.
             flush_loop (s\<lparr>pb_buf := buf, buf_ptr := buf_ptr s + 1, bit_buf := push_bit 8 (bit_buf s),
               bit_left := bit_left s + 8\<rparr>))
         else None)
      else Some (s\<lparr>bit_left := 32, bit_buf := 0\<rparr>))"
  by pat_completeness auto
termination by (relation "measure (\<lambda>s. 32 - bit_left s)") auto

declare flush_loop.simps [simp del]

definition flush_put_bits :: "PutBitContext \<Rightarrow> PutBitContext option" where
  "flush_put_bits s =
     flush_loop (if bit_left s < 32 then s\<lparr>bit_buf := push_bit (bit_left s) (bit_buf s)\<rparr> else s)"

definition skip_put_bytes :: "PutBitContext \<Rightarrow> nat \<Rightarrow> PutBitContext option" where
  "skip_put_bytes s n = (if int n \<le> int (buf_end s) - int (buf_ptr s) then Some (s\<lparr>buf_ptr := buf_ptr s + n\<rparr>) else None)"

definition skip_put_bits :: "PutBitContext \<Rightarrow> nat \<Rightarrow> PutBitContext" where
  "skip_put_bits s n =
     (let bits = 32 - bit_left s + n in s\<lparr>buf_ptr := buf_ptr s + 4 * (bits div 32), bit_left := 32 - bits mod 32\<rparr>)"

definition set_put_bits_buffer_size :: "PutBitContext \<Rightarrow> nat \<Rightarrow> PutBitContext option" where
  "set_put_bits_buffer_size s sz =
     (if int sz \<le> INT_MAX div 8 - 32 then Some (s\<lparr>buf_end := sz, pb_size_in_bits := 8 * int sz\<rparr>) else None)"

definition align_put_bits :: "PutBitContext \<Rightarrow> PutBitContext option" where
  "align_put_bits s = put_bits s (bit_left s mod 8) 0"

text \<open>
  \<open>ff_put_string\<close>: the characters of a C string without the final 0. The conversion of \<open>*string\<close> to the word
  extends the sign where \<open>char\<close> is signed; \<open>char_signed\<close> says whether it is.
\<close>

fun put_string_loop :: "bool \<Rightarrow> PutBitContext \<Rightarrow> u8 list \<Rightarrow> PutBitContext option" where
  "put_string_loop char_signed s [] = Some s"
| "put_string_loop char_signed s (c # cs) =
     Option.bind (put_bits s 8 (if char_signed then scast c else ucast c)) (\<lambda>s. put_string_loop char_signed s cs)"

definition ff_put_string :: "bool \<Rightarrow> PutBitContext \<Rightarrow> u8 list \<Rightarrow> bool \<Rightarrow> PutBitContext option" where
  "ff_put_string char_signed s string terminate_string =
     Option.bind (put_string_loop char_signed s string) (\<lambda>s. if terminate_string then put_bits s 8 0 else Some s)"

text \<open>\<open>AV_RB16\<close> at an offset of an object.\<close>

definition rb16 :: "u8 list \<Rightarrow> nat \<Rightarrow> u32 option" where
  "rb16 src i = (if i + 2 \<le> length src then Some (push_bit 8 (ucast (src ! i)) OR ucast (src ! (i + 1))) else None)"

fun copy_words :: "nat \<Rightarrow> nat \<Rightarrow> PutBitContext \<Rightarrow> u8 list \<Rightarrow> PutBitContext option" where
  "copy_words 0 i s src = Some s"
| "copy_words (Suc n) i s src =
     Option.bind (rb16 src (2 * i)) (\<lambda>w. Option.bind (put_bits s 16 w) (\<lambda>s. copy_words n (Suc i) s src))"

text \<open>Whole bytes until the writer is at a multiple of 32 bits; at most four rounds.\<close>

fun copy_align :: "nat \<Rightarrow> nat \<Rightarrow> PutBitContext \<Rightarrow> u8 list \<Rightarrow> (nat \<times> PutBitContext) option" where
  "copy_align 0 i s src = None"
| "copy_align (Suc n) i s src =
     (if put_bits_count s AND 31 \<noteq> 0 then
        (if i < length src
         then Option.bind (put_bits s 8 (ucast (src ! i))) (\<lambda>s. copy_align n (Suc i) s src) else None)
      else Some (i, s))"

definition ff_copy_bits :: "bool \<Rightarrow> PutBitContext \<Rightarrow> u8 list \<Rightarrow> nat \<Rightarrow> PutBitContext option" where
  "ff_copy_bits config_small s src len =
     (let words = len div 16; bits = len mod 16 in
      if len = 0 then Some s
      else if put_bits_left s < int len then None
      else
        Option.bind
          (if config_small \<or> words < 16 \<or> put_bits_count s AND 7 \<noteq> 0 then copy_words words 0 s src
           else
             Option.bind (copy_align 5 0 s src) (\<lambda>(i, s).
             Option.bind (flush_put_bits s) (\<lambda>s.
             Option.bind (load src i (2 * words - i)) (\<lambda>bs.
             Option.bind (store (pb_buf s) (buf_ptr s) bs) (\<lambda>buf.
               skip_put_bytes (s\<lparr>pb_buf := buf\<rparr>) (2 * words - i))))))
          (\<lambda>s. Option.bind (rb16 src (2 * words)) (\<lambda>w. put_bits s bits (drop_bit (16 - bits) w))))"

section \<open>Strings of bits\<close>

text \<open>The low \<open>n\<close> bits of a number, the highest first.\<close>

definition bits_of :: "nat \<Rightarrow> 'a :: semiring_bit_operations \<Rightarrow> bool list" where
  "bits_of n x = map (bit x) (rev [0..<n])"

definition bits_of_bytes :: "u8 list \<Rightarrow> bool list" where
  "bits_of_bytes bs = concat (map (bits_of 8) bs)"

lemma length_bits_of [simp]: "length (bits_of n x) = n"
  by (simp add: bits_of_def)

lemma bits_of_0 [simp]: "bits_of 0 x = []"
  by (simp add: bits_of_def)

lemma nth_bits_of: "i < n \<Longrightarrow> bits_of n x ! i = bit x (n - 1 - i)"
  by (simp add: bits_of_def rev_nth)

lemma length_bits_of_bytes [simp]: "length (bits_of_bytes bs) = 8 * length bs"
  by (induction bs) (simp_all add: bits_of_bytes_def)

lemma bits_of_bytes_append [simp]: "bits_of_bytes (a @ b) = bits_of_bytes a @ bits_of_bytes b"
  by (simp add: bits_of_bytes_def)

lemma bits_of_bytes_simps [simp]: "bits_of_bytes [] = []" "bits_of_bytes (b # bs) = bits_of 8 b @ bits_of_bytes bs"
  by (simp_all add: bits_of_bytes_def)

lemma nth_bits_of_bytes:
  "i < 8 * length bs \<Longrightarrow> bits_of_bytes bs ! i = bit (bs ! (i div 8)) (7 - i mod 8)"
proof (induction bs arbitrary: i)
  case (Cons b bs)
  show ?case
  proof (cases "i < 8")
    case False
    then have "i div 8 = Suc ((i - 8) div 8)" "(i - 8) mod 8 = i mod 8" by (simp_all add: le_div_geq le_mod_geq)
    then show ?thesis using Cons.IH[of "i - 8"] Cons.prems False by (simp add: nth_append)
  qed (simp add: nth_append nth_bits_of)
qed simp

lemma take_bits_of_bytes: "take (8 * n) (bits_of_bytes bs) = bits_of_bytes (take n bs)"
proof (induction bs arbitrary: n)
  case (Cons b bs)
  then show ?case by (cases n) simp_all
qed simp

lemma drop_bits_of_bytes: "drop (8 * n) (bits_of_bytes bs) = bits_of_bytes (drop n bs)"
proof (induction bs arbitrary: n)
  case (Cons b bs)
  then show ?case by (cases n) simp_all
qed simp

lemma bits_of_split: "bits_of (m + n) x = bits_of m (drop_bit n x) @ bits_of n x"
  by (rule nth_equalityI) (auto simp: nth_append nth_bits_of bit_simps add.commute[of n])

lemma bits_of_cong: "(\<And>i. i < n \<Longrightarrow> bit x i = bit y i) \<Longrightarrow> bits_of n x = bits_of n y"
  by (simp add: bits_of_def)

lemma bits_of_push:
  fixes a v :: "'a :: len word"
  assumes "m + n \<le> LENGTH('a)" "take_bit n v = v"
  shows "bits_of (m + n) (push_bit n a OR v) = bits_of m a @ bits_of n v"
proof -
  have v: "\<not> bit v i" if "n \<le> i" for i using that assms(2) by (metis bit_take_bit_iff leD)
  show ?thesis
    using assms(1) by (intro nth_equalityI) (auto simp: nth_append nth_bits_of bit_simps v add.commute[of n])
qed

lemma bits_of_WB32: "bits_of_bytes (AV_WB32 w) = bits_of 32 w"
proof -
  have "bits_of 8 (ucast x :: u8) = bits_of 8 (x :: u32)" for x by (rule bits_of_cong) (simp add: bit_simps)
  then have "bits_of_bytes (AV_WB32 w) = bits_of 8 (drop_bit 24 w) @ bits_of 8 (drop_bit 16 w) @ bits_of 8 (drop_bit 8 w) @ bits_of 8 w"
    by (simp add: AV_WB32_def)
  then show ?thesis
    using bits_of_split[of 8 24 w] bits_of_split[of 8 16 w] bits_of_split[of 8 8 w] by simp
qed

section \<open>The writer appends bits\<close>

definition pb_bits :: "PutBitContext \<Rightarrow> bool list" where
  "pb_bits s = bits_of_bytes (take (buf_ptr s) (pb_buf s)) @ bits_of (32 - bit_left s) (bit_buf s)"

definition pb_ok :: "PutBitContext \<Rightarrow> bool" where
  "pb_ok s \<longleftrightarrow> 0 < bit_left s \<and> bit_left s \<le> 32 \<and> buf_ptr s \<le> buf_end s \<and> buf_end s \<le> length (pb_buf s)"

text \<open>What every operation keeps: the size of the buffer, its end and the bytes behind it.\<close>

definition pb_frame :: "PutBitContext \<Rightarrow> PutBitContext \<Rightarrow> bool" where
  "pb_frame s s' \<longleftrightarrow> length (pb_buf s') = length (pb_buf s) \<and> buf_end s' = buf_end s \<and> pb_size_in_bits s' = pb_size_in_bits s \<and>
     drop (buf_end s) (pb_buf s') = drop (buf_end s) (pb_buf s)"

lemma pb_frame_refl [simp]: "pb_frame s s"
  by (simp add: pb_frame_def)

lemma pb_frame_trans: "pb_frame s t \<Longrightarrow> pb_frame t u \<Longrightarrow> pb_frame s u"
  by (simp add: pb_frame_def)

lemma length_pb_bits: "pb_ok s \<Longrightarrow> length (pb_bits s) = 8 * buf_ptr s + (32 - bit_left s)"
  by (simp add: pb_bits_def pb_ok_def)

text \<open>The contract of one operation that appends \<open>bs\<close>.\<close>

definition appends :: "PutBitContext \<Rightarrow> bool list \<Rightarrow> PutBitContext option \<Rightarrow> bool" where
  "appends s bs r \<longleftrightarrow> (\<exists>s'. r = Some s' \<and> pb_ok s' \<and> pb_bits s' = pb_bits s @ bs \<and> pb_frame s s')"

lemma write_word_ok:
  assumes "pb_ok s" "length (pb_bits s) + n \<le> 8 * buf_end s" "bit_left s \<le> n"
  shows "\<exists>buf. write_word s w = Some (s\<lparr>pb_buf := buf, buf_ptr := buf_ptr s + 4\<rparr>) \<and> length buf = length (pb_buf s) \<and>
    bits_of_bytes (take (buf_ptr s + 4) buf) = bits_of_bytes (take (buf_ptr s) (pb_buf s)) @ bits_of 32 w \<and>
    drop (buf_end s) buf = drop (buf_end s) (pb_buf s) \<and> buf_ptr s + 4 \<le> buf_end s"
proof -
  have e: "buf_ptr s + 4 \<le> buf_end s" using assms by (auto simp: length_pb_bits pb_ok_def)
  then have "has_room s" "buf_ptr s + 4 \<le> length (pb_buf s)" using assms(1) by (auto simp: has_room_def pb_ok_def)
  then show ?thesis
    using e by (auto simp: write_word_def store_def bits_of_WB32 min_def)
qed

lemma put_bits_appends:
  assumes "pb_ok s" "n \<le> 31" "take_bit n v = v" "length (pb_bits s) + n \<le> 8 * buf_end s"
  shows "appends s (bits_of n v) (put_bits s n v)"
proof (cases "n < bit_left s")
  case True
  have "32 - bit_left s + n \<le> 32" "32 - (bit_left s - n) = 32 - bit_left s + n" using True assms(1) by (auto simp: pb_ok_def)
  then have "bits_of (32 - (bit_left s - n)) (push_bit n (bit_buf s) OR v) = bits_of (32 - bit_left s) (bit_buf s) @ bits_of n v"
    using bits_of_push[of "32 - bit_left s" n v "bit_buf s"] assms(3) by simp
  then show ?thesis
    using True assms(1) by (auto simp: appends_def put_bits_def put_bits_no_assert_def pb_ok_def pb_bits_def pb_frame_def)
next
  case False
  define k where "k = n - bit_left s"
  define w where "w = push_bit (bit_left s) (bit_buf s) OR drop_bit k v"
  have b: "bit_left s \<le> 32" "0 < bit_left s" "n = bit_left s + k" "32 - bit_left s + bit_left s = 32" "bit_left s + 32 - n = 32 - k" "k < 32"
    using assms(1,2) False by (auto simp: pb_ok_def k_def)
  have "take_bit (bit_left s) (drop_bit k v) = drop_bit k v"
    using assms(3) b(3) by (metis add.commute take_bit_drop_bit)
  then have w: "bits_of 32 w = bits_of (32 - bit_left s) (bit_buf s) @ bits_of (bit_left s) (drop_bit k v)"
    using bits_of_push[of "32 - bit_left s" "bit_left s" "drop_bit k v" "bit_buf s"] b(4) by (simp add: w_def)
  have n: "bits_of n v = bits_of (bit_left s) (drop_bit k v) @ bits_of k v" unfolding b(3) by (rule bits_of_split)
  obtain buf where "write_word s w = Some (s\<lparr>pb_buf := buf, buf_ptr := buf_ptr s + 4\<rparr>)" "length buf = length (pb_buf s)"
    "bits_of_bytes (take (buf_ptr s + 4) buf) = bits_of_bytes (take (buf_ptr s) (pb_buf s)) @ bits_of 32 w"
    "drop (buf_end s) buf = drop (buf_end s) (pb_buf s)" "buf_ptr s + 4 \<le> buf_end s"
    using write_word_ok[OF assms(1,4), of w] False by auto
  note buf = this
  define s' where "s' = s\<lparr>pb_buf := buf, buf_ptr := buf_ptr s + 4, bit_buf := v, bit_left := 32 - k\<rparr>"
  have "put_bits s n v = Some s'"
    using False buf(1) b(5) by (simp add: put_bits_def put_bits_no_assert_def s'_def flip: k_def w_def)
  moreover have "pb_ok s'" using assms(1) b(6) buf(2,5) by (simp add: pb_ok_def s'_def)
  moreover have "pb_frame s s'" using buf(2,4) by (simp add: pb_frame_def s'_def)
  moreover have "pb_bits s' = pb_bits s @ bits_of n v"
    using b(6) w n by (simp add: pb_bits_def s'_def buf(3))
  ultimately show ?thesis by (auto simp: appends_def)
qed

lemma put_bits32_appends:
  assumes "pb_ok s" "length (pb_bits s) + 32 \<le> 8 * buf_end s"
  shows "appends s (bits_of 32 v) (put_bits32 s v)"
proof -
  define k where "k = 32 - bit_left s"
  define w where "w = push_bit (bit_left s) (bit_buf s) OR drop_bit k v"
  have b: "k + bit_left s = 32" "bit_left s \<le> 32" "0 < bit_left s" "32 - bit_left s = k" using assms(1) by (auto simp: pb_ok_def k_def)
  have "take_bit (bit_left s) (drop_bit k v) = drop_bit k v"
    using b(1) by (intro bit_word_eqI) (auto simp: bit_simps dest: word_lt)
  then have w: "bits_of 32 w = bits_of k (bit_buf s) @ bits_of (bit_left s) (drop_bit k v)"
    using bits_of_push[of k "bit_left s" "drop_bit k v" "bit_buf s"] b(1) by (simp add: w_def)
  have v: "bits_of 32 v = bits_of (bit_left s) (drop_bit k v) @ bits_of k v"
    using bits_of_split[of "bit_left s" k v] b(1) by (simp add: add.commute)
  obtain buf where "write_word s w = Some (s\<lparr>pb_buf := buf, buf_ptr := buf_ptr s + 4\<rparr>)" "length buf = length (pb_buf s)"
    "bits_of_bytes (take (buf_ptr s + 4) buf) = bits_of_bytes (take (buf_ptr s) (pb_buf s)) @ bits_of 32 w"
    "drop (buf_end s) buf = drop (buf_end s) (pb_buf s)" "buf_ptr s + 4 \<le> buf_end s"
    using write_word_ok[OF assms b(2), of w] by auto
  note buf = this
  define s' where "s' = s\<lparr>pb_buf := buf, buf_ptr := buf_ptr s + 4, bit_buf := v\<rparr>"
  have "put_bits32 s v = Some s'" using buf(1) by (simp add: put_bits32_def b(4) s'_def flip: w_def)
  moreover have "pb_ok s'" using assms(1) buf(2,5) by (simp add: pb_ok_def s'_def)
  moreover have "pb_frame s s'" using buf(2,4) by (simp add: pb_frame_def s'_def)
  moreover have "pb_bits s' = pb_bits s @ bits_of 32 v" by (simp add: pb_bits_def s'_def b(4) buf(3) w v)
  ultimately show ?thesis by (auto simp: appends_def)
qed

lemma appends_bind:
  assumes "appends s a r" "\<And>s'. pb_ok s' \<Longrightarrow> pb_bits s' = pb_bits s @ a \<Longrightarrow> buf_end s' = buf_end s \<Longrightarrow> appends s' b (f s')"
  shows "appends s (a @ b) (Option.bind r f)"
proof -
  obtain s' where s': "r = Some s'" "pb_ok s'" "pb_bits s' = pb_bits s @ a" "pb_frame s s'" using assms(1) by (auto simp: appends_def)
  then obtain t where "f s' = Some t" "pb_ok t" "pb_bits t = pb_bits s' @ b" "pb_frame s' t"
    using assms(2)[of s'] by (auto simp: appends_def pb_frame_def)
  then show ?thesis using s' by (auto simp: appends_def intro: pb_frame_trans)
qed

lemma bits_of_ucast: "n \<le> LENGTH('b) \<Longrightarrow> bits_of n (ucast x :: 'b :: len word) = bits_of n (x :: 'a :: len word)"
  by (rule bits_of_cong) (simp add: bit_simps)

lemma put_bits64_appends:
  assumes "pb_ok s" "n \<le> 64" "take_bit n v = v" "length (pb_bits s) + n \<le> 8 * buf_end s"
  shows "appends s (bits_of n v) (put_bits64 s n v)"
proof -
  have lo: "ucast (v AND 0xffffffff) = (ucast v :: u32)"
  proof -
    have "v AND 0xffffffff = take_bit 32 v" by (simp add: take_bit_eq_mask mask_eq_exp_minus_1)
    then show ?thesis by (intro bit_word_eqI) (simp add: bit_simps)
  qed
  have hv: "bit v i \<Longrightarrow> i < n" for i using assms(3) by (metis bit_take_bit_iff)
  consider "n < 32" | "n = 32" | "32 < n" "n < 64" | "n = 64" using assms(2) by linarith
  then show ?thesis
  proof cases
    case 1
    have "take_bit n (ucast v :: u32) = ucast v" by (rule bit_word_eqI) (auto simp: bit_simps dest: hv)
    then show ?thesis
      using put_bits_appends[OF assms(1), of n "ucast v"] assms(4) 1 by (simp add: put_bits64_def bits_of_ucast)
  next
    case 2
    then show ?thesis using put_bits32_appends[OF assms(1), of "ucast v"] assms(4) by (simp add: put_bits64_def bits_of_ucast)
  next
    case 3
    define hi where "hi = (ucast (drop_bit 32 v) :: u32)"
    have "take_bit (n - 32) hi = hi" by (rule bit_word_eqI) (use 3 in \<open>auto simp: bit_simps hi_def dest: hv\<close>)
    then have "appends s (bits_of (n - 32) hi @ bits_of 32 (ucast v :: u32)) (Option.bind (put_bits s (n - 32) hi) (\<lambda>s. put_bits32 s (ucast v)))"
      using assms 3 by (intro appends_bind put_bits_appends put_bits32_appends) auto
    moreover have "bits_of n v = bits_of (n - 32) hi @ bits_of 32 (ucast v :: u32)"
      using bits_of_split[of "n - 32" 32 v] 3 by (simp add: hi_def bits_of_ucast)
    ultimately show ?thesis using 3 by (simp add: put_bits64_def lo flip: hi_def)
  next
    case 4
    define hi where "hi = (ucast (drop_bit 32 v) :: u32)"
    have "appends s (bits_of 32 hi @ bits_of 32 (ucast v :: u32)) (Option.bind (put_bits32 s hi) (\<lambda>s. put_bits32 s (ucast v)))"
      using assms 4 by (intro appends_bind put_bits32_appends) auto
    moreover have "bits_of n v = bits_of 32 hi @ bits_of 32 (ucast v :: u32)"
      using bits_of_split[of 32 32 v] 4 by (simp add: hi_def bits_of_ucast)
    ultimately show ?thesis using 4 by (simp add: put_bits64_def lo flip: hi_def)
  qed
qed

lemma bits_of_byte: "bits_of 8 (ucast (drop_bit 24 w) :: u8) = take 8 (bits_of 32 (w :: u32))"
  by (rule nth_equalityI) (auto simp: nth_bits_of bit_simps)

lemma bits_of_shift: "bits_of 32 (push_bit 8 w) = drop 8 (bits_of 32 (w :: u32)) @ replicate 8 False"
  by (rule nth_equalityI) (auto simp: nth_append nth_bits_of bit_simps)

definition padding :: "nat \<Rightarrow> bool list" where
  "padding n = replicate ((8 - n mod 8) mod 8) False"

lemma pad_byte:
  assumes "length xs \<le> 32" "xs \<noteq> []"
  shows "take 8 (xs @ replicate (32 - length xs) False) @ drop 8 xs @ padding (length (drop 8 xs)) = xs @ padding (length xs)"
proof (cases "8 \<le> length xs")
  case True
  then have "padding (length (drop 8 xs)) = padding (length xs)" by (simp add: padding_def le_mod_geq)
  then show ?thesis using True by (simp flip: append_assoc)
next
  case False
  then show ?thesis using assms by (cases "length xs") (auto simp: padding_def min_def)
qed

lemma flush_loop_ok:
  assumes "buf_ptr s \<le> buf_end s" "buf_end s \<le> length (pb_buf s)" "bits_of 32 (bit_buf s) = xs @ replicate (32 - length xs) False"
    and "length xs = 32 - bit_left s" "8 * buf_ptr s + length xs \<le> 8 * buf_end s"
  shows "\<exists>s'. flush_loop s = Some s' \<and> pb_ok s' \<and> pb_frame s s' \<and> bit_left s' = 32 \<and>
    bits_of_bytes (take (buf_ptr s') (pb_buf s')) = bits_of_bytes (take (buf_ptr s) (pb_buf s)) @ xs @ padding (length xs)"
  using assms
proof (induction s arbitrary: xs rule: flush_loop.induct)
  case (1 s)
  show ?case
  proof (cases "bit_left s < 32")
    case False
    then have "xs = []" using 1(5) by simp
    then show ?thesis using False 1(2,3) by (simp add: flush_loop.simps[of s] pb_ok_def pb_frame_def padding_def)
  next
    case True
    then have ptr: "buf_ptr s < buf_end s" "xs \<noteq> []" using 1(5,6) by auto
    define b where "b = (ucast (drop_bit 24 (bit_buf s)) :: u8)"
    define buf where "buf = take (buf_ptr s) (pb_buf s) @ b # drop (buf_ptr s + 1) (pb_buf s)"
    define s1 where "s1 = s\<lparr>pb_buf := buf, buf_ptr := buf_ptr s + 1, bit_buf := push_bit 8 (bit_buf s), bit_left := bit_left s + 8\<rparr>"
    have st: "store (pb_buf s) (buf_ptr s) [b] = Some buf" using ptr(1) 1(3) by (simp add: store_def buf_def)
    have len: "length buf = length (pb_buf s)" using ptr(1) 1(3) by (simp add: buf_def)
    have x32: "length xs \<le> 32" using 1(5) by simp
    have "bits_of 32 (push_bit 8 (bit_buf s)) = drop 8 xs @ replicate (32 - length (drop 8 xs)) False"
      using 1(4) x32 by (auto simp: bits_of_shift drop_append replicate_add[symmetric])
    moreover have "8 * (buf_ptr s + 1) + length (drop 8 xs) \<le> 8 * buf_end s" using 1(6) ptr(1) by auto
    ultimately obtain s' where s': "flush_loop s1 = Some s'" "pb_ok s'" "pb_frame s1 s'" "bit_left s' = 32"
        "bits_of_bytes (take (buf_ptr s') (pb_buf s')) = bits_of_bytes (take (buf_ptr s1) (pb_buf s1)) @ drop 8 xs @ padding (length (drop 8 xs))"
      using 1(1)[OF True ptr(1) st[unfolded b_def], of "drop 8 xs"] 1(3,5) ptr(1) len by (auto simp: s1_def)
    obtain k where k: "buf_end s = Suc (buf_ptr s + k)" using ptr(1) less_iff_Suc_add by auto
    then have "drop (buf_end s) buf = drop (buf_end s) (pb_buf s)" using 1(3) by (simp add: buf_def add.commute)
    then have "pb_frame s s1" using len by (simp add: pb_frame_def s1_def)
    moreover have "bits_of_bytes (take (buf_ptr s1) (pb_buf s1)) = bits_of_bytes (take (buf_ptr s) (pb_buf s)) @ take 8 (xs @ replicate (32 - length xs) False)"
      using ptr(1) 1(3,4) by (simp add: s1_def buf_def b_def bits_of_byte)
    moreover have "flush_loop s = flush_loop s1"
      using True ptr(1) st by (simp add: flush_loop.simps[of s] s1_def b_def)
    ultimately show ?thesis using s' pad_byte[OF x32 ptr(2)] by (auto intro: pb_frame_trans)
  qed
qed

lemma flush_appends:
  assumes "pb_ok s" "length (pb_bits s) \<le> 8 * buf_end s"
  shows "\<exists>s'. flush_put_bits s = Some s' \<and> pb_ok s' \<and> pb_frame s s' \<and> bit_left s' = 32 \<and>
    bits_of_bytes (take (buf_ptr s') (pb_buf s')) = pb_bits s @ padding (length (pb_bits s))"
proof -
  define xs where "xs = bits_of (32 - bit_left s) (bit_buf s)"
  define s0 where "s0 = (if bit_left s < 32 then s\<lparr>bit_buf := push_bit (bit_left s) (bit_buf s)\<rparr> else s\<lparr>bit_buf := 0\<rparr>)"
  have s0: "buf_ptr s0 = buf_ptr s" "buf_end s0 = buf_end s" "pb_buf s0 = pb_buf s" "bit_left s0 = bit_left s" "pb_frame s0 t \<longleftrightarrow> pb_frame s t" for t
    by (simp_all add: s0_def pb_frame_def)
  have b: "bit_left s \<le> 32" "0 < bit_left s" using assms(1) by (simp_all add: pb_ok_def)
  have "flush_loop (s\<lparr>bit_buf := 0\<rparr>) = flush_loop s" if "\<not> bit_left s < 32" using that by (simp add: flush_loop.simps)
  then have f: "flush_put_bits s = flush_loop s0" by (simp add: flush_put_bits_def s0_def)
  have "bits_of 32 (bit_buf s0) = xs @ replicate (32 - length xs) False"
    using b by (intro nth_equalityI) (auto simp: xs_def s0_def nth_append nth_bits_of bit_simps add.commute[of "bit_left s"])
  moreover have "8 * buf_ptr s0 + length xs \<le> 8 * buf_end s0" using assms b by (simp add: length_pb_bits xs_def s0)
  ultimately obtain s' where s': "flush_loop s0 = Some s'" "pb_ok s'" "pb_frame s0 s'" "bit_left s' = 32"
      "bits_of_bytes (take (buf_ptr s') (pb_buf s')) = bits_of_bytes (take (buf_ptr s0) (pb_buf s0)) @ xs @ padding (length xs)"
    using flush_loop_ok[of s0 xs] assms(1) by (auto simp: xs_def s0 pb_ok_def)
  moreover have "padding (length xs) = padding (length (pb_bits s))"
    using assms(1) by (simp add: padding_def length_pb_bits xs_def)
  ultimately show ?thesis using f by (auto simp: pb_bits_def s0 xs_def)
qed

lemma scast_ascii: "\<not> bit c 7 \<Longrightarrow> (scast (c :: u8) :: u32) = ucast c"
proof -
  assume c: "\<not> bit c 7"
  have "\<not> bit c n" if "7 \<le> n" for n using that c byte_bits[of n c] by (cases "n = 7") auto
  then show ?thesis by (intro bit_word_eqI) (auto simp: bit_simps min_def dest: byte_lt)
qed

lemma put_string_loop_appends:
  "pb_ok s \<Longrightarrow> (char_signed \<longrightarrow> (\<forall>c \<in> set cs. \<not> bit c 7)) \<Longrightarrow> length (pb_bits s) + 8 * length cs \<le> 8 * buf_end s \<Longrightarrow>
     appends s (bits_of_bytes cs) (put_string_loop char_signed s cs)"
proof (induction cs arbitrary: s)
  case (Cons c cs)
  have "take_bit 8 (ucast c :: u32) = ucast c" by (rule bit_word_eqI) (auto simp: bit_simps dest: byte_lt)
  then have "appends s (bits_of 8 (ucast c :: u32)) (put_bits s 8 (ucast c))" using Cons.prems by (intro put_bits_appends) auto
  moreover have "bits_of 8 (ucast c :: u32) = bits_of 8 c" by (simp add: bits_of_ucast)
  moreover have "(if char_signed then scast c else ucast c) = (ucast c :: u32)" using Cons.prems(2) by (simp add: scast_ascii)
  ultimately show ?case using Cons by (auto intro!: appends_bind)
qed (simp add: appends_def)

lemma put_string_appends:
  assumes "pb_ok s" "char_signed \<longrightarrow> (\<forall>c \<in> set cs. \<not> bit c 7)" "length (pb_bits s) + 8 * length cs + (if term then 8 else 0) \<le> 8 * buf_end s"
  shows "appends s (bits_of_bytes (cs @ (if term then [0] else []))) (ff_put_string char_signed s cs term)"
proof -
  have "bits_of 8 (0 :: u32) = bits_of 8 (0 :: u8)" by (rule bits_of_cong) simp
  then have "appends s' (bits_of_bytes (if term then [0] else [])) (if term then put_bits s' 8 0 else Some s')"
    if "pb_ok s'" "pb_bits s' = pb_bits s @ bits_of_bytes cs" "buf_end s' = buf_end s" for s'
    using that assms(3) put_bits_appends[of s' 8 0] by (auto simp: appends_def)
  then show ?thesis
    using assms by (auto simp: ff_put_string_def intro!: appends_bind put_string_loop_appends)
qed

section \<open>Copying bits\<close>

lemma appends_SomeD: "appends s b (Some s') \<Longrightarrow> pb_ok s' \<and> pb_bits s' = pb_bits s @ b \<and> pb_frame s s'"
  by (simp add: appends_def)

lemma appends_frameD: "appends s b r \<Longrightarrow> r = Some s' \<Longrightarrow> buf_end s' = buf_end s"
  by (auto simp: appends_def pb_frame_def)

lemma rb16_bits:
  "i + 2 \<le> length src \<Longrightarrow> \<exists>w. rb16 src i = Some w \<and> take_bit 16 w = w \<and> bits_of 16 w = bits_of_bytes (take 2 (drop i src))"
proof -
  assume i: "i + 2 \<le> length src"
  define w where "w = (push_bit 8 (ucast (src ! i)) OR ucast (src ! (i + 1)) :: u32)"
  have t: "take 2 (drop i src) = [src ! i, src ! (i + 1)]"
    using i by (auto simp: numeral_2_eq_2 take_Suc_conv_app_nth nth_append)
  have b: "take_bit 8 (ucast c :: u32) = ucast c" for c :: u8 by (rule bit_word_eqI) (auto simp: bit_simps dest: byte_lt)
  have "bits_of (8 + 8) w = bits_of 8 (src ! i) @ bits_of 8 (src ! (i + 1))"
    using bits_of_push[of 8 8 "ucast (src ! (i + 1)) :: u32" "ucast (src ! i)"] b by (simp add: w_def bits_of_ucast)
  moreover have "take_bit 16 w = w" by (rule bit_word_eqI) (auto simp: w_def bit_simps dest: byte_lt)
  ultimately show ?thesis using i t by (simp add: rb16_def w_def)
qed

lemma copy_words_appends:
  "pb_ok s \<Longrightarrow> 2 * (i + n) \<le> length src \<Longrightarrow> length (pb_bits s) + 16 * n \<le> 8 * buf_end s \<Longrightarrow>
     appends s (bits_of_bytes (take (2 * n) (drop (2 * i) src))) (copy_words n i s src)"
proof (induction n arbitrary: i s)
  case (Suc n)
  obtain w where w: "rb16 src (2 * i) = Some w" "take_bit 16 w = w" "bits_of 16 w = bits_of_bytes (take 2 (drop (2 * i) src))"
    using rb16_bits[of "2 * i" src] Suc.prems by auto
  have "appends s (bits_of 16 w @ bits_of_bytes (take (2 * n) (drop (2 * Suc i) src)))
      (Option.bind (put_bits s 16 w) (\<lambda>s. copy_words n (Suc i) s src))"
    using Suc.prems w(2) by (intro appends_bind put_bits_appends Suc.IH) auto
  moreover have "take (2 * Suc n) (drop (2 * i) src) = take 2 (drop (2 * i) src) @ take (2 * n) (drop (2 * Suc i) src)"
    using take_add[of 2 "2 * n" "drop (2 * i) src"] by (simp add: add.commute)
  ultimately show ?case using w by simp
qed (simp add: appends_def)

lemma count_correct:
  assumes "pb_ok s" "8 * int (buf_end s) \<le> INT_MAX"
  shows "length (pb_bits s) \<le> 8 * buf_end s + 31" "put_bits_count s = int (length (pb_bits s)) \<or> 8 * buf_end s < length (pb_bits s)"
    "length (pb_bits s) \<le> 8 * buf_end s \<Longrightarrow> put_bits_left s = int (8 * buf_end s) - int (length (pb_bits s))"
proof -
  have l: "int (length (pb_bits s)) = 8 * int (buf_ptr s) + 32 - int (bit_left s)" "bit_left s \<le> 32" "0 < bit_left s" "buf_ptr s \<le> buf_end s"
    using assms(1) by (auto simp: length_pb_bits pb_ok_def of_nat_diff)
  then show "length (pb_bits s) \<le> 8 * buf_end s + 31" by linarith
  show "put_bits_count s = int (length (pb_bits s)) \<or> 8 * buf_end s < length (pb_bits s)"
    using l assms(2) by (cases "length (pb_bits s) \<le> 8 * buf_end s") (auto simp: put_bits_count_def s32_id in_s32_def)
  show "length (pb_bits s) \<le> 8 * buf_end s \<Longrightarrow> put_bits_left s = int (8 * buf_end s) - int (length (pb_bits s))"
    using l assms(2) by (simp add: put_bits_left_def s32_id in_s32_def)
qed

lemma and_mask_mod: "int n AND (2 ^ k - 1) = int (n mod 2 ^ k)"
  using take_bit_eq_mask[of k "int n"] by (simp add: mask_eq_exp_minus_1 take_bit_eq_mod zmod_int)

definition to_word :: "PutBitContext \<Rightarrow> nat" where
  "to_word s = (32 - length (pb_bits s) mod 32) mod 32"

lemma copy_align_appends:
  assumes "pb_ok s" "8 * int (buf_end s) \<le> INT_MAX" "length (pb_bits s) mod 8 = 0" "length (pb_bits s) + to_word s \<le> 8 * buf_end s"
    and "8 * i + to_word s \<le> 8 * length src" "to_word s < 8 * n"
  shows "\<exists>k s'. copy_align n i s src = Some (i + k, s') \<and> 8 * k = to_word s \<and> appends s (bits_of_bytes (take k (drop i src))) (Some s')"
  using assms
proof (induction n arbitrary: i s)
  case (Suc n)
  define l where "l = length (pb_bits s)"
  have "put_bits_count s = int l" using count_correct(2)[OF Suc.prems(1,2)] Suc.prems(4) by (auto simp: l_def)
  then have c: "put_bits_count s AND 31 \<noteq> 0 \<longleftrightarrow> l mod 32 \<noteq> 0" using and_mask_mod[of l 5] by simp
  show ?case
  proof (cases "l mod 32 = 0")
    case True
    then show ?thesis using c Suc.prems(1) by (auto simp: to_word_def l_def appends_def)
  next
    case False
    define q where "q = l div 8"
    have q: "l = 8 * q" using Suc.prems(3) by (auto simp: q_def l_def)
    then have m: "l mod 32 = 8 * (q mod 4)" "(l + 8) mod 32 = 8 * ((q + 1) mod 4)"
      using mod_mult_mult1[of 8 q 4] mod_mult_mult1[of 8 "q + 1" 4] by (simp_all add: add.commute)
    have "q mod 4 \<noteq> 0" "q mod 4 < 4" using False m(1) by simp_all
    then have "q mod 4 = 1 \<or> q mod 4 = 2 \<or> q mod 4 = 3" by linarith
    then have w: "(32 - (l + 8) mod 32) mod 32 + 8 = (32 - l mod 32) mod 32"
      unfolding m by (elim disjE) (simp_all add: mod_Suc)
    have i: "i < length src" using Suc.prems(5) w unfolding to_word_def l_def[symmetric] by linarith
    have "take_bit 8 (ucast (src ! i) :: u32) = ucast (src ! i)" by (rule bit_word_eqI) (auto simp: bit_simps dest: byte_lt)
    then have "appends s (bits_of 8 (ucast (src ! i) :: u32)) (put_bits s 8 (ucast (src ! i)))"
      using Suc.prems w by (intro put_bits_appends) (auto simp: to_word_def l_def)
    then obtain t where t: "put_bits s 8 (ucast (src ! i)) = Some t" "pb_ok t" "pb_bits t = pb_bits s @ bits_of 8 (src ! i)" "pb_frame s t"
      by (auto simp: appends_def bits_of_ucast)
    have tw: "to_word t + 8 = to_word s" "length (pb_bits t) = l + 8" "buf_end t = buf_end s"
      using w t(3,4) by (simp_all add: to_word_def l_def pb_frame_def)
    obtain k s' where k: "copy_align n (Suc i) t src = Some (Suc i + k, s')" "8 * k = to_word t"
        "appends t (bits_of_bytes (take k (drop (Suc i) src))) (Some s')"
      using Suc.IH[of t "Suc i"] Suc.prems t(2) tw by (auto simp: l_def)
    have "copy_align (Suc n) i s src = Some (i + Suc k, s')" using c False i t(1) k(1) by simp
    moreover have "take (Suc k) (drop i src) = src ! i # take k (drop (Suc i) src)" using i by (simp add: Cons_nth_drop_Suc[symmetric])
    then have "appends s (bits_of_bytes (take (Suc k) (drop i src))) (Some s')"
      using k(3) t by (auto simp: appends_def intro: pb_frame_trans)
    ultimately show ?thesis using k(2) tw(1) by (intro exI[of _ "Suc k"]) auto
  qed
qed simp

lemma copy_bytes_appends:
  assumes "pb_ok s" "8 * int (buf_end s) \<le> INT_MAX" "length (pb_bits s) mod 8 = 0" "length (pb_bits s) + 16 * words \<le> 8 * buf_end s"
    and "2 * words \<le> length src" "16 \<le> words"
  shows "appends s (take (16 * words) (bits_of_bytes src))
    (Option.bind (copy_align 5 0 s src) (\<lambda>(i, s). Option.bind (flush_put_bits s) (\<lambda>s. Option.bind (load src i (2 * words - i)) (\<lambda>bs.
      Option.bind (store (pb_buf s) (buf_ptr s) bs) (\<lambda>buf. skip_put_bytes (s\<lparr>pb_buf := buf\<rparr>) (2 * words - i))))))"
proof -
  have "to_word s < 32" by (simp add: to_word_def)
  then obtain k s1 where k: "copy_align 5 0 s src = Some (k, s1)" "8 * k = to_word s" "appends s (bits_of_bytes (take k src)) (Some s1)"
    using copy_align_appends[OF assms(1-3), of 0 src 5] assms(4-6) by auto
  have k32: "k < 4" using k(2) \<open>to_word s < 32\<close> by simp
  have s1: "pb_ok s1" "pb_bits s1 = pb_bits s @ bits_of_bytes (take k src)" "pb_frame s s1" using k(3) by (simp_all add: appends_def)
  have l1: "length (pb_bits s1) = length (pb_bits s) + 8 * k" using s1(2) assms(5,6) k32 by simp
  obtain s2 where s2: "flush_put_bits s1 = Some s2" "pb_ok s2" "pb_frame s1 s2" "bit_left s2 = 32"
      "bits_of_bytes (take (buf_ptr s2) (pb_buf s2)) = pb_bits s1 @ padding (length (pb_bits s1))"
    using flush_appends[OF s1(1)] l1 assms(4-6) k32 s1(3) by (auto simp: pb_frame_def)
  have b2: "bits_of_bytes (take (buf_ptr s2) (pb_buf s2)) = pb_bits s1"
    using s2(5) l1 assms(3) by (simp add: padding_def mod_add_eq[symmetric])
  have "8 * buf_ptr s2 = length (pb_bits s1)" using arg_cong[OF b2, of length] s2(2) by (simp add: pb_ok_def)
  define bs where "bs = take (2 * words - k) (drop k src)"
  have lbs: "length bs = 2 * words - k" using assms(5) by (simp add: bs_def)
  have room: "buf_ptr s2 + length bs \<le> buf_end s2"
    using \<open>8 * buf_ptr s2 = length (pb_bits s1)\<close> l1 lbs assms(4) s1(3) s2(3) k32 assms(6) by (simp add: pb_frame_def)
  define buf where "buf = take (buf_ptr s2) (pb_buf s2) @ bs @ drop (buf_ptr s2 + length bs) (pb_buf s2)"
  have st: "store (pb_buf s2) (buf_ptr s2) bs = Some buf" using room s2(2) by (simp add: store_def buf_def pb_ok_def)
  define s3 where "s3 = s2\<lparr>pb_buf := buf, buf_ptr := buf_ptr s2 + length bs\<rparr>"
  have ld: "load src k (2 * words - k) = Some bs" using assms(5,6) k32 by (simp add: load_def bs_def)
  have "pb_ok s3" using s2(2) room store_length[OF st] by (simp add: pb_ok_def s3_def)
  moreover have "pb_frame s2 s3"
  proof -
    obtain m where m: "buf_end s2 = buf_ptr s2 + length bs + m" using room le_Suc_ex by auto
    have "drop (buf_end s2) buf = drop (buf_end s2) (pb_buf s2)" unfolding m using s2(2) m by (simp add: buf_def pb_ok_def add.commute)
    then show ?thesis using store_length[OF st] by (simp add: pb_frame_def s3_def)
  qed
  moreover have "pb_bits s3 = pb_bits s1 @ bits_of_bytes bs"
    using s2(2,4) room b2 by (simp add: pb_bits_def s3_def buf_def pb_ok_def)
  moreover have "take k src @ bs = take (2 * words) src" using take_add[of k "2 * words - k" src] assms(6) k32 by (simp add: bs_def)
  then have "bits_of_bytes (take k src) @ bits_of_bytes bs = take (16 * words) (bits_of_bytes src)"
    using take_bits_of_bytes[of "2 * words" src] by (simp flip: bits_of_bytes_append)
  moreover have skip: "skip_put_bytes (s2\<lparr>pb_buf := buf\<rparr>) (2 * words - k) = Some s3"
    using room lbs by (simp add: skip_put_bytes_def s3_def)
  ultimately have "appends s (take (16 * words) (bits_of_bytes src)) (Some s3)"
    using s1(2,3) s2(3) unfolding appends_def by (metis append.assoc pb_frame_trans)
  moreover have "Option.bind (copy_align 5 0 s src) (\<lambda>(i, s). Option.bind (flush_put_bits s) (\<lambda>s. Option.bind (load src i (2 * words - i)) (\<lambda>bs.
      Option.bind (store (pb_buf s) (buf_ptr s) bs) (\<lambda>buf. skip_put_bytes (s\<lparr>pb_buf := buf\<rparr>) (2 * words - i))))) = Some s3"
    by (simp only: k(1) s2(1) ld st skip Option.bind.bind_lunit prod.case)
  ultimately show ?thesis by simp
qed

text \<open>Both ways copy exactly \<open>len\<close> bits. The last access reads two bytes whatever is left.\<close>

lemma copy_bits_appends:
  assumes "pb_ok s" "8 * int (buf_end s) \<le> INT_MAX" "2 * (len div 16) + 2 \<le> length src" "length (pb_bits s) + len \<le> 8 * buf_end s"
  shows "appends s (take len (bits_of_bytes src)) (ff_copy_bits config_small s src len)"
proof -
  define words bits where "words = len div 16" and "bits = len mod 16"
  have len: "len = 16 * words + bits" "bits < 16" by (simp_all add: words_def bits_def)
  obtain w where w: "rb16 src (2 * words) = Some w" "take_bit 16 w = w" "bits_of 16 w = bits_of_bytes (take 2 (drop (2 * words) src))"
    using rb16_bits[of "2 * words" src] assms(3) by (auto simp: words_def)
  have "take_bit bits (drop_bit (16 - bits) w) = drop_bit (16 - bits) w"
    using w(2) len(2) take_bit_drop_bit[of bits "16 - bits" w] by simp
  note dw = this
  have "bits_of bits (drop_bit (16 - bits) w) = take bits (bits_of 16 w)"
    using bits_of_split[of bits "16 - bits" w] len(2) by simp
  also have "\<dots> = take bits (drop (16 * words) (bits_of_bytes src))"
  proof -
    have "bits_of 16 w = take 16 (drop (16 * words) (bits_of_bytes src))"
      using drop_bits_of_bytes[of "2 * words" src] take_bits_of_bytes[of 2 "drop (2 * words) src"] by (simp add: w(3))
    then show ?thesis using len(2) by (simp add: min_def)
  qed
  finally have tail: "bits_of bits (drop_bit (16 - bits) w) = take bits (drop (16 * words) (bits_of_bytes src))" .
  define f where "f = (if config_small \<or> words < 16 \<or> put_bits_count s AND 7 \<noteq> 0 then copy_words words 0 s src
    else Option.bind (copy_align 5 0 s src) (\<lambda>(i, s). Option.bind (flush_put_bits s) (\<lambda>s. Option.bind (load src i (2 * words - i)) (\<lambda>bs.
      Option.bind (store (pb_buf s) (buf_ptr s) bs) (\<lambda>buf. skip_put_bytes (s\<lparr>pb_buf := buf\<rparr>) (2 * words - i))))))"
  have f: "appends s (take (16 * words) (bits_of_bytes src)) f"
  proof (cases "config_small \<or> words < 16 \<or> put_bits_count s AND 7 \<noteq> 0")
    case True
    have "2 * words \<le> length src" "length (pb_bits s) + 16 * words \<le> 8 * buf_end s"
      using assms(3,4) len(1) by (simp_all flip: words_def)
    then show ?thesis
      using copy_words_appends[OF assms(1), of 0 words src] True take_bits_of_bytes[of "2 * words" src] by (simp add: f_def)
  next
    case False
    have "put_bits_count s = int (length (pb_bits s))" using count_correct(2)[OF assms(1,2)] assms(4) by auto
    then have "length (pb_bits s) mod 8 = 0" using False and_mask_mod[of "length (pb_bits s)" 3] by simp
    moreover have "2 * words \<le> length src" "length (pb_bits s) + 16 * words \<le> 8 * buf_end s"
      using assms(3,4) len(1) by (simp_all flip: words_def)
    ultimately show ?thesis using copy_bytes_appends[OF assms(1,2), of words src] False by (simp add: f_def)
  qed
  have "appends s (take (16 * words) (bits_of_bytes src) @ take bits (drop (16 * words) (bits_of_bytes src)))
      (Option.bind f (\<lambda>s. put_bits s bits (drop_bit (16 - bits) w)))"
    unfolding tail[symmetric] using assms dw len by (intro appends_bind[OF f] put_bits_appends) auto
  moreover have "take (16 * words) (bits_of_bytes src) @ take bits (drop (16 * words) (bits_of_bytes src)) = take len (bits_of_bytes src)"
    unfolding len(1) by (rule take_add[symmetric])
  moreover have "ff_copy_bits config_small s src len = Option.bind f (\<lambda>s. put_bits s bits (drop_bit (16 - bits) w))" if "len \<noteq> 0"
    using that assms count_correct(3)[OF assms(1,2)] w(1)
    by (simp add: ff_copy_bits_def Let_def f_def flip: words_def bits_def)
  ultimately show ?thesis using assms(1) by (cases "len = 0") (auto simp: appends_def ff_copy_bits_def)
qed

text \<open>A string of the bit writer's output is appended whole, with its final zero if asked for, whenever it fits and
  either characters are unsigned or the string is plain ASCII. Where characters are signed and a byte is 0x80 or more,
  the extended sign is stored over the bits written before: after a zero bit, the byte 0x80 is written as 1 1000 0000.\<close>

theorem put_string_correct:
  "(\<forall>char_signed s cs term. pb_ok s \<and> (char_signed \<longrightarrow> (\<forall>c \<in> set cs. \<not> bit c 7)) \<and>
      length (pb_bits s) + 8 * length cs + (if term then 8 else 0) \<le> 8 * buf_end s \<longrightarrow>
      appends s (bits_of_bytes (cs @ (if term then [0] else []))) (ff_put_string char_signed s cs term)) \<and>
   map_option pb_bits (Option.bind (put_bits (init_put_bits (replicate 8 0) 8) 1 0) (\<lambda>s. ff_put_string True s [0x80] False)) =
     Some [True, True, False, False, False, False, False, False, False]"
proof (intro conjI allI impI)
  show "appends s (bits_of_bytes (cs @ (if term then [0] else []))) (ff_put_string char_signed s cs term)"
    if "pb_ok s \<and> (char_signed \<longrightarrow> (\<forall>c \<in> set cs. \<not> bit c 7)) \<and> length (pb_bits s) + 8 * length cs + (if term then 8 else 0) \<le> 8 * buf_end s"
    for char_signed s cs "term"
    using that by (intro put_string_appends) auto
qed code_simp

text \<open>\<open>put_string_correct\<close> on the string "FF" with its final zero, into a writer that holds one bit.\<close>

lemma put_string_correct_witness:
  "\<exists>s. pb_bits s = [True] \<and> appends s (bits_of_bytes [0x46, 0x46, 0]) (ff_put_string True s [0x46, 0x46] True)"
proof -
  define s where "s = (init_put_bits (replicate 8 0) 8)\<lparr>bit_buf := 1, bit_left := 31\<rparr>"
  have "pb_ok s" "pb_bits s = [True]" "buf_end s = 8" by (simp_all add: s_def init_put_bits_def pb_ok_def pb_bits_def bits_of_def)
  moreover have "\<not> bit (0x46 :: u8) 7" by code_simp
  ultimately show ?thesis
    using conjunct1[OF put_string_correct, rule_format, of s True "[0x46, 0x46]" True] by (intro exI[of _ s]) auto
qed

text \<open>Copying \<open>len\<close> bits appends the first \<open>len\<close> bits of the source, whether they go in words of 16 bits (small
  builds, short runs and unaligned writers) or, after bytes up to the next word, with one block copy. The source must
  hold two bytes after its last whole word even when no bit of them is wanted.\<close>

theorem copy_bits_correct:
  assumes "pb_ok s" "8 * int (buf_end s) \<le> INT_MAX" "2 * (len div 16) + 2 \<le> length src" "length (pb_bits s) + len \<le> 8 * buf_end s"
  shows "appends s (take len (bits_of_bytes src)) (ff_copy_bits config_small s src len)"
  using assms by (rule copy_bits_appends)

text \<open>\<open>copy_bits_correct\<close> on 300 bits behind a written byte, which takes the block copy.\<close>

lemma copy_bits_correct_witness:
  "\<exists>s. pb_bits s = [True, False, False, False, False, False, False, False] \<and>
     appends s (take 300 (bits_of_bytes (replicate 38 0x55))) (ff_copy_bits False s (replicate 38 0x55) 300)"
proof -
  define s where "s = (init_put_bits (replicate 48 0) 48)\<lparr>bit_buf := 128, bit_left := 24\<rparr>"
  have s: "pb_ok s" "buf_end s = 48" by (simp_all add: s_def init_put_bits_def pb_ok_def)
  have "pb_bits s = [True, False, False, False, False, False, False, False]"
    unfolding s_def by code_simp
  then show ?thesis using copy_bits_correct[of s 300 "replicate 38 0x55" False] s by (intro exI[of _ s]) auto
qed

end
