(* ===== verification/GetBits.thy ===== *)
theory GetBits
  imports PutBits
begin

text \<open>
  The bit reader of libavcodec/get_bits.h as most decoders build it: big-endian, without a cache between calls and
  with the checks of the index. The buffer is the whole object behind the pointer, padding included; a read outside it
  is \<open>None\<close>. The local copies the macros keep of the index are the fields themselves. \<open>NEG_USR32\<close>, \<open>NEG_SSR32\<close> and
  \<open>sign_extend\<close> are those of mathops.h; the asserts of level 2 are compiled out.
\<close>

section \<open>Operations\<close>

record GetBitContext =
  gb_buffer :: "u8 list"
  gb_index :: nat
  size_in_bits :: nat
  size_in_bits_plus8 :: nat

definition MIN_CACHE_BITS :: nat where "MIN_CACHE_BITS = 25"

definition AV_INPUT_BUFFER_PADDING_SIZE :: nat where "AV_INPUT_BUFFER_PADDING_SIZE = 64"

definition NEG_USR32 :: "u32 \<Rightarrow> nat \<Rightarrow> u32" where
  "NEG_USR32 a s = drop_bit (32 - s) a"

definition NEG_SSR32 :: "u32 \<Rightarrow> nat \<Rightarrow> int" where
  "NEG_SSR32 a s = sint a div 2 ^ (32 - s)"

definition sign_extend :: "u32 \<Rightarrow> nat \<Rightarrow> int" where
  "sign_extend val bits = sint (push_bit (32 - bits) val) div 2 ^ (32 - bits)"

definition UPDATE_CACHE :: "GetBitContext \<Rightarrow> u32 option" where
  "UPDATE_CACHE s =
     map_option (\<lambda>b. push_bit (gb_index s mod 8) (AV_RB32 b)) (load (gb_buffer s) (gb_index s div 8) 4)"

definition SKIP_COUNTER :: "GetBitContext \<Rightarrow> int \<Rightarrow> GetBitContext" where
  "SKIP_COUNTER s n =
     s\<lparr>gb_index := nat (min (int (size_in_bits_plus8 s)) (u32_of (int (gb_index s) + n)))\<rparr>"

definition get_bits_count :: "GetBitContext \<Rightarrow> int" where
  "get_bits_count s = int (gb_index s)"

definition get_bits_left :: "GetBitContext \<Rightarrow> int" where
  "get_bits_left s = int (size_in_bits s) - get_bits_count s"

definition skip_bits_long :: "GetBitContext \<Rightarrow> int \<Rightarrow> GetBitContext" where
  "skip_bits_long s n =
     (let i = int (gb_index s); k = clip (- i) (int (size_in_bits_plus8 s) - i) n in s\<lparr>gb_index := nat (i + k)\<rparr>)"

definition get_xbits :: "GetBitContext \<Rightarrow> nat \<Rightarrow> (int \<times> GetBitContext) option" where
  "get_xbits s n =
     Option.bind (UPDATE_CACHE s) (\<lambda>cache.
       let sign = (if bit cache 31 then 0 else - 1 :: u32); v = NEG_USR32 (sign XOR cache) n
       in Some (sint ((v XOR sign) - sign), SKIP_COUNTER s (int n)))"

definition get_sbits :: "GetBitContext \<Rightarrow> nat \<Rightarrow> (int \<times> GetBitContext) option" where
  "get_sbits s n = Option.bind (UPDATE_CACHE s) (\<lambda>cache. Some (NEG_SSR32 cache n, SKIP_COUNTER s (int n)))"

definition get_bits :: "GetBitContext \<Rightarrow> nat \<Rightarrow> (u32 \<times> GetBitContext) option" where
  "get_bits s n = Option.bind (UPDATE_CACHE s) (\<lambda>cache. Some (NEG_USR32 cache n, SKIP_COUNTER s (int n)))"

definition get_bitsz :: "GetBitContext \<Rightarrow> nat \<Rightarrow> (u32 \<times> GetBitContext) option" where
  "get_bitsz s n = (if n \<noteq> 0 then get_bits s n else Some (0, s))"

definition show_bits :: "GetBitContext \<Rightarrow> nat \<Rightarrow> u32 option" where
  "show_bits s n = map_option (\<lambda>cache. NEG_USR32 cache n) (UPDATE_CACHE s)"

definition skip_bits :: "GetBitContext \<Rightarrow> int \<Rightarrow> GetBitContext" where
  "skip_bits s n = SKIP_COUNTER s n"

definition get_bits1 :: "GetBitContext \<Rightarrow> (u8 \<times> GetBitContext) option" where
  "get_bits1 s =
     map_option (\<lambda>b. (drop_bit 7 (push_bit (gb_index s mod 8) (hd b)),
         if gb_index s < size_in_bits_plus8 s then s\<lparr>gb_index := gb_index s + 1\<rparr> else s))
       (load (gb_buffer s) (gb_index s div 8) 1)"

definition show_bits1 :: "GetBitContext \<Rightarrow> u32 option" where
  "show_bits1 s = show_bits s 1"

definition skip_bits1 :: "GetBitContext \<Rightarrow> GetBitContext" where
  "skip_bits1 s = skip_bits s 1"

definition get_bits_long :: "GetBitContext \<Rightarrow> nat \<Rightarrow> (u32 \<times> GetBitContext) option" where
  "get_bits_long s n =
     (if n = 0 then Some (0, s)
      else if n \<le> MIN_CACHE_BITS then get_bits s n
      else Option.bind (get_bits s 16) (\<lambda>(v, s). Option.bind (get_bits s (n - 16)) (\<lambda>(w, s).
        Some (push_bit (n - 16) v OR w, s))))"

definition get_bits64 :: "GetBitContext \<Rightarrow> nat \<Rightarrow> (u64 \<times> GetBitContext) option" where
  "get_bits64 s n =
     (if n \<le> 32 then map_option (\<lambda>(v, s). (ucast v, s)) (get_bits_long s n)
      else Option.bind (get_bits_long s (n - 32)) (\<lambda>(v, s). Option.bind (get_bits_long s 32) (\<lambda>(w, s).
        Some (push_bit 32 (ucast v) OR ucast w, s))))"

definition get_sbits_long :: "GetBitContext \<Rightarrow> nat \<Rightarrow> (int \<times> GetBitContext) option" where
  "get_sbits_long s n =
     (if n = 0 then Some (0, s) else map_option (\<lambda>(v, s). (sign_extend v n, s)) (get_bits_long s n))"

definition show_bits_long :: "GetBitContext \<Rightarrow> nat \<Rightarrow> u32 option" where
  "show_bits_long s n =
     (if n \<le> MIN_CACHE_BITS then show_bits s n else map_option fst (get_bits_long s n))"

definition check_marker :: "GetBitContext \<Rightarrow> (u8 \<times> GetBitContext) option" where
  "check_marker s = get_bits1 s"

text \<open>\<open>buffer\<close> is \<open>None\<close> for a null pointer.\<close>

definition init_get_bits_xe :: "u8 list option \<Rightarrow> int \<Rightarrow> int \<times> GetBitContext" where
  "init_get_bits_xe buffer bit_size =
     (if bit_size \<ge> INT_MAX - max 7 (int AV_INPUT_BUFFER_PADDING_SIZE * 8) \<or> bit_size < 0 \<or> buffer = None
      then (AVERROR_INVALIDDATA, \<lparr>gb_buffer = [], gb_index = 0, size_in_bits = 0, size_in_bits_plus8 = 8\<rparr>)
      else (0, \<lparr>gb_buffer = the buffer, gb_index = 0, size_in_bits = nat bit_size, size_in_bits_plus8 = nat bit_size + 8\<rparr>))"

definition init_get_bits :: "u8 list option \<Rightarrow> int \<Rightarrow> int \<times> GetBitContext" where
  "init_get_bits buffer bit_size = init_get_bits_xe buffer bit_size"

definition init_get_bits8 :: "u8 list option \<Rightarrow> int \<Rightarrow> int \<times> GetBitContext" where
  "init_get_bits8 buffer byte_size =
     (let byte_size = (if byte_size > INT_MAX div 8 \<or> byte_size < 0 then - 1 else byte_size)
      in init_get_bits buffer (byte_size * 8))"

text \<open>The result is the offset of the next byte.\<close>

definition align_get_bits :: "GetBitContext \<Rightarrow> nat \<times> GetBitContext" where
  "align_get_bits s =
     (let n = nat (- get_bits_count s mod 8); s = (if n \<noteq> 0 then skip_bits s (int n) else s) in (gb_index s div 8, s))"

definition decode012 :: "GetBitContext \<Rightarrow> (int \<times> GetBitContext) option" where
  "decode012 s =
     Option.bind (get_bits1 s) (\<lambda>(n, s).
       if n = 0 then Some (0, s) else map_option (\<lambda>(b, s). (uint b + 1, s)) (get_bits1 s))"

definition decode210 :: "GetBitContext \<Rightarrow> (int \<times> GetBitContext) option" where
  "decode210 s =
     Option.bind (get_bits1 s) (\<lambda>(n, s).
       if n \<noteq> 0 then Some (0, s) else map_option (\<lambda>(b, s). (2 - uint b, s)) (get_bits1 s))"

text \<open>The loop ends because the index moves; not ending and a read outside the object are both \<open>None\<close>.\<close>

partial_function (option) skip_stop_loop :: "GetBitContext \<Rightarrow> (int \<times> GetBitContext) option" where
  "skip_stop_loop s =
     Option.bind (get_bits1 s) (\<lambda>(b, s).
       if b = 0 then Some (0, s)
       else let s = skip_bits s 8 in
         if get_bits_left s \<le> 0 then Some (AVERROR_INVALIDDATA, s) else skip_stop_loop s)"

declare skip_stop_loop.simps [code]

definition skip_1stop_8data_bits :: "GetBitContext \<Rightarrow> (int \<times> GetBitContext) option" where
  "skip_1stop_8data_bits s =
     (if get_bits_left s \<le> 0 then Some (AVERROR_INVALIDDATA, s) else skip_stop_loop s)"

section \<open>The string of bits that is left\<close>

text \<open>What the documentation asks of the caller: the object holds the stated bits and the padding.\<close>

definition gb_ok :: "GetBitContext \<Rightarrow> bool" where
  "gb_ok s \<longleftrightarrow> size_in_bits_plus8 s = size_in_bits s + 8 \<and> gb_index s \<le> size_in_bits_plus8 s \<and>
     int (size_in_bits s) < INT_MAX - 512 \<and> (size_in_bits s + 7) div 8 + AV_INPUT_BUFFER_PADDING_SIZE \<le> length (gb_buffer s)"

definition gb_rest :: "GetBitContext \<Rightarrow> bool list" where
  "gb_rest s = drop (gb_index s) (bits_of_bytes (gb_buffer s))"

text \<open>The next context after \<open>n\<close> bits: the index stops eight bits behind the end.\<close>

definition gb_skip :: "nat \<Rightarrow> GetBitContext \<Rightarrow> GetBitContext" where
  "gb_skip n s = s\<lparr>gb_index := min (size_in_bits_plus8 s) (gb_index s + n)\<rparr>"

lemma gb_skip_0 [simp]: "gb_ok s \<Longrightarrow> gb_skip 0 s = s"
  by (simp add: gb_skip_def gb_ok_def)

lemma gb_skip_skip: "gb_skip m (gb_skip n s) = gb_skip (n + m) s"
  by (simp add: gb_skip_def add.assoc)

lemma gb_skip_ok [simp]: "gb_ok s \<Longrightarrow> gb_ok (gb_skip n s)"
  by (simp add: gb_ok_def gb_skip_def)

lemma gb_skip_fields [simp]:
  "size_in_bits (gb_skip n s) = size_in_bits s" "size_in_bits_plus8 (gb_skip n s) = size_in_bits_plus8 s"
  "gb_buffer (gb_skip n s) = gb_buffer s" "gb_index (gb_skip n s) = min (size_in_bits_plus8 s) (gb_index s + n)"
  by (simp_all add: gb_skip_def)

lemma SKIP_COUNTER_eq:
  assumes "gb_ok s" "n \<le> 64"
  shows "SKIP_COUNTER s (int n) = gb_skip n s"
proof -
  have "u32_of (int (gb_index s) + int n) = int (gb_index s + n)"
    using assms by (simp add: gb_ok_def u32_of_id)
  then show ?thesis by (simp add: SKIP_COUNTER_def gb_skip_def flip: of_nat_min)
qed

lemma skip_bits_long_eq: "gb_ok s \<Longrightarrow> skip_bits_long s (int n) = gb_skip n s"
  by (auto simp: skip_bits_long_def gb_skip_def clip_def Let_def gb_ok_def intro!: arg_cong[where f = "\<lambda>i. s\<lparr>gb_index := i\<rparr>"])

lemma word_of_bits: "\<exists>w :: u32. bits_of 32 w = bits_of_bytes b" if "length b = 4" for b :: "u8 list"
  using bits_of_WB32[of "AV_RB32 b"] that by auto

lemma bits_of_RB32: "length b = 4 \<Longrightarrow> bits_of 32 (AV_RB32 b) = bits_of_bytes b"
  using bits_of_WB32[of "AV_RB32 b"] by simp

text \<open>The cache holds the next 25 bits or more at its top.\<close>

lemma update_cache_ok:
  assumes "gb_ok s"
  shows "\<exists>c. UPDATE_CACHE s = Some c \<and> take 25 (bits_of 32 c) = take 25 (gb_rest s) \<and> 32 \<le> length (gb_rest s)"
proof -
  define i k where "i = gb_index s div 8" and "k = gb_index s mod 8"
  have ik: "gb_index s = 8 * i + k" "k < 8" by (simp_all add: i_def k_def)
  have len: "i + 8 \<le> length (gb_buffer s)"
    using assms ik unfolding gb_ok_def AV_INPUT_BUFFER_PADDING_SIZE_def by linarith
  define b where "b = take 4 (drop i (gb_buffer s))"
  have b: "load (gb_buffer s) i 4 = Some b" "length b = 4" using len by (simp_all add: load_def b_def)
  have "gb_rest s = drop k (drop (8 * i) (bits_of_bytes (gb_buffer s)))" by (simp add: gb_rest_def ik add.commute)
  also have "\<dots> = drop k (bits_of_bytes (drop i (gb_buffer s)))" by (simp add: drop_bits_of_bytes)
  finally have rest: "gb_rest s = drop k (bits_of_bytes (drop i (gb_buffer s)))" .
  have "take 32 (bits_of_bytes (drop i (gb_buffer s))) = bits_of_bytes b"
    using take_bits_of_bytes[of 4] by (simp add: b_def)
  then have "take (32 - k) (gb_rest s) = drop k (bits_of_bytes b)" using ik(2) by (simp add: rest take_drop)
  then have "take 25 (take (32 - k) (gb_rest s)) = take 25 (drop k (bits_of_bytes b))" by simp
  then have "take 25 (gb_rest s) = take 25 (drop k (bits_of_bytes b))" using ik(2) by (simp add: min_absorb1)
  moreover have "take 25 (bits_of 32 (push_bit k (AV_RB32 b))) = take 25 (drop k (bits_of_bytes b))"
    unfolding bits_of_RB32[OF b(2), symmetric] using ik(2) by (intro nth_equalityI) (auto simp: nth_bits_of bit_simps add.commute[of k])
  moreover have "32 \<le> length (gb_rest s)" using len ik(2) by (simp add: rest)
  ultimately show ?thesis using b(1) by (simp add: UPDATE_CACHE_def flip: i_def k_def)
qed

text \<open>\<open>v\<close> is the number the next \<open>n\<close> bits spell.\<close>

definition next_bits :: "nat \<Rightarrow> 'a :: len word \<Rightarrow> bool list \<Rightarrow> bool" where
  "next_bits n v bs \<longleftrightarrow> n \<le> length bs \<and> take_bit n v = v \<and> bits_of n v = take n bs"

lemma bits_of_inject: "take_bit n v = v \<Longrightarrow> take_bit n w = w \<Longrightarrow> bits_of n v = bits_of n w \<Longrightarrow> v = (w :: 'a :: len word)"
proof -
  assume a: "take_bit n v = v" "take_bit n w = w" "bits_of n v = bits_of n w"
  have "bit v i = bit w i" if "i < n" for i
    using arg_cong[OF a(3), of "\<lambda>xs. xs ! (n - 1 - i)"] that by (simp add: nth_bits_of)
  then have "take_bit n v = take_bit n w" by (intro bit_word_eqI) (auto simp: bit_simps)
  then show "v = w" using a(1,2) by simp
qed

lemma next_bits_unique: "next_bits n v bs \<Longrightarrow> next_bits n w bs \<Longrightarrow> v = w"
  unfolding next_bits_def by (blast intro: bits_of_inject dest: trans sym)

lemma next_bits_written: "take_bit n v = v \<Longrightarrow> next_bits n v (bits_of n v @ bs)"
  by (simp add: next_bits_def)

lemma next_bits_0 [simp]: "next_bits 0 v bs \<longleftrightarrow> v = 0"
  by (auto simp: next_bits_def)

lemma bits_of_top: "n \<le> 32 \<Longrightarrow> bits_of n (drop_bit (32 - n) c) = take n (bits_of 32 (c :: u32))"
  by (rule nth_equalityI) (auto simp: nth_bits_of bit_simps)

lemma next_bits_top:
  assumes "take 25 (bits_of 32 c) = take 25 bs" "25 \<le> length bs" "n \<le> 25"
  shows "next_bits n (NEG_USR32 c n) bs"
proof -
  have "take_bit n (drop_bit (32 - n) c) = drop_bit (32 - n) c"
    using assms(3) by (intro bit_word_eqI) (auto simp: bit_simps dest: word_lt)
  moreover have "take n (bits_of 32 c) = take n bs"
    using arg_cong[OF assms(1), of "take n"] assms(3) by (simp add: min_def)
  ultimately show ?thesis using assms(2,3) by (simp add: next_bits_def NEG_USR32_def bits_of_top)
qed

lemma get_bits_ok:
  assumes "gb_ok s" "n \<le> 25"
  shows "\<exists>v. get_bits s n = Some (v, gb_skip n s) \<and> show_bits s n = Some v \<and> next_bits n v (gb_rest s)"
proof -
  obtain c where c: "UPDATE_CACHE s = Some c" "take 25 (bits_of 32 c) = take 25 (gb_rest s)" "32 \<le> length (gb_rest s)"
    using update_cache_ok[OF assms(1)] by auto
  then have "next_bits n (NEG_USR32 c n) (gb_rest s)" using assms(2) by (intro next_bits_top) auto
  then show ?thesis using c(1) SKIP_COUNTER_eq[OF assms(1), of n] assms(2) by (simp add: get_bits_def show_bits_def)
qed

lemma gb_rest_skip: "gb_index s + n \<le> size_in_bits_plus8 s \<Longrightarrow> gb_rest (gb_skip n s) = drop n (gb_rest s)"
  by (simp add: gb_rest_def add.commute min_def)

lemma next_bits_append:
  fixes v w :: "'a :: len word"
  assumes "next_bits m v bs" "next_bits n w (drop m bs)" "m + n \<le> LENGTH('a)"
  shows "next_bits (m + n) (push_bit n v OR w) bs"
proof -
  have b: "\<And>i. bit v i \<Longrightarrow> i < m" "\<And>i. bit w i \<Longrightarrow> i < n"
    using assms(1,2) unfolding next_bits_def by (metis bit_take_bit_iff)+
  have "take_bit (m + n) (push_bit n v OR w) = push_bit n v OR w"
    using assms(3) by (intro bit_word_eqI) (auto simp: bit_simps dest: b)
  moreover have "m + n \<le> length bs" using assms(1,2) unfolding next_bits_def by auto
  ultimately show ?thesis
    using assms bits_of_push[of m n w v] by (simp add: next_bits_def take_add)
qed

lemma next_bits_ucast:
  assumes "next_bits n v bs" "n \<le> LENGTH('b)"
  shows "next_bits n (ucast (v :: 'a :: len word) :: 'b :: len word) bs"
proof -
  have b: "bit v i \<Longrightarrow> i < n" for i using assms(1) unfolding next_bits_def by (metis bit_take_bit_iff)
  have "take_bit n (ucast v :: 'b word) = ucast v" by (intro bit_word_eqI) (auto simp: bit_simps dest: b)
  then show ?thesis using assms by (simp add: next_bits_def bits_of_ucast)
qed

text \<open>No read leaves the object, whatever the index; the bits are the next ones while the index is not cut off.\<close>

lemma get_bits_long_ok:
  assumes "gb_ok s" "n \<le> 32"
  shows "\<exists>v. get_bits_long s n = Some (v, gb_skip n s) \<and> show_bits_long s n = Some v \<and>
    (gb_index s + n \<le> size_in_bits_plus8 s \<longrightarrow> next_bits n v (gb_rest s))"
proof -
  consider "n = 0" | "0 < n" "n \<le> 25" | "25 < n" by linarith
  then show ?thesis
  proof cases
    case 1
    then show ?thesis using get_bits_ok[OF assms(1), of 0] assms(1) by (auto simp: get_bits_long_def show_bits_long_def MIN_CACHE_BITS_def)
  next
    case 2
    then show ?thesis using get_bits_ok[OF assms(1), of n] by (auto simp: get_bits_long_def show_bits_long_def MIN_CACHE_BITS_def)
  next
    case 3
    obtain v where v: "get_bits s 16 = Some (v, gb_skip 16 s)" "next_bits 16 v (gb_rest s)"
      using get_bits_ok[OF assms(1), of 16] by auto
    obtain w where w: "get_bits (gb_skip 16 s) (n - 16) = Some (w, gb_skip n s)" "next_bits (n - 16) w (gb_rest (gb_skip 16 s))"
      using get_bits_ok[OF gb_skip_ok[OF assms(1)], of "n - 16" 16] assms(2) 3 by (auto simp: gb_skip_skip le_diff_conv)
    have "next_bits n (push_bit (n - 16) v OR w) (gb_rest s)" if "gb_index s + n \<le> size_in_bits_plus8 s"
      using next_bits_append[OF v(2), of "n - 16" w] w(2) that 3 assms(2) by (simp add: gb_rest_skip)
    then show ?thesis using 3 v(1) w(1) by (auto simp: get_bits_long_def show_bits_long_def MIN_CACHE_BITS_def)
  qed
qed

lemma get_bits64_ok:
  assumes "gb_ok s" "n \<le> 64"
  shows "\<exists>v. get_bits64 s n = Some (v, gb_skip n s) \<and> (gb_index s + n \<le> size_in_bits_plus8 s \<longrightarrow> next_bits n v (gb_rest s))"
proof (cases "n \<le> 32")
  case True
  then show ?thesis using get_bits_long_ok[OF assms(1) True] by (auto simp: get_bits64_def next_bits_ucast)
next
  case False
  obtain v where v: "get_bits_long s (n - 32) = Some (v, gb_skip (n - 32) s)"
      "gb_index s + (n - 32) \<le> size_in_bits_plus8 s \<longrightarrow> next_bits (n - 32) v (gb_rest s)"
    using get_bits_long_ok[OF assms(1), of "n - 32"] assms(2) by (auto simp: le_diff_conv)
  obtain w where w: "get_bits_long (gb_skip (n - 32) s) 32 = Some (w, gb_skip n s)"
      "gb_index (gb_skip (n - 32) s) + 32 \<le> size_in_bits_plus8 s \<longrightarrow> next_bits 32 w (gb_rest (gb_skip (n - 32) s))"
    using get_bits_long_ok[OF gb_skip_ok[OF assms(1)], of 32 "n - 32"] False by (auto simp: gb_skip_skip)
  have "next_bits n (push_bit 32 (ucast v :: u64) OR ucast w) (gb_rest s)" if "gb_index s + n \<le> size_in_bits_plus8 s"
    using next_bits_append[of "n - 32" "ucast v :: u64" "gb_rest s" 32 "ucast w"] v(2) w(2) that False assms(2)
    by (simp add: gb_rest_skip next_bits_ucast)
  then show ?thesis using False v(1) w(1) by (auto simp: get_bits64_def)
qed

lemma get_bits1_ok:
  assumes "gb_ok s"
  shows "\<exists>b. get_bits1 s = Some (b, gb_skip 1 s) \<and> next_bits 1 b (gb_rest s)"
proof -
  define i k where "i = gb_index s div 8" and "k = gb_index s mod 8"
  have ik: "gb_index s = 8 * i + k" "k < 8" by (simp_all add: i_def k_def)
  have len: "i < length (gb_buffer s)"
    using assms ik unfolding gb_ok_def AV_INPUT_BUFFER_PADDING_SIZE_def by linarith
  define b where "b = drop_bit 7 (push_bit k (gb_buffer s ! i))"
  have ld: "load (gb_buffer s) i 1 = Some [gb_buffer s ! i]" using len by (simp add: load_def take_Suc_conv_app_nth[of 0] hd_drop_conv_nth flip: hd_conv_nth)
  have get: "get_bits1 s = Some (b, gb_skip 1 s)"
    using assms ld by (auto simp: get_bits1_def gb_skip_def b_def gb_ok_def min_def simp flip: i_def k_def)
  have bits: "bits_of 1 b = take 1 (gb_rest s)"
  proof -
    have "gb_rest s ! 0 = bit (gb_buffer s ! i) (7 - k)" "gb_rest s \<noteq> []"
      using len ik nth_bits_of_bytes[of "gb_index s" "gb_buffer s"] by (simp_all add: gb_rest_def)
    moreover have "bit b 0 = bit (push_bit k (gb_buffer s ! i)) 7"
      unfolding b_def bit_drop_bit_eq comp_apply by (simp only: add_0_right)
    then have "bit b 0 = bit (gb_buffer s ! i) (7 - k)" using ik(2) by (simp only: bit_push_bit_iff) (simp add: bit_simps)
    ultimately show ?thesis by (simp add: bits_of_def take_Suc_conv_app_nth[of 0] hd_conv_nth take_Suc)
  qed
  have "bit b n \<Longrightarrow> n < 1" for n unfolding b_def bit_drop_bit_eq comp_apply by (drule byte_lt) simp
  then have "take_bit 1 b = b" by (intro bit_word_eqI) (simp only: bit_take_bit_iff, blast)
  moreover have "1 \<le> length (gb_rest s)" using len ik by (simp add: gb_rest_def)
  ultimately show ?thesis using get bits by (auto simp: next_bits_def)
qed

lemma skip_bits_ok: "gb_ok s \<Longrightarrow> n \<le> 64 \<Longrightarrow> skip_bits s (int n) = gb_skip n s"
  by (simp add: skip_bits_def SKIP_COUNTER_eq)

lemma get_bits1_bit:
  assumes "gb_ok s"
  shows "\<exists>b. get_bits1 s = Some (b, gb_skip 1 s) \<and> uint b = of_bool (hd (gb_rest s))"
proof -
  obtain b where b: "get_bits1 s = Some (b, gb_skip 1 s)" "next_bits 1 b (gb_rest s)" using get_bits1_ok[OF assms] by auto
  then have t: "take_bit 1 b = b" and h: "bit b 0 = hd (gb_rest s)"
    by (cases "gb_rest s"; simp add: next_bits_def bits_of_def)+
  have "take_bit 1 b = of_bool (bit b 0)" by (rule bit_word_eqI) (auto simp: bit_simps bit_0)
  then show ?thesis using b(1) h t by (cases "bit b 0") simp_all
qed

lemma align_ok:
  assumes "gb_ok s" "gb_index s \<le> size_in_bits s"
  shows "align_get_bits s = ((gb_index s + 7) div 8, gb_skip (nat (- int (gb_index s) mod 8)) s)"
proof -
  define n where "n = nat (- int (gb_index s) mod 8)"
  have "8 * ((int (gb_index s) + 7) div 8) = int (gb_index s) + - int (gb_index s) mod 8" by presburger
  then have "int (8 * ((gb_index s + 7) div 8)) = int (gb_index s + n)" by (simp add: zdiv_int n_def)
  then have n: "8 * ((gb_index s + 7) div 8) = gb_index s + n" by (simp only: of_nat_eq_iff)
  have "n < 8" by (simp add: n_def nat_less_iff)
  then have "gb_index s + n \<le> size_in_bits_plus8 s" using assms by (simp add: gb_ok_def)
  moreover have "skip_bits s (int n) = gb_skip n s" using skip_bits_ok[OF assms(1), of n] \<open>n < 8\<close> by simp
  ultimately show ?thesis
    using n assms(1) by (auto simp: align_get_bits_def get_bits_count_def Let_def min_absorb2 simp flip: n_def)
qed

text \<open>Each round of the loop moves the index by nine, up to the end.\<close>

lemma skip_stop_loop_ends:
  assumes "gb_ok s" "gb_index s < size_in_bits s"
  shows "\<exists>r s'. skip_stop_loop s = Some (r, s') \<and> gb_ok s' \<and> (r = 0 \<or> r = AVERROR_INVALIDDATA)"
  using assms
proof (induction "size_in_bits s - gb_index s" arbitrary: s rule: less_induct)
  case less
  obtain b where b: "get_bits1 s = Some (b, gb_skip 1 s)" using get_bits1_ok[OF less.prems(1)] by auto
  define s2 where "s2 = gb_skip 8 (gb_skip 1 s)"
  have s2: "skip_bits (gb_skip 1 s) 8 = s2" "gb_ok s2"
    using skip_bits_ok[of "gb_skip 1 s" 8] less.prems(1) by (simp_all add: s2_def)
  have u: "skip_stop_loop s = (if b = 0 then Some (0, gb_skip 1 s)
      else if get_bits_left s2 \<le> 0 then Some (AVERROR_INVALIDDATA, s2) else skip_stop_loop s2)"
    by (subst skip_stop_loop.simps) (simp add: b[unfolded One_nat_def] s2(1)[unfolded One_nat_def])
  show ?case
  proof (cases "b = 0 \<or> get_bits_left s2 \<le> 0")
    case True
    then show ?thesis using u s2(2) less.prems(1) by auto
  next
    case False
    then have "gb_index s2 < size_in_bits s2" by (simp add: get_bits_left_def get_bits_count_def)
    moreover have "size_in_bits s2 - gb_index s2 < size_in_bits s - gb_index s"
      using less.prems by (auto simp: s2_def gb_ok_def)
    ultimately have "\<exists>r s'. skip_stop_loop s2 = Some (r, s') \<and> gb_ok s' \<and> (r = 0 \<or> r = AVERROR_INVALIDDATA)"
      using less.hyps s2(2) by blast
    then show ?thesis using u False by auto
  qed
qed

lemma init_get_bits_ok:
  assumes "0 \<le> n" "n < INT_MAX - 512" "(n + 7) div 8 + 64 \<le> int (length buf)"
  shows "\<exists>s. init_get_bits (Some buf) n = (0, s) \<and> gb_ok s \<and> gb_rest s = bits_of_bytes buf \<and> gb_index s = 0 \<and> size_in_bits s = nat n"
proof -
  have "(nat n + 7) div 8 + 64 \<le> length buf" using assms(1,3) by (simp add: nat_le_iff flip: nat_add_distrib)
  then show ?thesis
    using assms(1,2) by (auto simp: init_get_bits_def init_get_bits_xe_def gb_ok_def gb_rest_def AV_INPUT_BUFFER_PADDING_SIZE_def)
qed

section \<open>Readers and writers of fields\<close>

text \<open>A sequence of fields of given widths, through any writer and any reader.\<close>

fun put_fields :: "('s \<Rightarrow> nat \<Rightarrow> u64 \<Rightarrow> 's option) \<Rightarrow> 's \<Rightarrow> (nat \<times> u64) list \<Rightarrow> 's option" where
  "put_fields put s [] = Some s"
| "put_fields put s ((n, v) # fs) = Option.bind (put s n v) (\<lambda>s. put_fields put s fs)"

fun get_fields :: "('s \<Rightarrow> nat \<Rightarrow> (u64 \<times> 's) option) \<Rightarrow> 's \<Rightarrow> nat list \<Rightarrow> (u64 list \<times> 's) option" where
  "get_fields get s [] = Some ([], s)"
| "get_fields get s (n # ns) =
     Option.bind (get s n) (\<lambda>(v, s). Option.bind (get_fields get s ns) (\<lambda>(vs, s). Some (v # vs, s)))"

definition fields_ok :: "(nat \<times> u64) list \<Rightarrow> bool" where
  "fields_ok fs \<longleftrightarrow> (\<forall>(n, v) \<in> set fs. n \<le> 64 \<and> take_bit n v = v)"

definition fields_bits :: "(nat \<times> u64) list \<Rightarrow> bool list" where
  "fields_bits fs = concat (map (\<lambda>(n, v). bits_of n v) fs)"

lemma fields_ok_simps [simp]: "fields_ok []" "fields_ok ((n, v) # fs) \<longleftrightarrow> n \<le> 64 \<and> take_bit n v = v \<and> fields_ok fs"
  by (auto simp: fields_ok_def)

lemma fields_bits_simps [simp]: "fields_bits [] = []" "fields_bits ((n, v) # fs) = bits_of n v @ fields_bits fs"
  by (simp_all add: fields_bits_def)

lemma length_fields_bits: "length (fields_bits fs) = sum_list (map fst fs)"
  by (induction fs) auto

locale bit_writer =
  fixes put :: "'s \<Rightarrow> nat \<Rightarrow> u64 \<Rightarrow> 's option"
    and written :: "'s \<Rightarrow> bool list"
    and room :: "'s \<Rightarrow> nat"
    and ok :: "'s \<Rightarrow> bool"
  assumes put: "ok s \<Longrightarrow> n \<le> 64 \<Longrightarrow> take_bit n v = v \<Longrightarrow> length (written s) + n \<le> room s \<Longrightarrow>
    \<exists>s'. put s n v = Some s' \<and> ok s' \<and> written s' = written s @ bits_of n v \<and> room s' = room s"
begin

lemma put_fields:
  "ok s \<Longrightarrow> fields_ok fs \<Longrightarrow> length (written s) + length (fields_bits fs) \<le> room s \<Longrightarrow>
     \<exists>s'. put_fields put s fs = Some s' \<and> ok s' \<and> written s' = written s @ fields_bits fs \<and> room s' = room s"
proof (induction fs arbitrary: s)
  case (Cons f fs)
  obtain n v where f: "f = (n, v)" by fastforce
  obtain t where t: "put s n v = Some t" "ok t" "written t = written s @ bits_of n v" "room t = room s"
    using put[of s n v] Cons.prems f by auto
  then show ?case using Cons.IH[of t] Cons.prems f by auto
qed simp

end

locale bit_reader =
  fixes get :: "'r \<Rightarrow> nat \<Rightarrow> (u64 \<times> 'r) option"
    and rest :: "'r \<Rightarrow> bool list"
    and avail :: "'r \<Rightarrow> nat"
    and ok :: "'r \<Rightarrow> bool"
  assumes get: "ok s \<Longrightarrow> n \<le> 64 \<Longrightarrow> n \<le> avail s \<Longrightarrow>
    \<exists>v s'. get s n = Some (v, s') \<and> ok s' \<and> next_bits n v (rest s) \<and> rest s' = drop n (rest s) \<and> avail s' = avail s - n"
begin

lemma get_fields:
  "ok s \<Longrightarrow> fields_ok fs \<Longrightarrow> rest s = fields_bits fs @ r \<Longrightarrow> length (fields_bits fs) \<le> avail s \<Longrightarrow>
     \<exists>s'. get_fields get s (map fst fs) = Some (map snd fs, s') \<and> ok s' \<and> rest s' = r"
proof (induction fs arbitrary: s)
  case (Cons f fs)
  obtain n v where f: "f = (n, v)" by fastforce
  obtain w t where t: "get s n = Some (w, t)" "ok t" "next_bits n w (rest s)" "rest t = drop n (rest s)" "avail t = avail s - n"
    using get[of s n] Cons.prems f by auto
  have "next_bits n v (rest s)" using Cons.prems f by (simp add: next_bits_written)
  then have "w = v" using t(3) by (blast intro: next_bits_unique)
  moreover have "length (fields_bits fs) \<le> avail t" using Cons.prems(4) f t(5) by simp
  moreover obtain s' where "get_fields get t (map fst fs) = Some (map snd fs, s')" "ok s'" "rest s' = r"
    using Cons.IH[of t] Cons.prems(2,3) calculation(2) f t(2,4) by auto
  ultimately show ?case using f t(1) by simp
qed simp

end

interpretation pb: bit_writer put_bits64 pb_bits "\<lambda>s. 8 * buf_end s" pb_ok
proof unfold_locales
  fix s :: PutBitContext and n :: nat and v :: u64
  assume "pb_ok s" "n \<le> 64" "take_bit n v = v" "length (pb_bits s) + n \<le> 8 * buf_end s"
  then have "appends s (bits_of n v) (put_bits64 s n v)" by (rule put_bits64_appends)
  then show "\<exists>s'. put_bits64 s n v = Some s' \<and> pb_ok s' \<and> pb_bits s' = pb_bits s @ bits_of n v \<and> 8 * buf_end s' = 8 * buf_end s"
    by (auto simp: appends_def pb_frame_def)
qed

interpretation gb: bit_reader get_bits64 gb_rest "\<lambda>s. size_in_bits_plus8 s - gb_index s" gb_ok
proof unfold_locales
  fix s :: GetBitContext and n :: nat
  assume s: "gb_ok s" "n \<le> 64" "n \<le> size_in_bits_plus8 s - gb_index s"
  then have "gb_index s + n \<le> size_in_bits_plus8 s" by (auto simp: gb_ok_def)
  then show "\<exists>v s'. get_bits64 s n = Some (v, s') \<and> gb_ok s' \<and> next_bits n v (gb_rest s) \<and> gb_rest s' = drop n (gb_rest s) \<and>
      size_in_bits_plus8 s' - gb_index s' = size_in_bits_plus8 s - gb_index s - n"
    using get_bits64_ok[OF s(1,2)] s(1) gb_rest_skip[of s n] by auto
qed

section \<open>Properties\<close>

text \<open>The reader's view of what a flushed writer leaves.\<close>

lemma written_then_read:
  assumes "pb_ok s" "buf_ptr s = 0" "bit_left s = 32" "fields_ok fs" "length (fields_bits fs) \<le> 8 * buf_end s"
    and "8 * int (buf_end s) < INT_MAX - 512" "64 \<le> length pad"
  shows "\<exists>s1 s2 g. put_fields put_bits64 s fs = Some s1 \<and> flush_put_bits s1 = Some s2 \<and>
    get_fields get_bits64 (snd (init_get_bits (Some (take (buf_end s) (pb_buf s2) @ pad)) (8 * int (buf_end s)))) (map fst fs) =
      Some (map snd fs, g)"
proof -
  have e: "pb_bits s = []" using assms(2,3) by (simp add: pb_bits_def)
  obtain s1 where s1: "put_fields put_bits64 s fs = Some s1" "pb_ok s1" "pb_bits s1 = fields_bits fs" "buf_end s1 = buf_end s"
    using pb.put_fields[OF assms(1,4)] assms(5) e by auto
  obtain s2 where s2: "flush_put_bits s1 = Some s2" "pb_ok s2" "pb_frame s1 s2"
      "bits_of_bytes (take (buf_ptr s2) (pb_buf s2)) = fields_bits fs @ padding (length (fields_bits fs))"
    using flush_appends[OF s1(2)] s1(3,4) assms(5) by auto
  define buf where "buf = take (buf_end s) (pb_buf s2) @ pad"
  have len: "buf_ptr s2 \<le> buf_end s" "buf_end s \<le> length (pb_buf s2)" using s2(2,3) s1(4) by (auto simp: pb_ok_def pb_frame_def)
  then have "take (buf_ptr s2) (pb_buf s2) @ drop (buf_ptr s2) buf = buf"
    using append_take_drop_id[of "buf_ptr s2" buf] by (simp add: buf_def min_def)
  then have bits: "bits_of_bytes buf = fields_bits fs @ padding (length (fields_bits fs)) @ bits_of_bytes (drop (buf_ptr s2) buf)"
    using s2(4) by (metis append.assoc bits_of_bytes_append)
  have "length buf = buf_end s + length pad" using len(2) by (simp add: buf_def)
  then obtain g where g: "init_get_bits (Some buf) (8 * int (buf_end s)) = (0, g)" "gb_ok g" "gb_rest g = bits_of_bytes buf" "gb_index g = 0"
      "size_in_bits g = 8 * buf_end s"
    using init_get_bits_ok[of "8 * int (buf_end s)" buf] assms(6,7) by auto
  have "length (fields_bits fs) \<le> size_in_bits_plus8 g - gb_index g" using assms(5) g(2,4,5) by (simp add: gb_ok_def)
  then obtain g' where "get_fields get_bits64 g (map fst fs) = Some (map snd fs, g')"
    using gb.get_fields[OF g(2) assms(4)] g(3) bits by auto
  then show ?thesis using s1(1) s2(1) g(1) by (auto simp: buf_def)
qed

text \<open>C29: Fields of up to 64 bits each, written one after the other and flushed, are read back as they were by a reader of
  the same widths; the reader gets the buffer with the padding its documentation asks for, whatever the padding holds.\<close>

theorem fields_roundtrip:
  assumes "fields_ok fs" "length (fields_bits fs) \<le> 8 * length buf" "8 * int (length buf) < INT_MAX - 512" "64 \<le> length pad"
  shows "\<exists>s1 s2 g. put_fields put_bits64 (init_put_bits buf (int (length buf))) fs = Some s1 \<and> flush_put_bits s1 = Some s2 \<and>
    get_fields get_bits64 (snd (init_get_bits (Some (take (length buf) (pb_buf s2) @ pad)) (8 * int (length buf)))) (map fst fs) = Some (map snd fs, g)"
  using written_then_read[of "init_put_bits buf (int (length buf))" fs pad] assms
  by (simp add: init_put_bits_def pb_ok_def)

text \<open>\<open>fields_roundtrip\<close> on four fields in a buffer of 16 bytes.\<close>

lemma fields_roundtrip_witness:
  "\<exists>s1 s2 g. put_fields put_bits64 (init_put_bits (replicate 16 0) 16) [(3, 5), (0, 0), (40, 0xabcdef), (64, 0x8000000000000001)] = Some s1 \<and>
    flush_put_bits s1 = Some s2 \<and>
    get_fields get_bits64 (snd (init_get_bits (Some (take 16 (pb_buf s2) @ replicate 64 0xff)) 128)) [3, 0, 40, 64] =
      Some ([5, 0, 0xabcdef, 0x8000000000000001], g)"
  using fields_roundtrip[of "[(3, 5), (0, 0), (40, 0xabcdef), (64, 0x8000000000000001)]" "replicate 16 0" "replicate 64 0xff"]
  by (simp add: take_bit_eq_mod length_fields_bits)

text \<open>The loop of \<open>skip_1stop_8data_bits\<close> ends on every input: its result is 0 at a zero bit, or the error for
  invalid data when it reaches the end of the stated size.\<close>

theorem skip_1stop_terminates:
  assumes "gb_ok s"
  shows "\<exists>r s'. skip_1stop_8data_bits s = Some (r, s') \<and> gb_ok s' \<and> (r = 0 \<or> r = AVERROR_INVALIDDATA)"
proof (cases "get_bits_left s \<le> 0")
  case False
  then have "gb_index s < size_in_bits s" by (simp add: get_bits_left_def get_bits_count_def)
  then show ?thesis using skip_stop_loop_ends[OF assms] False by (simp add: skip_1stop_8data_bits_def)
qed (use assms in \<open>simp add: skip_1stop_8data_bits_def\<close>)

text \<open>\<open>skip_1stop_terminates\<close> on a buffer of ones: every stop bit is set, so only the end stops it.\<close>

lemma skip_1stop_terminates_witness:
  "\<exists>r s'. skip_1stop_8data_bits (snd (init_get_bits8 (Some (replicate 70 0xff)) 6)) = Some (r, s') \<and> gb_ok s' \<and>
     (r = 0 \<or> r = AVERROR_INVALIDDATA)"
  by (rule skip_1stop_terminates)
    (simp add: init_get_bits8_def init_get_bits_def init_get_bits_xe_def gb_ok_def AV_INPUT_BUFFER_PADDING_SIZE_def)

section \<open>Signed values\<close>

lemma uint_small: "take_bit n v = v \<Longrightarrow> uint (v :: u32) < 2 ^ n"
proof -
  assume "take_bit n v = v"
  then have "uint v = take_bit n (uint v)" by (metis unsigned_take_bit_eq)
  then show "uint v < 2 ^ n" by (metis take_bit_int_less_exp)
qed

lemma sint_small:
  assumes "- (2 ^ 31) \<le> x" "x < 2 ^ 31"
  shows "sint (word_of_int x :: u32) = x"
proof -
  have "signed_take_bit 31 x = x" using assms by (simp only: signed_take_bit_int_eq_self_iff)
  then show ?thesis by (simp only: signed_of_int) simp
qed

lemma take_bit_uint32 [simp]: "take_bit 32 (uint (c :: u32)) = uint c"
  using unsigned_less[of c, where ?'a = int] by (intro take_bit_int_eq_self) simp_all

lemma sint_uint32: "sint (c :: u32) = uint c - (if bit c 31 then 2 ^ 32 else 0)"
proof -
  have "sint c = signed_take_bit 31 (uint c)" by (simp add: sint_uint)
  also have "\<dots> = take_bit 32 (uint c) - 2 ^ 32 * of_bool (bit (uint c) 31)"
    using signed_take_bit_eq_take_bit_minus[of 31 "uint c"] by (simp only: eval_nat_numeral(3)[symmetric]) simp
  finally show ?thesis by (simp add: bit_uint_iff)
qed

lemma NEG_SSR32_value:
  assumes "0 < n" "n \<le> 32"
  shows "NEG_SSR32 c n = uint (NEG_USR32 c n) - (if bit c 31 then 2 ^ n else 0)"
proof -
  define k where "k = 32 - n"
  have k: "(2 :: int) ^ 32 = 2 ^ n * 2 ^ k" using assms(2) by (simp add: k_def flip: power_add)
  have "(uint c - 2 ^ n * 2 ^ k) div 2 ^ k = uint c div 2 ^ k - 2 ^ n"
    using div_mult_self1[of "2 ^ k" "uint c" "- (2 ^ n)"] by (simp add: algebra_simps)
  moreover have "uint (drop_bit k c) = uint c div 2 ^ k" by (simp only: unsigned_drop_bit_eq) (simp add: drop_bit_eq_div)
  ultimately show ?thesis
    by (simp only: NEG_SSR32_def NEG_USR32_def sint_uint32 k flip: k_def) simp
qed

lemma hd_bits_of: "0 < n \<Longrightarrow> hd (bits_of n v) = bit v (n - 1)"
  by (cases n) (simp_all add: bits_of_def)

lemma next_bits_hd: "next_bits n v bs \<Longrightarrow> 0 < n \<Longrightarrow> hd bs = bit v (n - 1)"
  using hd_bits_of[of n v] by (cases bs) (auto simp: next_bits_def take_Cons')

lemma sign_extend_value:
  assumes "take_bit n v = v" "0 < n" "n \<le> 32"
  shows "sign_extend v n = uint v - (if bit v (n - 1) then 2 ^ n else 0)"
proof -
  define c where "c = push_bit (32 - n) v"
  have hv: "bit v i \<Longrightarrow> i < n" for i using assms(1) by (metis bit_take_bit_iff)
  have "NEG_USR32 c n = v"
    unfolding NEG_USR32_def c_def using assms(3) by (intro bit_word_eqI) (auto simp: bit_simps dest: hv)
  moreover have "bit c 31 = bit v (n - 1)" using assms(2,3) by (auto simp: c_def bit_simps)
  moreover have "sign_extend v n = NEG_SSR32 c n" by (simp add: sign_extend_def NEG_SSR32_def c_def)
  ultimately show ?thesis using NEG_SSR32_value[OF assms(2,3), of c] by simp
qed

lemma NEG_USR32_not:
  assumes "n \<le> 32"
  shows "uint (NEG_USR32 (NOT c) n) = 2 ^ n - 1 - uint (NEG_USR32 c n)"
proof -
  define k u where "k = 32 - n" and "u = uint c"
  have k: "(2 :: int) ^ 32 = 2 ^ n * 2 ^ k" using assms by (simp add: k_def flip: power_add)
  have "uint (NOT c) = 2 ^ 32 - 1 - u" by (simp add: unsigned_not_eq u_def take_bit_not_eq_mask_diff mask_eq_exp_minus_1)
  also have "\<dots> = (2 ^ k - 1 - u mod 2 ^ k) + (2 ^ n - 1 - u div 2 ^ k) * 2 ^ k"
    unfolding k by (simp add: algebra_simps)
  finally have "uint (NOT c) div 2 ^ k = (2 ^ k - 1 - u mod 2 ^ k) div 2 ^ k + (2 ^ n - 1 - u div 2 ^ k)" by simp
  moreover have m: "0 \<le> u mod 2 ^ k" "u mod 2 ^ k < 2 ^ k" by simp_all
  then have "(2 ^ k - 1 - u mod 2 ^ k) div 2 ^ k = 0" by (intro div_pos_pos_trivial) linarith+
  moreover have "uint (drop_bit k w) = uint w div 2 ^ k" for w :: u32
    by (simp only: unsigned_drop_bit_eq) (simp add: drop_bit_eq_div)
  ultimately show ?thesis by (simp add: NEG_USR32_def u_def flip: k_def)
qed

text \<open>The value of \<open>get_xbits\<close>: the bits themselves when the first is set, else less the largest of their width.\<close>

lemma get_xbits_value:
  assumes "gb_ok s" "0 < n" "n \<le> 25" "UPDATE_CACHE s = Some c"
  shows "get_xbits s n = Some (uint (NEG_USR32 c n) - (if bit c 31 then 0 else 2 ^ n - 1), gb_skip n s)"
proof -
  have n31: "(2 :: int) ^ n \<le> 2 ^ 25" using assms(3) by (intro power_increasing) auto
  have small: "0 \<le> uint (NEG_USR32 w n)" "uint (NEG_USR32 w n) < 2 ^ n" for w
  proof -
    have "take_bit n (NEG_USR32 w n) = NEG_USR32 w n"
      unfolding NEG_USR32_def using assms(3) by (intro bit_word_eqI) (auto simp: bit_simps dest: word_lt)
    then show "uint (NEG_USR32 w n) < 2 ^ n" by (rule uint_small)
  qed simp
  show ?thesis
  proof (cases "bit c 31")
    case True
    have "sint (NEG_USR32 c n) = uint (NEG_USR32 c n)"
      using sint_small[of "uint (NEG_USR32 c n)"] small[of c] n31 by simp
    then show ?thesis using True assms SKIP_COUNTER_eq[OF assms(1), of n] by (simp add: get_xbits_def)
  next
    case False
    define v where "v = NEG_USR32 (NOT c) n"
    have b: "word_of_int (- uint v) = - v" by simp
    have a: "sint (word_of_int (- uint v) :: u32) = - uint v"
    proof (rule sint_small)
      show "- (2 ^ 31) \<le> - uint v" using small(2)[of "NOT c"] n31 by (simp add: v_def)
      show "- uint v < 2 ^ 31" by (rule le_less_trans[of _ 0]) simp_all
    qed
    have c: "(v XOR - 1) - (- 1) = - v" using minus_eq_not_plus_1[of v] by simp
    have d: "- uint v = uint (NEG_USR32 c n) - (2 ^ n - 1)" using NEG_USR32_not[of n c] assms(3) by (simp add: v_def)
    have "sint ((v XOR - 1) - (- 1)) = uint (NEG_USR32 c n) - (2 ^ n - 1)" unfolding c by (rule trans[OF a[unfolded b] d])
    then show ?thesis using False assms SKIP_COUNTER_eq[OF assms(1), of n] by (simp add: get_xbits_def v_def)
  qed
qed

text \<open>The signed readers. \<open>get_sbits\<close> takes the next bits in two's complement, \<open>get_xbits\<close> in the form of MPEG-1 DC
  coefficients, where a first bit of 0 stands for a negative number.\<close>

theorem signed_reads:
  assumes "gb_ok s" "0 < n" "n \<le> 25"
  shows "\<exists>v. next_bits n v (gb_rest s) \<and> get_bits s n = Some (v, gb_skip n s) \<and>
    get_sbits s n = Some (uint v - (if hd (gb_rest s) then 2 ^ n else 0), gb_skip n s) \<and>
    get_sbits_long s n = Some (uint v - (if hd (gb_rest s) then 2 ^ n else 0), gb_skip n s) \<and>
    get_xbits s n = Some (uint v - (if hd (gb_rest s) then 0 else 2 ^ n - 1), gb_skip n s)"
proof -
  obtain c where c: "UPDATE_CACHE s = Some c" "take 25 (bits_of 32 c) = take 25 (gb_rest s)" "32 \<le> length (gb_rest s)"
    using update_cache_ok[OF assms(1)] by auto
  define v where "v = NEG_USR32 c n"
  have v: "next_bits n v (gb_rest s)" unfolding v_def using c(2,3) assms(3) by (intro next_bits_top) auto
  have "bit c 31 = hd (take 25 (bits_of 32 c))" using hd_bits_of[of 32 c] by (simp add: hd_take)
  also have "\<dots> = hd (gb_rest s)" unfolding c(2) by (simp add: hd_take)
  finally have h: "bit c 31 = hd (gb_rest s)" .
  have g: "get_bits s n = Some (v, gb_skip n s)"
    using c(1) SKIP_COUNTER_eq[OF assms(1), of n] assms(3) by (simp add: get_bits_def v_def)
  moreover have "get_sbits s n = Some (uint v - (if hd (gb_rest s) then 2 ^ n else 0), gb_skip n s)"
    using c(1) SKIP_COUNTER_eq[OF assms(1), of n] NEG_SSR32_value[OF assms(2), of c] assms(3) h by (simp add: get_sbits_def v_def)
  moreover have "get_sbits_long s n = Some (uint v - (if hd (gb_rest s) then 2 ^ n else 0), gb_skip n s)"
    using g sign_extend_value[of n v] v next_bits_hd[OF v assms(2)] assms(2,3)
    by (simp add: get_sbits_long_def get_bits_long_def MIN_CACHE_BITS_def next_bits_def)
  ultimately show ?thesis using get_xbits_value[OF assms c(1)] v h by (auto simp: v_def)
qed

text \<open>\<open>signed_reads\<close> on the bits 011 of the byte 0x60: 3 as an unsigned and a signed number, -4 for \<open>get_xbits\<close>.\<close>

lemma signed_reads_witness:
  "\<exists>v :: u32. next_bits 3 v (gb_rest (snd (init_get_bits8 (Some (0x60 # replicate 64 0)) 1))) \<and>
     get_xbits (snd (init_get_bits8 (Some (0x60 # replicate 64 0)) 1)) 3 = Some (uint v - 7, gb_skip 3 (snd (init_get_bits8 (Some (0x60 # replicate 64 0)) 1)))"
proof -
  define s where "s = snd (init_get_bits8 (Some (0x60 # replicate 64 0)) 1)"
  have "gb_ok s" by (simp add: s_def init_get_bits8_def init_get_bits_def init_get_bits_xe_def gb_ok_def AV_INPUT_BUFFER_PADDING_SIZE_def)
  moreover have "\<not> hd (gb_rest s)" unfolding s_def by code_simp
  moreover have "(0 :: nat) < 3" "(3 :: nat) \<le> 25" by simp_all
  ultimately have "\<exists>v :: u32. next_bits 3 v (gb_rest s) \<and> get_xbits s 3 = Some (uint v - (if hd (gb_rest s) then 0 else 2 ^ 3 - 1), gb_skip 3 s)"
    using signed_reads[of s 3] by blast
  then show ?thesis using \<open>\<not> hd (gb_rest s)\<close> by (simp flip: s_def)
qed

text \<open>C30: No reader leaves the object, at any position and with any number of bits up to 64, once the caller has kept the
  documented contract (the stated bits and 64 bytes of padding): each call returns and leaves a context in order, whose
  index stops eight bits behind the end.\<close>

theorem reads_stay_inside:
  assumes "gb_ok s" "n \<le> 64"
  shows "\<exists>v b. get_bits64 s n = Some (v, gb_skip n s) \<and> (n \<le> 32 \<longrightarrow> map_option snd (get_bits_long s n) = Some (gb_skip n s)) \<and>
    (n \<le> 25 \<longrightarrow> map_option snd (get_bits s n) = Some (gb_skip n s)) \<and> get_bits1 s = Some (b, gb_skip 1 s) \<and>
    skip_bits s (int n) = gb_skip n s \<and> skip_bits_long s (int n) = gb_skip n s \<and> gb_ok (gb_skip n s) \<and>
    gb_index (gb_skip n s) = min (size_in_bits s + 8) (gb_index s + n) \<and>
    (gb_index s + n \<le> size_in_bits s + 8 \<longrightarrow> next_bits n v (gb_rest s))"
proof -
  obtain v where "get_bits64 s n = Some (v, gb_skip n s)" "gb_index s + n \<le> size_in_bits_plus8 s \<longrightarrow> next_bits n v (gb_rest s)"
    using get_bits64_ok[OF assms] by auto
  moreover obtain b where "get_bits1 s = Some (b, gb_skip 1 s)" using get_bits1_ok[OF assms(1)] by auto
  moreover have "n \<le> 32 \<longrightarrow> map_option snd (get_bits_long s n) = Some (gb_skip n s)" using get_bits_long_ok[OF assms(1), of n] by auto
  moreover have "n \<le> 25 \<longrightarrow> map_option snd (get_bits s n) = Some (gb_skip n s)" using get_bits_ok[OF assms(1), of n] by auto
  moreover have "size_in_bits_plus8 s = size_in_bits s + 8" using assms(1) by (simp add: gb_ok_def)
  ultimately show ?thesis using assms by (intro exI[of _ v] exI[of _ b]) (simp add: skip_bits_ok skip_bits_long_eq)
qed

text \<open>\<open>reads_stay_inside\<close> at the end of a buffer of one byte, where 64 bits are asked for.\<close>

lemma reads_stay_inside_witness:
  "\<exists>s v. gb_index s = 8 \<and> size_in_bits s = 8 \<and> get_bits64 s 64 = Some (v, gb_skip 64 s) \<and> gb_index (gb_skip 64 s) = 16"
proof -
  define s where "s = (snd (init_get_bits8 (Some (0x60 # replicate 64 0)) 1))\<lparr>gb_index := 8\<rparr>"
  have "gb_ok s" "gb_index s = 8" "size_in_bits s = 8"
    by (simp_all add: s_def init_get_bits8_def init_get_bits_def init_get_bits_xe_def gb_ok_def AV_INPUT_BUFFER_PADDING_SIZE_def)
  then show ?thesis using reads_stay_inside[of s 64] by (intro exI[of _ s]) auto
qed

end
