(* ===== verification/Golomb.thy ===== *)
theory Golomb
  imports GetBits
begin

text \<open>
  The Exp-Golomb and Golomb-Rice codes of libavcodec/golomb.h with the tables of golomb.c, on the bit reader without a
  cache between calls. An \<open>unsigned\<close> that is returned as \<open>int\<close> is converted (\<open>sint\<close>). The interleaved codes and the variants
  that trace every call are left out.
\<close>

section \<open>Tables\<close>

definition ff_golomb_vlc_len :: "int list" where
  "ff_golomb_vlc_len =
    [19, 17, 15, 15, 13, 13, 13, 13, 11, 11, 11, 11, 11, 11, 11, 11, 9, 9, 9, 9, 9, 9, 9, 9, 9, 9, 9, 9, 9, 9, 9, 9,
     7, 7, 7, 7, 7, 7, 7, 7, 7, 7, 7, 7, 7, 7, 7, 7, 7, 7, 7, 7, 7, 7, 7, 7, 7, 7, 7, 7, 7, 7, 7, 7,
     5, 5, 5, 5, 5, 5, 5, 5, 5, 5, 5, 5, 5, 5, 5, 5, 5, 5, 5, 5, 5, 5, 5, 5, 5, 5, 5, 5, 5, 5, 5, 5,
     5, 5, 5, 5, 5, 5, 5, 5, 5, 5, 5, 5, 5, 5, 5, 5, 5, 5, 5, 5, 5, 5, 5, 5, 5, 5, 5, 5, 5, 5, 5, 5,
     3, 3, 3, 3, 3, 3, 3, 3, 3, 3, 3, 3, 3, 3, 3, 3, 3, 3, 3, 3, 3, 3, 3, 3, 3, 3, 3, 3, 3, 3, 3, 3,
     3, 3, 3, 3, 3, 3, 3, 3, 3, 3, 3, 3, 3, 3, 3, 3, 3, 3, 3, 3, 3, 3, 3, 3, 3, 3, 3, 3, 3, 3, 3, 3,
     3, 3, 3, 3, 3, 3, 3, 3, 3, 3, 3, 3, 3, 3, 3, 3, 3, 3, 3, 3, 3, 3, 3, 3, 3, 3, 3, 3, 3, 3, 3, 3,
     3, 3, 3, 3, 3, 3, 3, 3, 3, 3, 3, 3, 3, 3, 3, 3, 3, 3, 3, 3, 3, 3, 3, 3, 3, 3, 3, 3, 3, 3, 3, 3,
     1, 1, 1, 1, 1, 1, 1, 1, 1, 1, 1, 1, 1, 1, 1, 1, 1, 1, 1, 1, 1, 1, 1, 1, 1, 1, 1, 1, 1, 1, 1, 1,
     1, 1, 1, 1, 1, 1, 1, 1, 1, 1, 1, 1, 1, 1, 1, 1, 1, 1, 1, 1, 1, 1, 1, 1, 1, 1, 1, 1, 1, 1, 1, 1,
     1, 1, 1, 1, 1, 1, 1, 1, 1, 1, 1, 1, 1, 1, 1, 1, 1, 1, 1, 1, 1, 1, 1, 1, 1, 1, 1, 1, 1, 1, 1, 1,
     1, 1, 1, 1, 1, 1, 1, 1, 1, 1, 1, 1, 1, 1, 1, 1, 1, 1, 1, 1, 1, 1, 1, 1, 1, 1, 1, 1, 1, 1, 1, 1,
     1, 1, 1, 1, 1, 1, 1, 1, 1, 1, 1, 1, 1, 1, 1, 1, 1, 1, 1, 1, 1, 1, 1, 1, 1, 1, 1, 1, 1, 1, 1, 1,
     1, 1, 1, 1, 1, 1, 1, 1, 1, 1, 1, 1, 1, 1, 1, 1, 1, 1, 1, 1, 1, 1, 1, 1, 1, 1, 1, 1, 1, 1, 1, 1,
     1, 1, 1, 1, 1, 1, 1, 1, 1, 1, 1, 1, 1, 1, 1, 1, 1, 1, 1, 1, 1, 1, 1, 1, 1, 1, 1, 1, 1, 1, 1, 1,
     1, 1, 1, 1, 1, 1, 1, 1, 1, 1, 1, 1, 1, 1, 1, 1, 1, 1, 1, 1, 1, 1, 1, 1, 1, 1, 1, 1, 1, 1, 1, 1]"

definition ff_ue_golomb_vlc_code :: "int list" where
  "ff_ue_golomb_vlc_code =
    [32, 32, 32, 32, 32, 32, 32, 32, 31, 32, 32, 32, 32, 32, 32, 32, 15, 16, 17, 18, 19, 20, 21, 22, 23, 24, 25, 26, 27, 28, 29, 30,
     7, 7, 7, 7, 8, 8, 8, 8, 9, 9, 9, 9, 10, 10, 10, 10, 11, 11, 11, 11, 12, 12, 12, 12, 13, 13, 13, 13, 14, 14, 14, 14,
     3, 3, 3, 3, 3, 3, 3, 3, 3, 3, 3, 3, 3, 3, 3, 3, 4, 4, 4, 4, 4, 4, 4, 4, 4, 4, 4, 4, 4, 4, 4, 4,
     5, 5, 5, 5, 5, 5, 5, 5, 5, 5, 5, 5, 5, 5, 5, 5, 6, 6, 6, 6, 6, 6, 6, 6, 6, 6, 6, 6, 6, 6, 6, 6,
     1, 1, 1, 1, 1, 1, 1, 1, 1, 1, 1, 1, 1, 1, 1, 1, 1, 1, 1, 1, 1, 1, 1, 1, 1, 1, 1, 1, 1, 1, 1, 1,
     1, 1, 1, 1, 1, 1, 1, 1, 1, 1, 1, 1, 1, 1, 1, 1, 1, 1, 1, 1, 1, 1, 1, 1, 1, 1, 1, 1, 1, 1, 1, 1,
     2, 2, 2, 2, 2, 2, 2, 2, 2, 2, 2, 2, 2, 2, 2, 2, 2, 2, 2, 2, 2, 2, 2, 2, 2, 2, 2, 2, 2, 2, 2, 2,
     2, 2, 2, 2, 2, 2, 2, 2, 2, 2, 2, 2, 2, 2, 2, 2, 2, 2, 2, 2, 2, 2, 2, 2, 2, 2, 2, 2, 2, 2, 2, 2,
     0, 0, 0, 0, 0, 0, 0, 0, 0, 0, 0, 0, 0, 0, 0, 0, 0, 0, 0, 0, 0, 0, 0, 0, 0, 0, 0, 0, 0, 0, 0, 0,
     0, 0, 0, 0, 0, 0, 0, 0, 0, 0, 0, 0, 0, 0, 0, 0, 0, 0, 0, 0, 0, 0, 0, 0, 0, 0, 0, 0, 0, 0, 0, 0,
     0, 0, 0, 0, 0, 0, 0, 0, 0, 0, 0, 0, 0, 0, 0, 0, 0, 0, 0, 0, 0, 0, 0, 0, 0, 0, 0, 0, 0, 0, 0, 0,
     0, 0, 0, 0, 0, 0, 0, 0, 0, 0, 0, 0, 0, 0, 0, 0, 0, 0, 0, 0, 0, 0, 0, 0, 0, 0, 0, 0, 0, 0, 0, 0,
     0, 0, 0, 0, 0, 0, 0, 0, 0, 0, 0, 0, 0, 0, 0, 0, 0, 0, 0, 0, 0, 0, 0, 0, 0, 0, 0, 0, 0, 0, 0, 0,
     0, 0, 0, 0, 0, 0, 0, 0, 0, 0, 0, 0, 0, 0, 0, 0, 0, 0, 0, 0, 0, 0, 0, 0, 0, 0, 0, 0, 0, 0, 0, 0,
     0, 0, 0, 0, 0, 0, 0, 0, 0, 0, 0, 0, 0, 0, 0, 0, 0, 0, 0, 0, 0, 0, 0, 0, 0, 0, 0, 0, 0, 0, 0, 0,
     0, 0, 0, 0, 0, 0, 0, 0, 0, 0, 0, 0, 0, 0, 0, 0, 0, 0, 0, 0, 0, 0, 0, 0, 0, 0, 0, 0, 0, 0, 0, 0]"

definition ff_se_golomb_vlc_code :: "int list" where
  "ff_se_golomb_vlc_code =
    [17, 17, 17, 17, 17, 17, 17, 17, 16, 17, 17, 17, 17, 17, 17, 17, 8, - 8, 9, - 9, 10, - 10, 11, - 11, 12, - 12, 13, - 13, 14, - 14, 15, - 15,
     4, 4, 4, 4, - 4, - 4, - 4, - 4, 5, 5, 5, 5, - 5, - 5, - 5, - 5, 6, 6, 6, 6, - 6, - 6, - 6, - 6, 7, 7, 7, 7, - 7, - 7, - 7, - 7,
     2, 2, 2, 2, 2, 2, 2, 2, 2, 2, 2, 2, 2, 2, 2, 2, - 2, - 2, - 2, - 2, - 2, - 2, - 2, - 2, - 2, - 2, - 2, - 2, - 2, - 2, - 2, - 2,
     3, 3, 3, 3, 3, 3, 3, 3, 3, 3, 3, 3, 3, 3, 3, 3, - 3, - 3, - 3, - 3, - 3, - 3, - 3, - 3, - 3, - 3, - 3, - 3, - 3, - 3, - 3, - 3,
     1, 1, 1, 1, 1, 1, 1, 1, 1, 1, 1, 1, 1, 1, 1, 1, 1, 1, 1, 1, 1, 1, 1, 1, 1, 1, 1, 1, 1, 1, 1, 1,
     1, 1, 1, 1, 1, 1, 1, 1, 1, 1, 1, 1, 1, 1, 1, 1, 1, 1, 1, 1, 1, 1, 1, 1, 1, 1, 1, 1, 1, 1, 1, 1,
     - 1, - 1, - 1, - 1, - 1, - 1, - 1, - 1, - 1, - 1, - 1, - 1, - 1, - 1, - 1, - 1, - 1, - 1, - 1, - 1, - 1, - 1, - 1, - 1, - 1, - 1, - 1, - 1, - 1, - 1, - 1, - 1,
     - 1, - 1, - 1, - 1, - 1, - 1, - 1, - 1, - 1, - 1, - 1, - 1, - 1, - 1, - 1, - 1, - 1, - 1, - 1, - 1, - 1, - 1, - 1, - 1, - 1, - 1, - 1, - 1, - 1, - 1, - 1, - 1,
     0, 0, 0, 0, 0, 0, 0, 0, 0, 0, 0, 0, 0, 0, 0, 0, 0, 0, 0, 0, 0, 0, 0, 0, 0, 0, 0, 0, 0, 0, 0, 0,
     0, 0, 0, 0, 0, 0, 0, 0, 0, 0, 0, 0, 0, 0, 0, 0, 0, 0, 0, 0, 0, 0, 0, 0, 0, 0, 0, 0, 0, 0, 0, 0,
     0, 0, 0, 0, 0, 0, 0, 0, 0, 0, 0, 0, 0, 0, 0, 0, 0, 0, 0, 0, 0, 0, 0, 0, 0, 0, 0, 0, 0, 0, 0, 0,
     0, 0, 0, 0, 0, 0, 0, 0, 0, 0, 0, 0, 0, 0, 0, 0, 0, 0, 0, 0, 0, 0, 0, 0, 0, 0, 0, 0, 0, 0, 0, 0,
     0, 0, 0, 0, 0, 0, 0, 0, 0, 0, 0, 0, 0, 0, 0, 0, 0, 0, 0, 0, 0, 0, 0, 0, 0, 0, 0, 0, 0, 0, 0, 0,
     0, 0, 0, 0, 0, 0, 0, 0, 0, 0, 0, 0, 0, 0, 0, 0, 0, 0, 0, 0, 0, 0, 0, 0, 0, 0, 0, 0, 0, 0, 0, 0,
     0, 0, 0, 0, 0, 0, 0, 0, 0, 0, 0, 0, 0, 0, 0, 0, 0, 0, 0, 0, 0, 0, 0, 0, 0, 0, 0, 0, 0, 0, 0, 0,
     0, 0, 0, 0, 0, 0, 0, 0, 0, 0, 0, 0, 0, 0, 0, 0, 0, 0, 0, 0, 0, 0, 0, 0, 0, 0, 0, 0, 0, 0, 0, 0]"

definition ff_ue_golomb_len :: "int list" where
  "ff_ue_golomb_len =
    [1, 3, 3, 5, 5, 5, 5, 7, 7, 7, 7, 7, 7, 7, 7, 9, 9, 9, 9, 9, 9, 9, 9, 9, 9, 9, 9, 9, 9, 9, 9, 11,
     11, 11, 11, 11, 11, 11, 11, 11, 11, 11, 11, 11, 11, 11, 11, 11, 11, 11, 11, 11, 11, 11, 11, 11, 11, 11, 11, 11, 11, 11, 11, 13,
     13, 13, 13, 13, 13, 13, 13, 13, 13, 13, 13, 13, 13, 13, 13, 13, 13, 13, 13, 13, 13, 13, 13, 13, 13, 13, 13, 13, 13, 13, 13, 13,
     13, 13, 13, 13, 13, 13, 13, 13, 13, 13, 13, 13, 13, 13, 13, 13, 13, 13, 13, 13, 13, 13, 13, 13, 13, 13, 13, 13, 13, 13, 13, 15,
     15, 15, 15, 15, 15, 15, 15, 15, 15, 15, 15, 15, 15, 15, 15, 15, 15, 15, 15, 15, 15, 15, 15, 15, 15, 15, 15, 15, 15, 15, 15, 15,
     15, 15, 15, 15, 15, 15, 15, 15, 15, 15, 15, 15, 15, 15, 15, 15, 15, 15, 15, 15, 15, 15, 15, 15, 15, 15, 15, 15, 15, 15, 15, 15,
     15, 15, 15, 15, 15, 15, 15, 15, 15, 15, 15, 15, 15, 15, 15, 15, 15, 15, 15, 15, 15, 15, 15, 15, 15, 15, 15, 15, 15, 15, 15, 15,
     15, 15, 15, 15, 15, 15, 15, 15, 15, 15, 15, 15, 15, 15, 15, 15, 15, 15, 15, 15, 15, 15, 15, 15, 15, 15, 15, 15, 15, 15, 15, 17]"

section \<open>Reading\<close>

definition log2_u :: "u32 \<Rightarrow> nat" where
  "log2_u v = nat (ff_log2_c (uint v))"

text \<open>A right shift by \<open>log\<close> after \<open>log = 2 * av_log2(buf) - 31\<close> happens only where it is 7 or more.\<close>

definition get_ue_golomb :: "GetBitContext \<Rightarrow> (int \<times> GetBitContext) option" where
  "get_ue_golomb gb =
     Option.bind (UPDATE_CACHE gb) (\<lambda>buf.
       if uint buf \<ge> 2 ^ 27 then
         (let i = unat (drop_bit (32 - 9) buf)
          in Some (ff_ue_golomb_vlc_code ! i, SKIP_COUNTER gb (ff_golomb_vlc_len ! i)))
       else
         (let log = 2 * int (log2_u buf) - 31; gb = SKIP_COUNTER gb (32 - log)
          in if log < 7 then Some (AVERROR_INVALIDDATA, gb)
             else Some (sint (drop_bit (nat log) buf - 1), gb)))"

definition get_ue_golomb_long :: "GetBitContext \<Rightarrow> (u32 \<times> GetBitContext) option" where
  "get_ue_golomb_long gb =
     Option.bind (show_bits_long gb 32) (\<lambda>buf.
       let log = 31 - log2_u buf; gb = skip_bits_long gb (int log)
       in map_option (\<lambda>(v, gb). (v - 1, gb)) (get_bits_long gb (log + 1)))"

definition get_ue_golomb_31 :: "GetBitContext \<Rightarrow> (int \<times> GetBitContext) option" where
  "get_ue_golomb_31 gb =
     Option.bind (UPDATE_CACHE gb) (\<lambda>buf.
       let i = unat (drop_bit (32 - 9) buf)
       in Some (ff_ue_golomb_vlc_code ! i, SKIP_COUNTER gb (ff_golomb_vlc_len ! i)))"

definition get_te0_golomb :: "GetBitContext \<Rightarrow> int \<Rightarrow> (int \<times> GetBitContext) option" where
  "get_te0_golomb gb r =
     (if r = 1 then Some (0, gb)
      else if r = 2 then map_option (\<lambda>(b, gb). (uint (b XOR 1), gb)) (get_bits1 gb)
      else get_ue_golomb gb)"

definition get_te_golomb :: "GetBitContext \<Rightarrow> int \<Rightarrow> (int \<times> GetBitContext) option" where
  "get_te_golomb gb r =
     (if r = 2 then map_option (\<lambda>(b, gb). (uint (b XOR 1), gb)) (get_bits1 gb)
      else get_ue_golomb gb)"

definition get_se_golomb :: "GetBitContext \<Rightarrow> (int \<times> GetBitContext) option" where
  "get_se_golomb gb =
     Option.bind (UPDATE_CACHE gb) (\<lambda>buf.
       if uint buf \<ge> 2 ^ 27 then
         (let i = unat (drop_bit (32 - 9) buf)
          in Some (ff_se_golomb_vlc_code ! i, SKIP_COUNTER gb (ff_golomb_vlc_len ! i)))
       else
         (let log = log2_u buf; gb = SKIP_COUNTER gb (31 - int log) in
          Option.bind (UPDATE_CACHE gb) (\<lambda>buf.
            let buf = drop_bit log buf; gb = SKIP_COUNTER gb (32 - int log); sign = - (buf AND 1);
                buf = (drop_bit 1 buf XOR sign) - sign
            in Some (sint buf, gb))))"

definition get_se_golomb_long :: "GetBitContext \<Rightarrow> (int \<times> GetBitContext) option" where
  "get_se_golomb_long gb =
     map_option (\<lambda>(buf, gb). let sign = (buf AND 1) - 1 in (sint ((drop_bit 1 buf XOR sign) + 1), gb))
       (get_ue_golomb_long gb)"


text \<open>The two loops of \<open>get_ur_golomb_jpegls\<close>: whole caches of zeros, then single zeros. \<open>Inl\<close> is the return of -1.\<close>

function jpegls_zeros ::
    "nat \<Rightarrow> nat \<Rightarrow> u32 \<Rightarrow> GetBitContext \<Rightarrow> (GetBitContext + nat \<times> u32 \<times> GetBitContext) option" where
  "jpegls_zeros limit i c gb =
     (if i + MIN_CACHE_BITS \<le> limit \<and> NEG_USR32 c MIN_CACHE_BITS = 0 then
        (if size_in_bits gb \<le> gb_index gb then Some (Inl gb)
         else
           (let gb = SKIP_COUNTER gb (int MIN_CACHE_BITS)
            in Option.bind (UPDATE_CACHE gb) (\<lambda>c. jpegls_zeros limit (i + MIN_CACHE_BITS) c gb)))
      else Some (Inr (i, c, gb)))"
  by pat_completeness auto
termination by (relation "measure (\<lambda>(limit, i, c, gb). limit - i)") (auto simp: MIN_CACHE_BITS_def)

function jpegls_ones :: "nat \<Rightarrow> nat \<Rightarrow> u32 \<Rightarrow> GetBitContext \<Rightarrow> nat \<times> GetBitContext" where
  "jpegls_ones limit i c gb =
     (if i < limit \<and> NEG_USR32 c 1 = 0 then jpegls_ones limit (i + 1) (push_bit 1 c) (SKIP_COUNTER gb 1) else (i, gb))"
  by pat_completeness auto
termination by (relation "measure (\<lambda>(limit, i, c, gb). limit - i)") auto

declare jpegls_zeros.simps [simp del] jpegls_ones.simps [simp del]

definition jpegls_tail :: "nat \<Rightarrow> nat \<Rightarrow> nat \<Rightarrow> nat \<Rightarrow> GetBitContext \<Rightarrow> (int \<times> GetBitContext) option" where
  "jpegls_tail k limit esc_len i gb =
     (let gb = SKIP_COUNTER gb 1 in
      Option.bind (UPDATE_CACHE gb) (\<lambda>c.
        if int i < int limit - 1 then
          Option.bind
            (if k \<noteq> 0 then
               (if k > MIN_CACHE_BITS - 1 then
                  (let buf = push_bit (k - 16) (NEG_USR32 c 16); gb = SKIP_COUNTER gb 16 in
                   Option.bind (UPDATE_CACHE gb) (\<lambda>c.
                     Some (buf OR NEG_USR32 c (k - 16), SKIP_COUNTER gb (int (k - 16)))))
                else Some (NEG_USR32 c k, SKIP_COUNTER gb (int k)))
             else Some (0, gb))
            (\<lambda>(buf, gb). Some (sint (buf + push_bit k (of_nat i)), gb))
        else if int i = int limit - 1 then
          Some (sint (NEG_USR32 c esc_len + 1), SKIP_COUNTER gb (int esc_len))
        else Some (- 1, gb)))"

definition get_ur_golomb_jpegls :: "GetBitContext \<Rightarrow> nat \<Rightarrow> nat \<Rightarrow> nat \<Rightarrow> (int \<times> GetBitContext) option" where
  "get_ur_golomb_jpegls gb k limit esc_len =
     Option.bind (UPDATE_CACHE gb) (\<lambda>buf.
       let log = log2_u buf in
       if int log - int k \<ge> 32 - int MIN_CACHE_BITS \<and> 32 - int log < int limit then
         (let buf = drop_bit (log - k) buf; buf = buf + push_bit k (30 - of_nat log)
          in Some (sint buf, SKIP_COUNTER gb (32 + int k - int log)))
       else
         Option.bind (jpegls_zeros limit 0 buf gb) (\<lambda>r. case r of
            Inl gb \<Rightarrow> Some (- 1, gb)
          | Inr (i, c, gb) \<Rightarrow> (let (i, gb) = jpegls_ones limit i c gb in jpegls_tail k limit esc_len i gb)))"




definition get_ur_golomb_shorten :: "GetBitContext \<Rightarrow> nat \<Rightarrow> (u32 \<times> GetBitContext) option" where
  "get_ur_golomb_shorten gb k =
     map_option (\<lambda>(v, gb). (word_of_int v, gb)) (get_ur_golomb_jpegls gb k (nat INT_MAX) 0)"

text \<open>Here \<open>uvar\<close> is signed, and its shift keeps the sign.\<close>

definition get_sr_golomb_shorten :: "GetBitContext \<Rightarrow> nat \<Rightarrow> (int \<times> GetBitContext) option" where
  "get_sr_golomb_shorten gb k =
     map_option (\<lambda>(uvar, gb). (drop_bit 1 uvar XOR - (uvar AND 1), gb)) (get_ur_golomb_jpegls gb (k + 1) (nat INT_MAX) 0)"

section \<open>Writing\<close>

definition set_ue_golomb :: "PutBitContext \<Rightarrow> int \<Rightarrow> PutBitContext option" where
  "set_ue_golomb pb i =
     (if i < 256 then put_bits pb (nat (ff_ue_golomb_len ! nat i)) (word_of_int (i + 1))
      else (let e = nat (ff_log2_c (i + 1)) in put_bits pb (2 * e + 1) (word_of_int (i + 1))))"

definition set_ue_golomb_long :: "PutBitContext \<Rightarrow> u32 \<Rightarrow> PutBitContext option" where
  "set_ue_golomb_long pb i =
     (if i < 256 then put_bits pb (nat (ff_ue_golomb_len ! unat i)) (i + 1)
      else (let e = log2_u (i + 1) in put_bits64 pb (2 * e + 1) (ucast (i + 1))))"

definition set_te_golomb :: "PutBitContext \<Rightarrow> int \<Rightarrow> int \<Rightarrow> PutBitContext option" where
  "set_te_golomb pb i r = (if r = 2 then put_bits pb 1 (word_of_int (i XOR 1)) else set_ue_golomb pb i)"

definition set_se_golomb :: "PutBitContext \<Rightarrow> int \<Rightarrow> PutBitContext option" where
  "set_se_golomb pb i = (let i = s32 (2 * i - 1); i = (if i < 0 then i XOR - 1 else i) in set_ue_golomb pb i)"







section \<open>The codes\<close>

fun bitlen :: "nat \<Rightarrow> nat" where
  "bitlen n = (if n = 0 then 0 else Suc (bitlen (n div 2)))"

declare bitlen.simps [simp del]

text \<open>Exp-Golomb: the number after \<open>i\<close> in binary, behind one zero less than it has digits.\<close>

definition ue_code :: "nat \<Rightarrow> bool list" where
  "ue_code i = replicate (bitlen (i + 1) - 1) False @ bits_of (bitlen (i + 1)) (i + 1)"

text \<open>The signed numbers in the order 0, 1, -1, 2, -2 and so on.\<close>

definition se_of :: "nat \<Rightarrow> int" where
  "se_of v = (if odd v then int (v div 2) + 1 else - int (v div 2))"

definition se_index :: "int \<Rightarrow> nat" where
  "se_index i = (if i > 0 then nat (2 * i - 1) else nat (- 2 * i))"

lemma se_of_index [simp]: "se_of (se_index i) = i"
  by (auto simp: se_of_def se_index_def even_nat_iff nat_div_distrib)

lemma bitlen_eq: "2 ^ e \<le> x \<Longrightarrow> x < 2 ^ Suc e \<Longrightarrow> bitlen x = Suc e"
proof (induction e arbitrary: x)
  case 0
  then have "x = 1" by simp
  then show ?case by (simp add: bitlen.simps)
next
  case (Suc e)
  then have "bitlen (x div 2) = Suc e" by (intro Suc.IH) auto
  then show ?case using Suc.prems by (subst bitlen.simps) auto
qed

lemma bitlen_pos: "0 < x \<Longrightarrow> \<exists>e. bitlen x = Suc e \<and> 2 ^ e \<le> x \<and> x < 2 ^ Suc e"
proof (induction x rule: bitlen.induct)
  case (1 n)
  show ?case
  proof (cases "n div 2 = 0")
    case True
    then have "n = 1" using 1(2) by auto
    then show ?thesis by (intro exI[of _ 0]) (simp add: bitlen.simps)
  next
    case False
    then obtain e where "bitlen (n div 2) = Suc e" "2 ^ e \<le> n div 2" "n div 2 < 2 ^ Suc e" using 1 by auto
    then show ?thesis using 1(2) by (intro exI[of _ "Suc e"]) (auto simp: bitlen.simps[of n])
  qed
qed

lemma bits_of_of_nat: "n \<le> LENGTH('a) \<Longrightarrow> bits_of n (of_nat x :: 'a :: len word) = bits_of n x"
  by (rule bits_of_cong) (simp add: bit_of_nat_iff_bit possible_bit_def bit_simps)

lemma bits_of_zeros: "x < 2 ^ n \<Longrightarrow> bits_of (m + n) (x :: nat) = replicate m False @ bits_of n x"
proof -
  assume "x < 2 ^ n"
  then have "drop_bit n x = 0" by (simp add: drop_bit_eq_div)
  then have "bits_of m (drop_bit n x) = replicate m False" by (intro nth_equalityI) (auto simp: nth_bits_of)
  then show ?thesis by (simp add: bits_of_split)
qed

text \<open>The code of \<open>i\<close> as one number of \<open>2 * e + 1\<close> bits.\<close>

lemma ue_code_bits:
  assumes "2 ^ e \<le> i + 1" "i + 1 < 2 ^ Suc e"
  shows "ue_code i = bits_of (2 * e + 1) (i + 1)" "length (ue_code i) = 2 * e + 1"
proof -
  have "bits_of (e + Suc e) (i + 1) = replicate e False @ bits_of (Suc e) (i + 1)" using assms(2) by (rule bits_of_zeros)
  then show "ue_code i = bits_of (2 * e + 1) (i + 1)" using bitlen_eq[OF assms] by (simp add: ue_code_def mult_2)
  then show "length (ue_code i) = 2 * e + 1" by simp
qed

lemma ue_exponent: "\<exists>e. 2 ^ e \<le> i + 1 \<and> i + 1 < 2 ^ Suc e \<and> bitlen (i + 1) = Suc e" for i :: nat
  using bitlen_pos[of "i + 1"] by auto

lemma log2_eq:
  assumes "2 ^ e \<le> v" "v < 2 ^ Suc e" "v \<le> UINT_MAX"
  shows "ff_log2_c v = int e"
proof -
  have "0 < v" using assms(1) by (meson less_le_trans zero_less_numeral zero_less_power)
  then have l: "0 \<le> ff_log2_c v" "2 ^ nat (ff_log2_c v) \<le> v" "v < 2 ^ Suc (nat (ff_log2_c v))"
    using log2_correct[of v] assms(3) by (auto simp: is_log2_def)
  have "(2 :: int) ^ nat (ff_log2_c v) < 2 ^ Suc e" "(2 :: int) ^ e < 2 ^ Suc (nat (ff_log2_c v))" using l assms by linarith+
  then have "nat (ff_log2_c v) < Suc e" "e < Suc (nat (ff_log2_c v))" by (simp_all only: power_strict_increasing_iff)
  then show ?thesis using l(1) by linarith
qed

lemma log2_u_eq: "2 ^ e \<le> uint v \<Longrightarrow> uint v < 2 ^ Suc e \<Longrightarrow> log2_u v = e"
  using log2_eq[of e "uint v"] unsigned_less[of v, where ?'a = int] by (simp add: log2_u_def)

text \<open>The first \<open>e + 1\<close> bits are zeros and a one; what follows the zeros is the number.\<close>

lemma ue_code_first:
  assumes "2 ^ e \<le> i + 1" "i + 1 < 2 ^ Suc e"
  shows "ue_code i = bits_of (Suc e) (1 :: nat) @ bits_of e (i + 1)" "drop e (ue_code i @ r) = bits_of (Suc e) (i + 1) @ r"
proof -
  have c: "ue_code i = replicate e False @ bits_of (Suc e) (i + 1)" using bitlen_eq[OF assms] by (simp add: ue_code_def)
  then show "drop e (ue_code i @ r) = bits_of (Suc e) (i + 1) @ r" by simp
  have "drop_bit e (i + 1) = 1"
    unfolding drop_bit_eq_div using assms by (intro div_nat_eqI) (simp_all add: mult.commute)
  then have "bits_of (Suc e) (i + 1) = bits_of 1 (1 :: nat) @ bits_of e (i + 1)" using bits_of_split[of 1 e "i + 1"] by simp
  moreover have "bits_of (Suc e) (1 :: nat) = replicate e False @ bits_of 1 (1 :: nat)" using bits_of_zeros[of 1 1 e] by simp
  ultimately show "ue_code i = bits_of (Suc e) (1 :: nat) @ bits_of e (i + 1)" using c by simp
qed

text \<open>What the first cache shows of a number of \<open>n\<close> bits.\<close>

lemma cache_top:
  assumes "gb_ok s" "gb_rest s = bits_of n x @ r" "(x :: nat) < 2 ^ n" "n \<le> 25" "UPDATE_CACHE s = Some c"
  shows "uint c div 2 ^ (32 - n) = int x"
proof -
  obtain c' where c: "UPDATE_CACHE s = Some c'" "take 25 (bits_of 32 c') = take 25 (gb_rest s)" "32 \<le> length (gb_rest s)"
    using update_cache_ok[OF assms(1)] by auto
  then have "next_bits n (NEG_USR32 c n) (gb_rest s)" using assms(4,5) by (intro next_bits_top) auto
  moreover have "bit x i \<Longrightarrow> i < n" for i using assms(3) by (metis bit_take_bit_iff take_bit_nat_eq_self_iff)
  then have "take_bit n (of_nat x :: u32) = of_nat x" by (intro bit_word_eqI) (auto simp: bit_simps)
  then have "next_bits n (of_nat x :: u32) (gb_rest s)"
    using next_bits_written[of n "of_nat x :: u32" r] assms(2,4) by (simp add: bits_of_of_nat)
  ultimately have "NEG_USR32 c n = of_nat x" by (rule next_bits_unique)
  moreover have "uint (NEG_USR32 c n) = uint c div 2 ^ (32 - n)"
    by (simp only: NEG_USR32_def unsigned_drop_bit_eq) (simp add: drop_bit_eq_div)
  moreover have "x < 2 ^ 25" using assms(3,4) power_increasing[of n 25 "2 :: nat"] by simp
  then have "uint (of_nat x :: u32) = int x" by (simp add: unsigned_of_nat take_bit_nat_eq_self_iff)
  ultimately show ?thesis by simp
qed

lemma quotient_bounds:
  fixes c :: int
  assumes "c div 2 ^ d = x"
  shows "x * 2 ^ d \<le> c" "c < (x + 1) * 2 ^ d"
proof -
  have "c = x * 2 ^ d + c mod 2 ^ d" using div_mult_mod_eq[of c "2 ^ d"] assms by simp
  moreover have "0 \<le> c mod 2 ^ d" "c mod 2 ^ d < 2 ^ d" by simp_all
  ultimately show "x * 2 ^ d \<le> c" "c < (x + 1) * 2 ^ d" unfolding distrib_right by linarith+
qed

lemma int_pow: "2 ^ e \<le> int x + 1 \<longleftrightarrow> 2 ^ e \<le> x + 1" "int x + 1 < 2 ^ e \<longleftrightarrow> x + 1 < 2 ^ e"
proof -
  have "2 ^ e \<le> int (x + 1) \<longleftrightarrow> 2 ^ e \<le> x + 1" "int (x + 1) < 2 ^ e \<longleftrightarrow> x + 1 < 2 ^ e"
    by (simp_all only: numeral_power_le_of_nat_cancel_iff of_nat_less_numeral_power_cancel_iff)
  then show "2 ^ e \<le> int x + 1 \<longleftrightarrow> 2 ^ e \<le> x + 1" "int x + 1 < 2 ^ e \<longleftrightarrow> x + 1 < 2 ^ e"
    by (simp_all add: add.commute)
qed

lemma cache_range:
  assumes "uint (c :: u32) div 2 ^ d = int x" "2 ^ k \<le> x" "x < 2 ^ Suc k"
  shows "2 ^ (k + d) \<le> uint c" "uint c < 2 ^ Suc (k + d)"
proof -
  have "(2 :: int) ^ k \<le> int x" using assms(2) by simp
  then have "2 ^ (k + d) \<le> int x * 2 ^ d" unfolding power_add by (rule mult_right_mono) simp
  then show "2 ^ (k + d) \<le> uint c" using quotient_bounds(1)[OF assms(1)] by (rule order_trans)
  have "int x + 1 \<le> 2 ^ Suc k" using assms(3) by (simp only: zless_imp_add1_zle numeral_power_less_of_nat_cancel_iff of_nat_less_numeral_power_cancel_iff)
  then have "(int x + 1) * 2 ^ d \<le> 2 ^ Suc k * 2 ^ d" by (rule mult_right_mono) simp
  then show "uint c < 2 ^ Suc (k + d)" using quotient_bounds(2)[OF assms(1)] by (simp only: power_add[symmetric] add_Suc)
qed

lemma cache_log2: "uint (c :: u32) div 2 ^ d = int x \<Longrightarrow> 2 ^ k \<le> x \<Longrightarrow> x < 2 ^ Suc k \<Longrightarrow> log2_u c = k + d"
  by (rule log2_u_eq) (auto dest: cache_range)

text \<open>The tables hold the codes of up to nine bits: \<open>e\<close> zeros before the first one of a nine bit number \<open>t\<close>.\<close>

definition vlc_row :: "int \<Rightarrow> int \<Rightarrow> int \<Rightarrow> int \<Rightarrow> bool" where
  "vlc_row t l u s \<longleftrightarrow>
     (let (e, d) = (if t < 32 then (4, 1) else if t < 64 then (3, 4) else if t < 128 then (2, 16) else if t < 256 then (1, 64) else (0, 256));
          i = t div d - 1
      in l = 2 * e + 1 \<and> u = i \<and> s = (if odd i then i div 2 + 1 else - (i div 2)))"

fun vlc_rows :: "int \<Rightarrow> int list \<Rightarrow> int list \<Rightarrow> int list \<Rightarrow> bool" where
  "vlc_rows t (l # ls) (u # us) (s # ss) \<longleftrightarrow> vlc_row t l u s \<and> vlc_rows (t + 1) ls us ss"
| "vlc_rows t ls us ss \<longleftrightarrow> True"

lemma vlc_rows_nth:
  "vlc_rows t ls us ss \<Longrightarrow> i < length ls \<Longrightarrow> i < length us \<Longrightarrow> i < length ss \<Longrightarrow> vlc_row (t + int i) (ls ! i) (us ! i) (ss ! i)"
proof (induction t ls us ss arbitrary: i rule: vlc_rows.induct)
  case (1 t l ls u us s ss)
  then show ?case by (cases i) (auto simp: algebra_simps)
qed auto

lemma vlc_table_rows:
  "vlc_rows 16 (drop 16 ff_golomb_vlc_len) (drop 16 ff_ue_golomb_vlc_code) (drop 16 ff_se_golomb_vlc_code)"
  by code_simp

lemma vlc_table_lengths: "length ff_golomb_vlc_len = 512" "length ff_ue_golomb_vlc_code = 512" "length ff_se_golomb_vlc_code = 512"
  by (simp_all add: ff_golomb_vlc_len_def ff_ue_golomb_vlc_code_def ff_se_golomb_vlc_code_def)

lemma vlc_tables:
  "16 \<le> t \<Longrightarrow> t < 512 \<Longrightarrow> vlc_row (int t) (ff_golomb_vlc_len ! t) (ff_ue_golomb_vlc_code ! t) (ff_se_golomb_vlc_code ! t)"
  using vlc_rows_nth[OF vlc_table_rows, of "t - 16"] by (simp add: vlc_table_lengths)

fun ue_rows :: "int \<Rightarrow> int \<Rightarrow> int \<Rightarrow> int list \<Rightarrow> bool" where
  "ue_rows i e p [] \<longleftrightarrow> True"
| "ue_rows i e p (l # ls) \<longleftrightarrow>
     (let (e, p) = (if i + 1 = p then (e + 1, 2 * p) else (e, p)) in l = 2 * e + 1 \<and> ue_rows (i + 1) e p ls)"

lemma ue_rows_nth:
  "ue_rows i (int e) (2 ^ Suc e) ls \<Longrightarrow> 2 ^ e \<le> i + 1 \<Longrightarrow> i < 2 ^ Suc e \<Longrightarrow> j < length ls \<Longrightarrow>
     \<exists>e'. ls ! j = 2 * int e' + 1 \<and> 2 ^ e' \<le> i + int j + 1 \<and> i + int j + 1 < 2 ^ Suc e'"
proof (induction ls arbitrary: i e j)
  case (Cons l ls)
  define e1 where "e1 = (if i + 1 = 2 ^ Suc e then Suc e else e)"
  have r: "l = 2 * int e1 + 1" "ue_rows (i + 1) (int e1) (2 ^ Suc e1) ls" using Cons.prems(1) by (auto simp: e1_def add.commute split: if_splits)
  have b: "2 ^ e1 \<le> i + 1" "i + 1 < 2 ^ Suc e1" using Cons.prems(2,3) by (auto simp: e1_def)
  show ?case
  proof (cases j)
    case 0
    then show ?thesis using r(1) b by (intro exI[of _ e1]) simp
  next
    case (Suc m)
    then show ?thesis using Cons.IH[OF r(2), of m] b Cons.prems(4) by (auto simp: algebra_simps)
  qed
qed simp

lemma ue_len_rows: "ue_rows 0 0 2 ff_ue_golomb_len"
  by code_simp

lemma ue_len_table:
  assumes "i < 256"
  shows "nat (ff_ue_golomb_len ! i) = length (ue_code i)"
proof -
  have "length ff_ue_golomb_len = 256" by (simp add: ff_ue_golomb_len_def)
  then obtain e where "ff_ue_golomb_len ! i = 2 * int e + 1" "2 ^ e \<le> int i + 1" "int i + 1 < 2 ^ Suc e"
    using ue_rows_nth[of 0 0 ff_ue_golomb_len i] ue_len_rows assms by auto
  moreover have "2 ^ e \<le> i + 1" "i + 1 < 2 ^ Suc e"
    using calculation(2,3) by (simp_all only: int_pow)
  ultimately show ?thesis using ue_code_bits(2) by simp
qed

section \<open>Codes that are read as they were written\<close>

fun put_list :: "('s \<Rightarrow> 'v \<Rightarrow> 's option) \<Rightarrow> 's \<Rightarrow> 'v list \<Rightarrow> 's option" where
  "put_list put s [] = Some s"
| "put_list put s (v # vs) = Option.bind (put s v) (\<lambda>s. put_list put s vs)"

fun get_list :: "('s \<Rightarrow> ('v \<times> 's) option) \<Rightarrow> 's \<Rightarrow> nat \<Rightarrow> ('v list \<times> 's) option" where
  "get_list get s 0 = Some ([], s)"
| "get_list get s (Suc n) =
     Option.bind (get s) (\<lambda>(v, s). Option.bind (get_list get s n) (\<lambda>(vs, s). Some (v # vs, s)))"

lemma flushed_prefix:
  assumes "pb_ok s" "bits_of_bytes (take (buf_ptr s) (pb_buf s)) = bs @ p" "n = buf_end s"
  shows "\<exists>r. bits_of_bytes (take n (pb_buf s) @ pad) = bs @ r"
proof -
  define buf where "buf = take n (pb_buf s) @ pad"
  have "take (buf_ptr s) (pb_buf s) @ drop (buf_ptr s) buf = buf"
    using append_take_drop_id[of "buf_ptr s" buf] assms(1,3) by (simp add: buf_def pb_ok_def min_def)
  then show ?thesis using assms(2) unfolding buf_def by (metis append.assoc bits_of_bytes_append)
qed

text \<open>A list of values written into a buffer, flushed, and read from the buffer with its padding.\<close>

definition roundtrips ::
    "(PutBitContext \<Rightarrow> 'v \<Rightarrow> PutBitContext option) \<Rightarrow> (GetBitContext \<Rightarrow> ('v \<times> GetBitContext) option) \<Rightarrow>
     u8 list \<Rightarrow> u8 list \<Rightarrow> 'v list \<Rightarrow> bool" where
  "roundtrips put get buf pad vs \<longleftrightarrow>
     (\<exists>s1 s2 g. put_list put (init_put_bits buf (int (length buf))) vs = Some s1 \<and> flush_put_bits s1 = Some s2 \<and>
        get_list get (snd (init_get_bits (Some (take (length buf) (pb_buf s2) @ pad)) (8 * int (length buf)))) (length vs) =
          Some (vs, g))"

locale bit_code =
  fixes put :: "PutBitContext \<Rightarrow> 'v \<Rightarrow> PutBitContext option"
    and get :: "GetBitContext \<Rightarrow> ('v \<times> GetBitContext) option"
    and code :: "'v \<Rightarrow> bool list"
    and valid :: "'v \<Rightarrow> bool"
  assumes put: "pb_ok s \<Longrightarrow> valid v \<Longrightarrow> length (pb_bits s) + length (code v) \<le> 8 * buf_end s \<Longrightarrow> appends s (code v) (put s v)"
    and get: "gb_ok g \<Longrightarrow> valid v \<Longrightarrow> gb_rest g = code v @ r \<Longrightarrow> gb_index g + length (code v) \<le> size_in_bits g \<Longrightarrow>
      get g = Some (v, gb_skip (length (code v)) g)"
begin

lemma put_list_appends:
  "pb_ok s \<Longrightarrow> list_all valid vs \<Longrightarrow> length (pb_bits s) + length (concat (map code vs)) \<le> 8 * buf_end s \<Longrightarrow>
     appends s (concat (map code vs)) (put_list put s vs)"
proof (induction vs arbitrary: s)
  case (Cons v vs)
  then show ?case using put[of s v] by (auto intro!: appends_bind Cons.IH)
qed (simp add: appends_def)

lemma get_list_returns:
  "gb_ok g \<Longrightarrow> list_all valid vs \<Longrightarrow> gb_rest g = concat (map code vs) @ r \<Longrightarrow>
     gb_index g + length (concat (map code vs)) \<le> size_in_bits g \<Longrightarrow> \<exists>g'. get_list get g (length vs) = Some (vs, g')"
proof (induction vs arbitrary: g)
  case (Cons v vs)
  define h where "h = gb_skip (length (code v)) g"
  have g: "get g = Some (v, h)" unfolding h_def using Cons.prems get[of g v "concat (map code vs) @ r"] by auto
  have p: "size_in_bits_plus8 g = size_in_bits g + 8" using Cons.prems(1) by (simp add: gb_ok_def)
  have "gb_rest h = concat (map code vs) @ r"
    unfolding h_def using Cons.prems(3,4) p by (subst gb_rest_skip) auto
  moreover have "gb_ok h" "gb_index h + length (concat (map code vs)) \<le> size_in_bits h"
    using Cons.prems(1,4) p by (auto simp: h_def)
  ultimately obtain g' where "get_list get h (length vs) = Some (vs, g')" using Cons.IH[of h] Cons.prems(2) by auto
  then show ?case using g by simp
qed simp

lemma roundtrip:
  assumes "list_all valid vs" "length (concat (map code vs)) \<le> 8 * length buf" "8 * int (length buf) < INT_MAX - 512" "64 \<le> length pad"
  shows "roundtrips put get buf pad vs"
proof -
  define s where "s = init_put_bits buf (int (length buf))"
  have s: "pb_ok s" "pb_bits s = []" "buf_end s = length buf" by (simp_all add: s_def init_put_bits_def pb_ok_def pb_bits_def)
  then obtain s1 where s1: "put_list put s vs = Some s1" "pb_ok s1" "pb_bits s1 = concat (map code vs)" "buf_end s1 = length buf"
    using put_list_appends[of s vs] assms(1,2) by (auto simp: appends_def pb_frame_def)
  obtain s2 where s2: "flush_put_bits s1 = Some s2" "pb_ok s2" "pb_frame s1 s2"
      "bits_of_bytes (take (buf_ptr s2) (pb_buf s2)) = concat (map code vs) @ padding (length (concat (map code vs)))"
    using flush_appends[OF s1(2)] s1(3,4) assms(2) by auto
  obtain g where g: "init_get_bits (Some (take (length buf) (pb_buf s2) @ pad)) (8 * int (length buf)) = (0, g)" "gb_ok g"
      "gb_rest g = bits_of_bytes (take (length buf) (pb_buf s2) @ pad)" "gb_index g = 0" "size_in_bits g = 8 * length buf"
    using init_get_bits_ok[of "8 * int (length buf)" "take (length buf) (pb_buf s2) @ pad"] s2(2,3) s1(4) assms(3,4)
    by (auto simp: pb_ok_def pb_frame_def)
  have "\<exists>r. gb_rest g = concat (map code vs) @ r" unfolding g(3)
    using flushed_prefix[OF s2(2,4), of "length buf" pad] s2(3) s1(4) by (auto simp: pb_frame_def)
  then obtain g' where "get_list get g (length vs) = Some (vs, g')" using get_list_returns[OF g(2) assms(1)] g(4,5) assms(2) by auto
  then show ?thesis using s1(1) s2(1) g(1) by (auto simp: roundtrips_def s_def)
qed

end

section \<open>The Exp-Golomb codes\<close>

lemma take_bit_of_nat: "x < 2 ^ n \<Longrightarrow> take_bit n (of_nat x :: 'a :: len word) = of_nat x"
proof -
  assume "x < 2 ^ n"
  then have "bit x i \<Longrightarrow> i < n" for i by (metis bit_take_bit_iff take_bit_nat_eq_self_iff)
  then show ?thesis by (intro bit_word_eqI) (auto simp: bit_simps)
qed

lemma wide: "x < 2 ^ Suc e \<Longrightarrow> (x :: nat) < 2 ^ (2 * e + 1)"
proof -
  have "(2 :: nat) ^ Suc e \<le> 2 ^ (2 * e + 1)" by (rule power_increasing) simp_all
  then show "x < 2 ^ Suc e \<Longrightarrow> x < 2 ^ (2 * e + 1)" by (rule less_le_trans[rotated])
qed

lemma set_ue_appends:
  assumes "pb_ok s" "0 \<le> i" "i \<le> 0xFFFE" "length (pb_bits s) + length (ue_code (nat i)) \<le> 8 * buf_end s"
  shows "appends s (ue_code (nat i)) (set_ue_golomb s i)"
proof -
  define x where "x = nat i"
  obtain e where e: "2 ^ e \<le> x + 1" "x + 1 < 2 ^ Suc e" using ue_exponent by blast
  have i: "i = int x" using assms(2) by (simp add: x_def)
  have "x + 1 < 2 ^ 16" using assms(3) i by simp
  then have "(2 :: nat) ^ e < 2 ^ 16" using e(1) by linarith
  then have e15: "e < 16" by (simp only: power_strict_increasing_iff)
  have w: "word_of_int (i + 1) = (of_nat (x + 1) :: u32)" by (simp add: i)
  have "x + 1 < 2 ^ (2 * e + 1)" using e(2) by (rule wide)
  then have "appends s (bits_of (2 * e + 1) (of_nat (x + 1) :: u32)) (put_bits s (2 * e + 1) (of_nat (x + 1)))"
    using assms(1,4) e15 ue_code_bits(2)[OF e] by (intro put_bits_appends take_bit_of_nat) (simp_all flip: x_def)
  moreover have "bits_of (2 * e + 1) (of_nat (x + 1) :: u32) = ue_code x"
    using ue_code_bits(1)[OF e] e15 by (simp add: bits_of_of_nat del: of_nat_add of_nat_Suc)
  moreover have "set_ue_golomb s i = put_bits s (2 * e + 1) (of_nat (x + 1))"
  proof (cases "i < 256")
    case True
    then show ?thesis using ue_len_table[of x] ue_code_bits(2)[OF e] i by (simp add: set_ue_golomb_def add.commute)
  next
    case False
    have "ff_log2_c (i + 1) = int e" using e assms(3) i int_pow[of e x] int_pow[of "Suc e" x] by (intro log2_eq) simp_all
    then show ?thesis using False w by (simp add: set_ue_golomb_def add.commute)
  qed
  ultimately show ?thesis by (simp add: x_def)
qed

lemma set_ue_long_appends:
  assumes "pb_ok s" "i \<noteq> - 1" "length (pb_bits s) + length (ue_code (unat i)) \<le> 8 * buf_end s"
  shows "appends s (ue_code (unat i)) (set_ue_golomb_long s i)"
proof -
  define x where "x = unat i"
  obtain e where e: "2 ^ e \<le> x + 1" "x + 1 < 2 ^ Suc e" using ue_exponent by blast
  have "x + 1 < 2 ^ 32"
  proof -
    have i: "i = of_nat x" by (simp add: x_def)
    have "x \<noteq> 2 ^ 32 - 1" using assms(2) unfolding i by auto
    moreover have "x < 2 ^ 32" using unsigned_less[of i, where ?'a = nat] by (simp add: x_def)
    ultimately show ?thesis by simp
  qed
  note x32 = this
  then have "(2 :: nat) ^ e < 2 ^ 32" using e(1) by linarith
  then have e31: "e < 32" by (simp only: power_strict_increasing_iff)
  have w: "i + 1 = of_nat (x + 1)" by (simp add: x_def)
  have "take_bit 32 (x + 1) = x + 1" using x32 by (simp only: take_bit_nat_eq_self_iff)
  then have u: "uint (i + 1) = int x + 1" unfolding w by (simp add: unsigned_of_nat del: of_nat_Suc of_nat_add)
  have lt: "x + 1 < 2 ^ (2 * e + 1)" using e(2) by (rule wide)
  show ?thesis
  proof (cases "i < 256")
    case True
    then have "x < 256" by (simp add: x_def word_less_nat_alt)
    then have "(2 :: nat) ^ e < 2 ^ 9" using e(1) by simp
    then have "e < 9" by (simp only: power_strict_increasing_iff)
    then have "appends s (bits_of (2 * e + 1) (of_nat (x + 1) :: u32)) (put_bits s (2 * e + 1) (of_nat (x + 1)))"
      using assms(1,3) lt ue_code_bits(2)[OF e] by (intro put_bits_appends take_bit_of_nat) (simp_all flip: x_def)
    then show ?thesis
      using True ue_len_table[of x] ue_code_bits[OF e] \<open>e < 9\<close> \<open>x < 256\<close> w
      by (simp add: set_ue_golomb_long_def bits_of_of_nat flip: x_def del: of_nat_Suc of_nat_add)
  next
    case False
    have "log2_u (i + 1) = e" using e int_pow[of e x] int_pow[of "Suc e" x] by (intro log2_u_eq) (simp_all add: u)
    moreover have "ucast (i + 1) = (of_nat (x + 1) :: u64)" using u by (metis of_nat_1 of_nat_add of_int_of_nat_eq unsigned_ucast_eq ucast_eq)
    moreover have "appends s (bits_of (2 * e + 1) (of_nat (x + 1) :: u64)) (put_bits64 s (2 * e + 1) (of_nat (x + 1)))"
      using assms(1,3) lt e31 ue_code_bits(2)[OF e] by (intro put_bits64_appends take_bit_of_nat) (simp_all flip: x_def)
    ultimately show ?thesis
      using False ue_code_bits(1)[OF e] e31
      by (simp add: set_ue_golomb_long_def bits_of_of_nat flip: x_def del: of_nat_Suc of_nat_add)
  qed
qed


lemma uint_drop: "uint (drop_bit k (c :: u32)) = uint c div 2 ^ k"
  by (simp only: unsigned_drop_bit_eq) (simp add: drop_bit_eq_div)

lemma vlc_lookup:
  assumes "uint c div 2 ^ (31 - 2 * e) = int (x + 1)" "2 ^ e \<le> x + 1" "x + 1 < 2 ^ Suc e" "e \<le> 4"
    and "t = unat (drop_bit (32 - 9) (c :: u32))"
  shows "ff_golomb_vlc_len ! t = 2 * int e + 1" "ff_ue_golomb_vlc_code ! t = int x" "ff_se_golomb_vlc_code ! t = se_of x"
proof -
  have t: "int t = uint c div 2 ^ 23" using uint_drop[of 23 c] by (simp add: assms(5))
  have r: "2 ^ (31 - e) \<le> uint c" "uint c < 2 ^ (32 - e)"
  proof -
    have "e + (31 - 2 * e) = 31 - e" "32 - e = Suc (31 - e)" using assms(4) by simp_all
    then show "2 ^ (31 - e) \<le> uint c" "uint c < 2 ^ (32 - e)" using cache_range[OF assms(1-3)] by simp_all
  qed
  have "(2 :: int) ^ (31 - e) = 2 ^ (8 - e) * 2 ^ 23" "(2 :: int) ^ (32 - e) = 2 ^ (9 - e) * 2 ^ 23"
    using assms(4) by (simp_all only: power_add[symmetric]) simp_all
  then have tr: "2 ^ (8 - e) \<le> int t" "int t < 2 ^ (9 - e)"
    using r unfolding t by (simp_all add: zle_div_mult zdiv_lt_mult)
  have "(2 :: int) ^ 23 * 2 ^ (8 - 2 * e) = 2 ^ (31 - 2 * e)" using assms(4) by (simp only: power_add[symmetric]) simp
  then have x: "int t div 2 ^ (8 - 2 * e) = int x + 1" unfolding t using assms(1) by (simp add: zdiv_zmult2_eq[symmetric])
  have "16 \<le> (2 :: int) ^ (8 - e)" "(2 :: int) ^ (9 - e) \<le> 512"
    using assms(4) power_increasing[of 4 "8 - e" "2 :: int"] power_increasing[of "9 - e" 9 "2 :: int"] by simp_all
  then have "16 \<le> int t" "int t < 512" using tr by linarith+
  then have "vlc_row (int t) (ff_golomb_vlc_len ! t) (ff_ue_golomb_vlc_code ! t) (ff_se_golomb_vlc_code ! t)"
    by (intro vlc_tables) simp_all
  moreover have "e = 0 \<or> e = 1 \<or> e = 2 \<or> e = 3 \<or> e = 4" using assms(4) by linarith
  ultimately have "ff_golomb_vlc_len ! t = 2 * int e + 1 \<and> ff_ue_golomb_vlc_code ! t = int x \<and>
      ff_se_golomb_vlc_code ! t = (if odd (int x) then int x div 2 + 1 else - (int x div 2))"
    using tr x by (elim disjE) (auto simp: vlc_row_def Let_def)
  then show "ff_golomb_vlc_len ! t = 2 * int e + 1" "ff_ue_golomb_vlc_code ! t = int x" "ff_se_golomb_vlc_code ! t = se_of x"
    by (simp_all add: se_of_def zdiv_int)
qed

lemma sint_of_nat: "x < 2 ^ 31 \<Longrightarrow> sint (of_nat x :: u32) = int x"
  using sint_small[of "int x"] by simp

lemma get_ue_reads:
  assumes "gb_ok g" "0 \<le> i" "i \<le> 8190" "gb_rest g = ue_code (nat i) @ r"
  shows "get_ue_golomb g = Some (i, gb_skip (length (ue_code (nat i))) g)"
proof -
  define x where "x = nat i"
  have i: "i = int x" "x \<le> 8190" using assms(2,3) by (simp_all add: x_def)
  obtain e where e: "2 ^ e \<le> x + 1" "x + 1 < 2 ^ Suc e" using ue_exponent by blast
  have "(2 :: nat) ^ e < 2 ^ 13" using e(1) i(2) by simp
  then have e12: "e \<le> 12" by (simp only: power_strict_increasing_iff)
  obtain c where c: "UPDATE_CACHE g = Some c" using update_cache_ok[OF assms(1)] by auto
  have "gb_rest g = bits_of (2 * e + 1) (x + 1) @ r" using assms(4) ue_code_bits(1)[OF e] by (simp add: x_def)
  then have d: "uint c div 2 ^ (31 - 2 * e) = int (x + 1)"
    using cache_top[OF assms(1) _ wide[OF e(2)] _ c] e12 by simp
  have l: "log2_u c = 31 - e" using cache_log2[OF d e] e12 by simp
  have s: "SKIP_COUNTER g (2 * int e + 1) = gb_skip (2 * e + 1) g" using SKIP_COUNTER_eq[OF assms(1), of "2 * e + 1"] e12 by (simp add: add.commute)
  have len: "length (ue_code x) = 2 * e + 1" using ue_code_bits(2)[OF e] .
  show ?thesis
  proof (cases "e \<le> 4")
    case True
    have "(2 :: int) ^ 27 \<le> 2 ^ (e + (31 - 2 * e))" using True by (intro power_increasing) auto
    then have "2 ^ 27 \<le> uint c" using cache_range(1)[OF d e] by linarith
    then show ?thesis using c s len vlc_lookup[OF d e True refl] by (simp add: get_ue_golomb_def i(1))
  next
    case False
    have "(2 :: int) ^ Suc (e + (31 - 2 * e)) \<le> 2 ^ 27" using False e12 by (intro power_increasing) auto
    then have "\<not> 2 ^ 27 \<le> uint c" using cache_range(2)[OF d e] by linarith
    moreover have "2 * int (31 - e) - 31 = int (31 - 2 * e)" using e12 by simp
    moreover have "32 - int (31 - 2 * e) = 2 * int e + 1" using e12 by simp
    moreover have "drop_bit (31 - 2 * e) c = of_nat (x + 1)"
      using d uint_drop[of "31 - 2 * e" c] by (metis of_int_of_nat_eq word_of_int_uint)
    moreover have "nat (31 - 2 * int e) = 31 - 2 * e" by simp
    ultimately show ?thesis
      using c s len l i sint_of_nat[of x] e12 by (simp add: get_ue_golomb_def add.commute)
  qed
qed

text \<open>\<open>get_ue_golomb_31\<close> looks at nine bits only; the table has the value 31 too.\<close>

lemma get_ue_31_reads:
  assumes "gb_ok g" "i \<le> 30" "gb_rest g = ue_code i @ r"
  shows "get_ue_golomb_31 g = Some (int i, gb_skip (length (ue_code i)) g)"
proof -
  obtain e where e: "2 ^ e \<le> i + 1" "i + 1 < 2 ^ Suc e" using ue_exponent by blast
  have "(2 :: nat) ^ e < 2 ^ 5" using e(1) assms(2) by simp
  then have e4: "e \<le> 4" by (simp only: power_strict_increasing_iff)
  obtain c where c: "UPDATE_CACHE g = Some c" using update_cache_ok[OF assms(1)] by auto
  have "gb_rest g = bits_of (2 * e + 1) (i + 1) @ r" using assms(3) ue_code_bits(1)[OF e] by simp
  then have d: "uint c div 2 ^ (31 - 2 * e) = int (i + 1)"
    using cache_top[OF assms(1) _ wide[OF e(2)] _ c] e4 by simp
  have "SKIP_COUNTER g (2 * int e + 1) = gb_skip (2 * e + 1) g"
    using SKIP_COUNTER_eq[OF assms(1), of "2 * e + 1"] e4 by (simp add: add.commute)
  then show ?thesis using c vlc_lookup[OF d e e4 refl] ue_code_bits(2)[OF e] by (simp add: get_ue_golomb_31_def)
qed

text \<open>A long look ahead near the end of the data: its first 16 bits are right in any case.\<close>

lemma show_bits_long_32:
  assumes "gb_ok g" "UPDATE_CACHE g = Some c"
  shows "\<exists>v. show_bits_long g 32 = Some v \<and> uint v div 2 ^ 16 = uint c div 2 ^ 16 \<and>
    (gb_index g + 32 \<le> size_in_bits_plus8 g \<longrightarrow> next_bits 32 v (gb_rest g))"
proof -
  obtain v where v: "get_bits_long g 32 = Some (v, gb_skip 32 g)" "show_bits_long g 32 = Some v"
      "gb_index g + 32 \<le> size_in_bits_plus8 g \<longrightarrow> next_bits 32 v (gb_rest g)"
    using get_bits_long_ok[OF assms(1), of 32] by auto
  obtain w where w: "get_bits (gb_skip 16 g) 16 = Some (w, gb_skip 32 g)" "next_bits 16 w (gb_rest (gb_skip 16 g))"
    using get_bits_ok[OF gb_skip_ok[OF assms(1)], of 16 16] by (auto simp: gb_skip_skip)
  have "get_bits g 16 = Some (NEG_USR32 c 16, gb_skip 16 g)"
    using assms(2) SKIP_COUNTER_eq[OF assms(1), of 16] by (simp add: get_bits_def)
  then have "v = push_bit 16 (NEG_USR32 c 16) OR w"
    using v(1) w(1) by (simp add: get_bits_long_def MIN_CACHE_BITS_def)
  moreover have "bit w i \<Longrightarrow> i < 16" for i using w(2) unfolding next_bits_def by (metis bit_take_bit_iff)
  ultimately have "drop_bit 16 v = drop_bit 16 c"
    by (intro bit_word_eqI) (auto simp: bit_simps NEG_USR32_def add.commute dest: word_lt)
  then have "uint v div 2 ^ 16 = uint c div 2 ^ 16" by (metis uint_drop)
  then show ?thesis using v by auto
qed

lemma get_ue_long_reads:
  assumes "gb_ok g" "i \<noteq> - 1" "gb_rest g = ue_code (unat i) @ r" "gb_index g + length (ue_code (unat i)) \<le> size_in_bits g"
  shows "get_ue_golomb_long g = Some (i, gb_skip (length (ue_code (unat i))) g)"
proof -
  define x where "x = unat i"
  obtain e where e: "2 ^ e \<le> x + 1" "x + 1 < 2 ^ Suc e" using ue_exponent by blast
  have len: "length (ue_code x) = 2 * e + 1" using ue_code_bits(2)[OF e] .
  have x32: "x + 1 \<le> 2 ^ 32" using unsigned_less[of i, where ?'a = nat] by (simp add: x_def)
  have e31: "e < 32"
  proof (rule ccontr)
    assume "\<not> e < 32"
    then have "(2 :: nat) ^ 32 \<le> x + 1" using e(1) power_increasing[of 32 e "2 :: nat"] by simp
    then have "x = 2 ^ 32 - 1" using x32 by simp
    moreover have "i = of_nat x" by (simp add: x_def)
    ultimately show False using assms(2) by auto
  qed
  have p8: "size_in_bits_plus8 g = size_in_bits g + 8" using assms(1) by (simp add: gb_ok_def)
  have rest: "drop e (gb_rest g) = bits_of (Suc e) (x + 1) @ r"
    and first: "gb_rest g = bits_of (Suc e) (1 :: nat) @ bits_of e (x + 1) @ r"
    using ue_code_first[OF e] assms(3) by (simp_all flip: x_def)
  obtain c where c: "UPDATE_CACHE g = Some c" using update_cache_ok[OF assms(1)] by auto
  obtain v where v: "show_bits_long g 32 = Some v" "uint v div 2 ^ 16 = uint c div 2 ^ 16"
      "gb_index g + 32 \<le> size_in_bits_plus8 g \<longrightarrow> next_bits 32 v (gb_rest g)"
    using show_bits_long_32[OF assms(1) c] by auto
  have "uint v div 2 ^ (31 - e) = int 1"
  proof (cases "e \<le> 15")
    case True
    have "uint c div 2 ^ (32 - Suc e) = int 1" using first True one_less_power[of "2 :: nat" "Suc e"] by (intro cache_top[OF assms(1) _ _ _ c]) simp_all
    moreover have "(2 :: int) ^ (31 - e) = 2 ^ 16 * 2 ^ (15 - e)" using True by (simp only: power_add[symmetric]) simp
    ultimately show ?thesis using v(2) by (simp add: zdiv_zmult2_eq)
  next
    case False
    then have "next_bits 32 v (gb_rest g)" using v(3) assms(4) len p8 by (simp flip: x_def)
    then have "take (Suc e) (bits_of 32 v) = take (Suc e) (gb_rest g)"
      using e31 unfolding next_bits_def by (metis min_def take_take Suc_leI)
    moreover have one: "bits_of (Suc e) (1 :: u32) = bits_of (Suc e) (1 :: nat)" using bits_of_of_nat[of "Suc e" 1, where 'a = 32] e31 by simp
    ultimately have b: "bits_of (Suc e) (drop_bit (31 - e) v) = bits_of (Suc e) (1 :: u32)"
      using first bits_of_top[of "Suc e" v] e31 by simp
    have t: "take_bit (Suc e) (drop_bit (31 - e) v) = drop_bit (31 - e) v"
      using e31 by (intro bit_word_eqI) (auto simp: bit_simps dest: word_lt)
    have "take_bit (Suc e) (1 :: u32) = 1"
      by (simp only: take_bit_of_1 zero_less_Suc of_bool_eq)
    then have "drop_bit (31 - e) v = 1" by (rule bits_of_inject[OF t _ b])
    then have "uint (drop_bit (31 - e) v) = int 1" by simp
    then show ?thesis unfolding uint_drop .
  qed
  then have l: "log2_u v = 31 - e" using cache_log2[of v "31 - e" 1 0] by simp
  define h where "h = gb_skip e g"
  have h: "gb_ok h" "gb_rest h = bits_of (Suc e) (x + 1) @ r" "gb_index h + Suc e \<le> size_in_bits_plus8 h"
    using assms(1,4) len p8 rest by (simp_all add: h_def gb_rest_skip flip: x_def)
  obtain w where w: "get_bits_long h (Suc e) = Some (w, gb_skip (Suc e) h)" "next_bits (Suc e) w (gb_rest h)"
    using get_bits_long_ok[OF h(1), of "Suc e"] h(3) e31 by auto
  have "next_bits (Suc e) (of_nat (x + 1) :: u32) (gb_rest h)"
    unfolding h(2) using next_bits_written[OF take_bit_of_nat[OF e(2)], where 'a = 32, of r] e31
    by (simp add: bits_of_of_nat del: of_nat_Suc of_nat_add)
  then have "w = of_nat (x + 1)" using w(2) by (rule next_bits_unique[rotated])
  then have "w - 1 = i" by (simp add: x_def)
  moreover have "gb_skip (Suc e) h = gb_skip (2 * e + 1) g" by (simp add: h_def gb_skip_skip mult_2)
  ultimately show ?thesis
    using v(1) l w(1) e31 len skip_bits_long_eq[OF assms(1), of e]
    by (simp add: get_ue_golomb_long_def h_def flip: x_def)
qed

lemma fold_sign:
  fixes x :: nat
  assumes "x < 2 ^ 30"
  shows "let b = (of_nat x :: u32); sign = - (b AND 1) in sint ((drop_bit 1 b XOR sign) - sign) = (if odd x then - int (x div 2) else int (x div 2))"
proof -
  have h: "drop_bit 1 (of_nat x :: u32) = of_nat (x div 2)"
  proof -
    have "uint (of_nat x :: u32) = int x" using assms by (simp add: unsigned_of_nat take_bit_nat_eq_self_iff)
    then have "uint (drop_bit 1 (of_nat x :: u32)) = int (x div 2)" by (simp add: uint_drop zdiv_int)
    then show ?thesis by (metis of_int_of_nat_eq word_of_int_uint)
  qed
  have "int (x div 2) < 2 ^ 31" "- (2 ^ 31) \<le> - int (x div 2)" using assms by simp_all
  then have "sint (of_nat (x div 2) :: u32) = int (x div 2)" "sint (- of_nat (x div 2) :: u32) = - int (x div 2)"
    using sint_small[of "int (x div 2)"] sint_small[of "- int (x div 2)"] by simp_all
  moreover have "odd (of_nat x :: u32) \<longleftrightarrow> odd x"
    by (simp add: bit_simps flip: bit_0)
  then have "of_nat x AND 1 = (of_bool (odd x) :: u32)"
    by (intro bit_word_eqI) (auto simp only: bit_and_iff bit_1_iff bit_of_bool_iff bit_0)
  moreover have "(w XOR - 1) + 1 = - w" for w :: u32 using minus_eq_not_plus_1[of w] by simp
  ultimately show ?thesis by (simp add: h[unfolded One_nat_def])
qed

lemma get_se_reads:
  assumes "gb_ok g" "- 32767 \<le> i" "i \<le> 32767" "gb_rest g = ue_code (se_index i) @ r"
    and "gb_index g + length (ue_code (se_index i)) \<le> size_in_bits g"
  shows "get_se_golomb g = Some (i, gb_skip (length (ue_code (se_index i))) g)"
proof -
  define x where "x = se_index i"
  have x: "x \<le> 65534" "i = se_of x" using assms(2,3) by (simp_all add: x_def) (auto simp: se_index_def)
  obtain e where e: "2 ^ e \<le> x + 1" "x + 1 < 2 ^ Suc e" using ue_exponent by blast
  have "(2 :: nat) ^ e < 2 ^ 16" using e(1) x(1) by simp
  then have e15: "e < 16" by (simp only: power_strict_increasing_iff)
  have len: "length (ue_code x) = 2 * e + 1" using ue_code_bits(2)[OF e] .
  have p8: "size_in_bits_plus8 g = size_in_bits g + 8" using assms(1) by (simp add: gb_ok_def)
  obtain c where c: "UPDATE_CACHE g = Some c" using update_cache_ok[OF assms(1)] by auto
  show ?thesis
  proof (cases "e \<le> 4")
    case True
    have "gb_rest g = bits_of (2 * e + 1) (x + 1) @ r" using assms(4) ue_code_bits(1)[OF e] by (simp add: x_def)
    then have d: "uint c div 2 ^ (31 - 2 * e) = int (x + 1)"
      using cache_top[OF assms(1) _ wide[OF e(2)] _ c] e15 True by simp
    have "SKIP_COUNTER g (2 * int e + 1) = gb_skip (2 * e + 1) g"
      using SKIP_COUNTER_eq[OF assms(1), of "2 * e + 1"] e15 by (simp add: add.commute)
    moreover have "(2 :: int) ^ 27 \<le> 2 ^ (e + (31 - 2 * e))" using True by (intro power_increasing) auto
    then have "2 ^ 27 \<le> uint c" using cache_range(1)[OF d e] by linarith
    ultimately show ?thesis using c len vlc_lookup[OF d e True refl] by (simp add: get_se_golomb_def x(2)[symmetric] flip: x_def)
  next
    case False
    obtain r' where first: "gb_rest g = bits_of (Suc e) (1 :: nat) @ r'" and rest: "drop e (gb_rest g) = bits_of (Suc e) (x + 1) @ r"
      using ue_code_first[OF e] assms(4) by (auto simp flip: x_def)
    have d: "uint c div 2 ^ (32 - Suc e) = int 1"
      using first e15 one_less_power[of "2 :: nat" "Suc e"] by (intro cache_top[OF assms(1) _ _ _ c]) simp_all
    then have l: "log2_u c = 31 - e" using cache_log2[of c "32 - Suc e" 1 0] by simp
    have "uint c < 2 ^ Suc (31 - e)" using cache_range(2)[OF d, of 0] by simp
    moreover have "(2 :: int) ^ Suc (31 - e) \<le> 2 ^ 27" using False by (intro power_increasing) auto
    ultimately have small: "\<not> 2 ^ 27 \<le> uint c" by linarith
    define h where "h = gb_skip e g"
    have h: "SKIP_COUNTER g (31 - int (31 - e)) = h" "gb_ok h" "gb_rest h = bits_of (Suc e) (x + 1) @ r"
      using SKIP_COUNTER_eq[OF assms(1), of e] assms(1,5) e15 len p8 rest by (simp_all add: h_def gb_rest_skip flip: x_def)
    obtain c2 where c2: "UPDATE_CACHE h = Some c2" using update_cache_ok[OF h(2)] by auto
    have "uint c2 div 2 ^ (31 - e) = int (x + 1)" using cache_top[OF h(2,3) e(2) _ c2] e15 by simp
    then have b: "drop_bit (31 - e) c2 = of_nat (x + 1)" by (metis uint_drop of_int_of_nat_eq word_of_int_uint)
    have s: "SKIP_COUNTER h (32 - int (31 - e)) = gb_skip (2 * e + 1) g"
      using SKIP_COUNTER_eq[OF h(2), of "Suc e"] e15 by (simp add: h_def gb_skip_skip mult_2 add.commute)
    have "(if odd (x + 1) then - int ((x + 1) div 2) else int ((x + 1) div 2)) = i"
      unfolding x(2) se_of_def by (auto elim!: evenE oddE)
    then show ?thesis
      using c l small h(1) c2 b s fold_sign[of "x + 1"] x(1) len
      by (simp add: get_se_golomb_def Let_def flip: x_def del: of_nat_Suc of_nat_add drop_bit_drop_bit)
  qed
qed

lemma set_se_appends:
  assumes "pb_ok s" "- 32767 \<le> i" "i \<le> 32767" "length (pb_bits s) + length (ue_code (se_index i)) \<le> 8 * buf_end s"
  shows "appends s (ue_code (se_index i)) (set_se_golomb s i)"
proof -
  have w: "s32 (2 * i - 1) = 2 * i - 1" using assms(2,3) by (intro s32_id) (simp add: in_s32_def)
  have n: "(2 * i - 1) XOR - 1 = - (2 * i)"
    using minus_eq_not_plus_1[of "2 * i"] by (simp add: not_int_def)
  have "set_se_golomb s i = set_ue_golomb s (int (se_index i))"
    using w n by (simp add: set_se_golomb_def se_index_def)
  moreover have "int (se_index i) \<le> 0xFFFE" using assms(2,3) by (auto simp: se_index_def)
  ultimately show ?thesis using set_ue_appends[OF assms(1), of "int (se_index i)"] assms(4) by simp
qed

interpretation ue: bit_code set_ue_golomb get_ue_golomb "\<lambda>i. ue_code (nat i)" "\<lambda>i. 0 \<le> i \<and> i \<le> 8190"
  by unfold_locales (simp_all add: set_ue_appends get_ue_reads)

interpretation ue_long: bit_code set_ue_golomb_long get_ue_golomb_long "\<lambda>i. ue_code (unat i)" "\<lambda>i. i \<noteq> - 1"
  by unfold_locales (simp_all add: set_ue_long_appends get_ue_long_reads)

interpretation se: bit_code set_se_golomb get_se_golomb "\<lambda>i. ue_code (se_index i)" "\<lambda>i. - 32767 \<le> i \<and> i \<le> 32767"
  by unfold_locales (simp_all add: set_se_appends get_se_reads)

lemma get_ue_0_1:
  assumes "gb_ok g" "i = 0 \<or> i = 1" "gb_rest g = (i = 0) # r"
  shows "\<exists>b. get_bits1 g = Some (b, gb_skip 1 g) \<and> uint (b XOR 1) = i"
proof -
  obtain b where b: "get_bits1 g = Some (b, gb_skip 1 g)" "uint b = of_bool (hd (gb_rest g))"
    using get_bits1_bit[OF assms(1)] by auto
  then have "b = of_bool (i = 0)" using assms(3) by (metis list.sel(1) of_int_of_bool word_of_int_uint)
  then show ?thesis using b(1) assms(2) by auto
qed

definition te_code :: "int \<Rightarrow> int \<Rightarrow> bool list" where
  "te_code r i = (if r = 2 then [i = 0] else ue_code (nat i))"

text \<open>The truncated code of a range: one inverted bit for two values, else Exp-Golomb.\<close>

interpretation te: bit_code "\<lambda>s i. set_te_golomb s i r" "\<lambda>g. get_te_golomb g r" "te_code r"
  "\<lambda>i. 0 \<le> i \<and> (if r = 2 then i \<le> 1 else i \<le> 8190)" for r
proof
  fix s v
  assume a: "pb_ok s" "0 \<le> v \<and> (if r = 2 then v \<le> 1 else v \<le> 8190)" "length (pb_bits s) + length (te_code r v) \<le> 8 * buf_end s"
  show "appends s (te_code r v) (set_te_golomb s v r)"
  proof (cases "r = 2")
    case True
    then have "v = 0 \<or> v = 1" using a(2) by auto
    then show ?thesis
      using put_bits_appends[OF a(1), of 1 "word_of_int (v XOR 1)"] a(3) True
      by (auto simp: te_code_def set_te_golomb_def bits_of_def)
  qed (use a in \<open>simp add: te_code_def set_te_golomb_def set_ue_appends\<close>)
next
  fix g v r'
  assume a: "gb_ok g" "0 \<le> v \<and> (if r = 2 then v \<le> 1 else v \<le> 8190)" "gb_rest g = te_code r v @ r'"
    "gb_index g + length (te_code r v) \<le> size_in_bits g"
  show "get_te_golomb g r = Some (v, gb_skip (length (te_code r v)) g)"
  proof (cases "r = 2")
    case True
    then have "v = 0 \<or> v = 1" using a(2) by auto
    then show ?thesis using a True get_ue_0_1[OF a(1), of v r'] by (auto simp: te_code_def get_te_golomb_def)
  qed (use a in \<open>simp add: te_code_def get_te_golomb_def get_ue_reads\<close>)
qed

section \<open>The Golomb-Rice codes\<close>









section \<open>The codes of JPEG-LS and FLAC\<close>







lemma bind_split: "Option.bind (Option.bind a (\<lambda>(e, s). f e s)) g = Option.bind a (\<lambda>(e, s). Option.bind (f e s) g)"
  by (cases a) (auto split: prod.splits)









section \<open>Signed Rice codes\<close>






section \<open>Properties\<close>

definition fits :: "('v \<Rightarrow> bool list) \<Rightarrow> 'v list \<Rightarrow> u8 list \<Rightarrow> bool" where
  "fits code vs buf \<longleftrightarrow> length (concat (map code vs)) \<le> 8 * length buf"

text \<open>C31: The Exp-Golomb codes. Whatever list of values is written into a buffer that holds its codes is read back from the
  flushed buffer with its padding: unsigned values up to 8190, the limit the reader states, with one look at the
  cache; up to 2^32 - 2 with the long functions; signed values of 16 bits; and truncated codes of any range.\<close>

theorem golomb_roundtrip:
  assumes "8 * int (length buf) < INT_MAX - 512" "64 \<le> length pad"
  shows "(list_all (\<lambda>i. 0 \<le> i \<and> i \<le> 8190) us \<and> fits (\<lambda>i. ue_code (nat i)) us buf \<longrightarrow>
       roundtrips set_ue_golomb get_ue_golomb buf pad us) \<and>
    (list_all (\<lambda>i. i \<noteq> - 1) ls \<and> fits (\<lambda>i. ue_code (unat i)) ls buf \<longrightarrow>
       roundtrips set_ue_golomb_long get_ue_golomb_long buf pad ls) \<and>
    (list_all (\<lambda>i. - 32767 \<le> i \<and> i \<le> 32767) ss \<and> fits (\<lambda>i. ue_code (se_index i)) ss buf \<longrightarrow>
       roundtrips set_se_golomb get_se_golomb buf pad ss) \<and>
    (list_all (\<lambda>i. 0 \<le> i \<and> (if r = 2 then i \<le> 1 else i \<le> 8190)) ts \<and> fits (te_code r) ts buf \<longrightarrow>
       roundtrips (\<lambda>s i. set_te_golomb s i r) (\<lambda>g. get_te_golomb g r) buf pad ts)"
  using ue.roundtrip[of us buf pad] ue_long.roundtrip[of ls buf pad] se.roundtrip[of ss buf pad] te.roundtrip[of r ts buf pad] assms
  by (simp add: fits_def)

text \<open>\<open>golomb_roundtrip\<close> on short lists in a buffer of 32 bytes.\<close>

lemma golomb_roundtrip_witness:
  "roundtrips set_ue_golomb get_ue_golomb (replicate 32 0) (replicate 64 0xff) [0, 30, 31, 8190] \<and>
   roundtrips set_ue_golomb_long get_ue_golomb_long (replicate 32 0) (replicate 64 0xff) [0, 7, 0xfffffffe] \<and>
   roundtrips set_se_golomb get_se_golomb (replicate 32 0) (replicate 64 0xff) [- 3, 0, 32767] \<and>
   roundtrips (\<lambda>s i. set_te_golomb s i 2) (\<lambda>g. get_te_golomb g 2) (replicate 32 0) (replicate 64 0xff) [0, 1, 1]"
proof -
  have "fits (\<lambda>i. ue_code (nat i)) [0, 30, 31, 8190 :: int] (replicate 32 0)" "fits (\<lambda>i. ue_code (unat i)) [0, 7, 0xfffffffe :: u32] (replicate 32 0)"
    "fits (\<lambda>i. ue_code (se_index i)) [- 3, 0, 32767] (replicate 32 0)" "fits (te_code 2) [0, 1, 1] (replicate 32 0)"
    by (simp_all add: fits_def ue_code_def bitlen.simps te_code_def se_index_def)
  then show ?thesis
    using golomb_roundtrip[of "replicate 32 0" "replicate 64 0xff" "[0, 30, 31, 8190]" "[0, 7, 0xfffffffe]" "[- 3, 0, 32767]" 2 "[0, 1, 1]"]
    by simp
qed



end
