(* ===== verification/Hash.thy ===== *)
theory Hash
  imports Bytes
begin

text \<open>
  The interface between the hash functions of libavutil and the code that feeds them. MD5, SHA-1, SHA-2 and RIPEMD
  collect the message in a buffer of one block and compress every full block; they differ in the compression function,
  the byte order and the size of the block. Here are the specification they share (the chaining of a compression
  function over the blocks of the padded message), the buffered update that sha.c, sha512.c and ripemd.c have in common, and the
  locales that say what an update and the padding loop have to do, from which follows that the digest does not depend
  on how the message was cut.
\<close>

section \<open>Blocks of a message\<close>

fun blocks :: "nat \<Rightarrow> 'a list \<Rightarrow> 'a list list" where
  "blocks n xs = (if n = 0 \<or> length xs < n then [] else take n xs # blocks n (drop n xs))"

definition leftover :: "nat \<Rightarrow> 'a list \<Rightarrow> 'a list" where
  "leftover n xs = drop (n * (length xs div n)) xs"

definition absorb :: "nat \<Rightarrow> ('s \<Rightarrow> 'a list \<Rightarrow> 's) \<Rightarrow> 's \<Rightarrow> 'a list \<Rightarrow> 's" where
  "absorb n f s xs = foldl f s (blocks n xs)"

text \<open>
  The padded message: one byte 0x80, as many zeros as bring the length to \<open>L\<close> modulo the block size, and the length in
  bits, which fills the block. \<open>md_hash\<close> chains the compression function over its blocks.
\<close>

definition md_pad :: "nat \<Rightarrow> nat \<Rightarrow> (u64 \<Rightarrow> u8 list) \<Rightarrow> u8 list \<Rightarrow> u8 list" where
  "md_pad n L enc m =
     m @ [0x80] @ replicate ((n + L - (length m + 1) mod n) mod n) 0 @ enc (of_nat (8 * length m))"

definition md_hash :: "nat \<Rightarrow> nat \<Rightarrow> (u64 \<Rightarrow> u8 list) \<Rightarrow> ('s \<Rightarrow> u8 list \<Rightarrow> 's) \<Rightarrow> 's \<Rightarrow> u8 list \<Rightarrow> 's" where
  "md_hash n L enc f s m = absorb n f s (md_pad n L enc m)"

declare blocks.simps [simp del]

lemma blocks_short [simp]: "length xs < n \<Longrightarrow> blocks n xs = []"
  by (subst blocks.simps) simp

lemma blocks_zero [simp]: "blocks 0 xs = []"
  by (subst blocks.simps) simp

lemma blocks_step: "0 < n \<Longrightarrow> n \<le> length xs \<Longrightarrow> blocks n xs = take n xs # blocks n (drop n xs)"
  by (subst blocks.simps) simp

lemma length_leftover [simp]: "length (leftover n xs) = length xs mod n"
  by (simp add: leftover_def minus_mult_div_eq_mod)

lemma leftover_short [simp]: "length xs < n \<Longrightarrow> leftover n xs = xs"
  by (simp add: leftover_def)

lemma leftover_step: "0 < n \<Longrightarrow> n \<le> length xs \<Longrightarrow> leftover n xs = leftover n (drop n xs)"
  by (simp add: leftover_def le_div_geq mult.commute add.commute)

lemma absorb_short [simp]: "length xs < n \<Longrightarrow> absorb n f s xs = s"
  by (simp add: absorb_def)

lemma absorb_step:
  "0 < n \<Longrightarrow> n \<le> length xs \<Longrightarrow> absorb n f s xs = absorb n f (f s (take n xs)) (drop n xs)"
  by (simp add: absorb_def blocks_step)

lemma absorb_block: "0 < n \<Longrightarrow> length b = n \<Longrightarrow> absorb n f s (b @ xs) = absorb n f (f s b) xs"
  by (subst absorb_step) auto

lemma leftover_block: "0 < n \<Longrightarrow> length b = n \<Longrightarrow> leftover n (b @ xs) = leftover n xs"
  by (subst leftover_step) auto

text \<open>What is absorbed first can be forgotten, but for the leftover.\<close>

lemma absorb_append:
  "0 < n \<Longrightarrow> absorb n f s (xs @ ys) = absorb n f (absorb n f s xs) (leftover n xs @ ys)"
proof (induction "length xs" arbitrary: s xs rule: less_induct)
  case less
  show ?case
  proof (cases "length xs < n")
    case False
    then show ?thesis
      using less.hyps[of "drop n xs" "f s (take n xs)"] less.prems
      by (simp add: absorb_step[of n xs] absorb_step[of n "xs @ ys"] leftover_step[of n xs])
  qed simp
qed

lemma leftover_append: "0 < n \<Longrightarrow> leftover n (xs @ ys) = leftover n (leftover n xs @ ys)"
proof (induction "length xs" arbitrary: xs rule: less_induct)
  case less
  show ?case
  proof (cases "length xs < n")
    case False
    then show ?thesis
      using less.hyps[of "drop n xs"] less.prems
      by (simp add: leftover_step[of n xs] leftover_step[of n "xs @ ys"])
  qed simp
qed

section \<open>The buffered update of sha.c, sha512.c and ripemd.c\<close>

text \<open>
  The three files contain the same text, over their own block size \<open>n\<close> and compression function \<open>f\<close>. \<open>small\<close> is
  \<open>CONFIG_SMALL\<close>: the data goes byte by byte; otherwise a first copy completes the buffer, full blocks are
  compressed in place, and the rest is copied. The copies are checked against buffer and data; \<open>len\<close>, \<open>i\<close> and \<open>j\<close> are
  32-bit numbers as in the code, so that \<open>j + len\<close> wraps.
\<close>

definition update_byte ::
    "u32 \<Rightarrow> ('s \<Rightarrow> u8 list \<Rightarrow> 's) \<Rightarrow> u8 \<Rightarrow> 's \<times> u8 list \<times> u32 \<Rightarrow> 's \<times> u8 list \<times> u32" where
  "update_byte n f x = (\<lambda>(st, buf, j).
     (let buf = buf[unat j := x]; j = j + 1
      in if n = j then (f st buf, buf, 0) else (st, buf, j)))"

partial_function (option) update_blocks ::
    "u32 \<Rightarrow> ('s \<Rightarrow> u8 list \<Rightarrow> 's) \<Rightarrow> u8 list \<Rightarrow> u32 \<Rightarrow> u32 \<Rightarrow> 's \<Rightarrow> ('s \<times> u32) option" where
  "update_blocks n f data len i st =
     (if i + (n - 1) < len
      then Option.bind (load data (unat i) (unat n)) (\<lambda>b. update_blocks n f data len (i + n) (f st b))
      else Some (st, i))"

definition buf_update ::
    "bool \<Rightarrow> u32 \<Rightarrow> ('s \<Rightarrow> u8 list \<Rightarrow> 's) \<Rightarrow> u8 list \<Rightarrow> u32 \<Rightarrow> 's \<Rightarrow> u8 list \<Rightarrow> ('s \<times> u8 list) option" where
  "buf_update small n f buf j st data =
     (let len = word_of_nat (length data)
      in if small then
           (let (st, buf, j) = fold (update_byte n f) data (st, buf, j) in Some (st, buf))
         else if n - 1 < j + len then
           (let i = n - j
            in do { x \<leftarrow> load data 0 (unat i);
                    buf \<leftarrow> store buf (unat j) x;
                    (st, i) \<leftarrow> update_blocks n f data len i (f st buf);
                    y \<leftarrow> load data (unat i) (unat (len - i));
                    buf \<leftarrow> store buf 0 y;
                    Some (st, buf) })
         else do { buf \<leftarrow> store buf (unat j) data; Some (st, buf) })"

lemma unat_add_exact: "unat a + unat b < 2 ^ 32 \<Longrightarrow> unat (a + b) = unat a + unat (b :: u32)"
  using unat_add_lem[of a b] by simp

lemma unat_of_nat_exact: "k < 2 ^ 32 \<Longrightarrow> unat (word_of_nat k :: u32) = k"
  by (simp add: unsigned_of_nat take_bit_nat_eq_self)

lemma unat_pred: "0 < unat w \<Longrightarrow> unat (w - 1) = unat (w :: u32) - 1"
  by (cases "w = 0") (auto simp: unat_minus_one)

lemma update_byte_step:
  assumes "0 < n" "unat w = n" "length p < n" "length buf = n" "take (length p) buf = p" "unat j = length p"
  obtains buf' j' where "length buf' = n"
    "update_byte w f x (st, buf, j) = (absorb n f st (p @ [x]), buf', j')"
    "take (length (leftover n (p @ [x]))) buf' = leftover n (p @ [x])"
    "unat j' = length (leftover n (p @ [x]))"
proof -
  have j1: "unat (j + 1) = Suc (length p)"
    using assms unat_add_lem[of j 1] unsigned_less[of w, where 'a = nat] by simp
  have w: "w = j + 1 \<longleftrightarrow> n = Suc (length p)"
    using j1 assms(2) by (metis word_unat_eq_iff)
  have t: "take (Suc (length p)) (buf[unat j := x]) = p @ [x]"
    using assms by (simp add: take_Suc_conv_app_nth)
  show thesis
  proof (cases "n = Suc (length p)")
    case True
    then have "take n (buf[unat j := x]) = buf[unat j := x]" using assms by simp
    then have b: "buf[unat j := x] = p @ [x]" using t True by simp
    have "update_byte w f x (st, buf, j) = (f st (p @ [x]), p @ [x], 0)"
      using w True b by (simp add: update_byte_def Let_def)
    moreover have "leftover n (p @ [x]) = []" using True leftover_block[of n "p @ [x]" "[]"] assms by simp
    moreover have "absorb n f st (p @ [x]) = f st (p @ [x])"
      using True absorb_block[of n "p @ [x]" f st "[]"] assms by simp
    ultimately show thesis using that[of "p @ [x]" 0] True by simp
  next
    case False
    then have s: "Suc (length p) < n" using assms by simp
    have "update_byte w f x (st, buf, j) = (st, buf[unat j := x], j + 1)"
      using w False by (simp add: update_byte_def Let_def)
    then show thesis using that[of "buf[unat j := x]" "j + 1"] s t j1 assms by simp
  qed
qed

lemma update_bytes:
  assumes "0 < n" "unat w = n" "length p < n" "length buf = n" "take (length p) buf = p" "unat j = length p"
  shows "\<exists>buf' j'. fold (update_byte w f) data (st, buf, j) = (absorb n f st (p @ data), buf', j') \<and>
     length buf' = n \<and> take (length (leftover n (p @ data))) buf' = leftover n (p @ data)"
  using assms
proof (induction data arbitrary: p buf j st)
  case (Cons x data)
  from update_byte_step[OF Cons.prems] obtain buf' j' where s: "length buf' = n"
    "update_byte w f x (st, buf, j) = (absorb n f st (p @ [x]), buf', j')"
    "take (length (leftover n (p @ [x]))) buf' = leftover n (p @ [x])"
    "unat j' = length (leftover n (p @ [x]))" by metis
  have "length (leftover n (p @ [x])) < n" using Cons.prems(1) by simp
  from Cons.IH[OF Cons.prems(1,2) this s(1,3,4), of "absorb n f st (p @ [x])"]
  show ?case
    using s(2) absorb_append[OF Cons.prems(1), of f st "p @ [x]" data]
      leftover_append[OF Cons.prems(1), of "p @ [x]" data] by simp
qed simp

text \<open>The loop over the blocks in place: it ends, and stops with less than a block left.\<close>

lemma update_blocks_ok:
  assumes "0 < n" "unat w = n" "length data + n \<le> 2 ^ 32" "i \<le> length data" "unat j = i"
  shows "\<exists>i'. update_blocks w f data (word_of_nat (length data)) j st = Some (absorb n f st (drop i data), i') \<and>
     unat i' \<le> length data \<and> drop (unat i') data = leftover n (drop i data)"
  using assms
proof (induction "length data - i" arbitrary: i j st rule: less_induct)
  case less
  let ?len = "word_of_nat (length data) :: u32"
  have len: "unat ?len = length data" using less.prems by (simp add: unat_of_nat_exact)
  have e: "unat (j + (w - 1)) = i + n - 1"
    using unat_add_exact[of j "w - 1"] unat_pred[of w] less.prems by simp
  show ?case
  proof (cases "i + n \<le> length data")
    case True
    have "unat (j + (w - 1)) = i + n - 1" using e by simp
    then have c: "j + (w - 1) < ?len" using True len less.prems(1) by (simp add: word_less_nat_alt)
    have j': "unat (j + w) = i + n" using unat_add_exact[of j w] less.prems True by simp
    have ld: "load data (unat j) (unat w) = Some (take n (drop i data))"
      using True less.prems by (simp add: load_def)
    have "length data - (i + n) < length data - i" using True less.prems by simp
    from less.hyps[OF this less.prems(1-3) True j', of "f st (take n (drop i data))"]
    show ?thesis using c ld True less.prems(1)
      by (subst update_blocks.simps)
        (simp add: absorb_step[of n "drop i data"] leftover_step[of n "drop i data"] add.commute)
  next
    case False
    have "\<not> j + (w - 1) < ?len" using False e len by (simp add: word_less_nat_alt)
    then show ?thesis using False less.prems
      by (subst update_blocks.simps) auto
  qed
qed

text \<open>One update: up to \<open>2 ^ 32 - n\<close> bytes, the limit below which \<open>j + len\<close> cannot wrap, are absorbed after what waits in
  the buffer. Beyond it the first copy may run over the end of the buffer.\<close>

lemma buf_update_ok:
  assumes "0 < n" "unat w = n" "length buf = n" "unat j < n" "length data + n \<le> 2 ^ 32"
  shows "\<exists>buf'. buf_update small w f buf j st data = Some (absorb n f st (take (unat j) buf @ data), buf') \<and>
     length buf' = n \<and>
     take ((unat j + length data) mod n) buf' = leftover n (take (unat j) buf @ data)"
proof -
  define p where "p = take (unat j) buf"
  have p: "length p = unat j" "take (length p) buf = p" using assms by (simp_all add: p_def)
  show ?thesis
  proof (cases small)
    case True
    have "length p < n" using p assms(4) by simp
    from update_bytes[OF assms(1,2) this assms(3) p(2) p(1)[symmetric], of f data st]
    obtain buf' j' where "fold (update_byte w f) data (st, buf, j) = (absorb n f st (p @ data), buf', j')"
      "length buf' = n" "take (length (leftover n (p @ data))) buf' = leftover n (p @ data)" by blast
    then show ?thesis using True p(1) by (simp add: buf_update_def p_def[symmetric])
  next
    case big: False
    let ?len = "word_of_nat (length data) :: u32"
    have len: "unat ?len = length data" using assms by (simp add: unat_of_nat_exact)
    have "unat (j + ?len) = unat j + length data" using unat_add_exact[of j ?len] len assms by simp
    then have c: "w - 1 < j + ?len \<longleftrightarrow> n \<le> unat j + length data"
      using assms unat_pred[of w] by (simp add: word_less_nat_alt) linarith
    show ?thesis
    proof (cases "n \<le> unat j + length data")
      case False
      then have st: "store buf (unat j) data = Some (p @ data @ drop (unat j + length data) buf)"
        using assms by (simp add: store_def p_def)
      then show ?thesis using False c big p assms by (simp add: buf_update_def p_def[symmetric])
    next
      case True
      have i: "unat (w - j) = n - unat j" using assms by (simp add: unat_sub word_le_nat_alt)
      let ?x = "take (n - unat j) data" and ?r = "drop (n - unat j) data"
      have st: "load data 0 (n - unat j) = Some ?x" "store buf (unat j) ?x = Some (p @ ?x)"
        using True assms by (simp_all add: load_def store_def p_def)
      have "n - unat j \<le> length data" using True by simp
      from update_blocks_ok[OF assms(1,2,5) this i, of f "f st (p @ ?x)"]
      obtain i' where u: "update_blocks w f data ?len (w - j) (f st (p @ ?x)) = Some (absorb n f (f st (p @ ?x)) ?r, i')"
        "unat i' \<le> length data" "drop (unat i') data = leftover n ?r" by blast
      have "length (p @ ?x) = n" using True p assms by simp
      then have ab: "absorb n f st (p @ data) = absorb n f (f st (p @ ?x)) ?r"
        "leftover n (p @ data) = leftover n ?r"
        using absorb_block[of n "p @ ?x" f st ?r] leftover_block[of n "p @ ?x" ?r] assms(1) by simp_all
      let ?y = "leftover n ?r"
      have "unat (?len - i') = length data - unat i'"
        using u(2) len by (simp add: unat_sub word_le_nat_alt)
      then have "load data (unat i') (unat (?len - i')) = Some (drop (unat i') data)"
        using u(2) by (simp add: load_def)
      then have y: "load data (unat i') (unat (?len - i')) = Some ?y" unfolding u(3) .
      have ly: "length ?y = (unat j + length data) mod n"
        using arg_cong[OF ab(2), of length] p by simp
      then have "length ?y < n" using assms(1) by simp
      then have "store (p @ ?x) 0 ?y = Some (?y @ drop (length ?y) (p @ ?x))"
        using \<open>length (p @ ?x) = n\<close> by (simp add: store_def)
      then show ?thesis
        using big c True st i u(1) y ab ly \<open>length (p @ ?x) = n\<close> \<open>length ?y < n\<close>
        by (simp add: buf_update_def p_def[symmetric])
    qed
  qed
qed

lemma buf_update_overrun:
  assumes "unat j < length buf" "unat w \<le> 2 ^ 31" "0 < unat w" "unat j < unat w" "length buf = unat w"
    and "length data < 2 ^ 32" "2 ^ 32 \<le> unat j + length data"
  shows "buf_update False w f buf j st data = None"
proof -
  let ?len = "word_of_nat (length data) :: u32"
  have len: "unat ?len = length data" using assms(6) by (rule unat_of_nat_exact)
  have "unat (j + ?len) = unat j + length data - 2 ^ 32"
    using assms(7) len unat_plus_if_size[of j ?len] by (simp add: word_size)
  then have "\<not> w - 1 < j + ?len"
    using assms unat_pred[of w] by (simp add: word_less_nat_alt)
  moreover have "store buf (unat j) data = None" using assms by (simp add: store_def)
  ultimately show ?thesis by (simp add: buf_update_def)
qed

section \<open>The interface\<close>

text \<open>
  \<open>update_all\<close> feeds a message in pieces. The locale \<open>hash_stream\<close> is what such an update has to satisfy: \<open>count\<close>,
  \<open>state\<close> and \<open>pend\<close> read the byte count, the chaining value and the waiting bytes of a context, \<open>ok\<close> is the invariant
  of its other fields, \<open>lim\<close> bounds one piece. A context represents a message if it has absorbed it.
\<close>

primrec update_all :: "('c \<Rightarrow> u8 list \<Rightarrow> 'c option) \<Rightarrow> 'c \<Rightarrow> u8 list list \<Rightarrow> 'c option" where
  "update_all upd c [] = Some c"
| "update_all upd c (d # ds) = Option.bind (upd c d) (\<lambda>c. update_all upd c ds)"

definition represents ::
    "nat \<Rightarrow> ('s \<Rightarrow> u8 list \<Rightarrow> 's) \<Rightarrow> ('c \<Rightarrow> bool) \<Rightarrow> ('c \<Rightarrow> u64) \<Rightarrow> ('c \<Rightarrow> 's) \<Rightarrow> ('c \<Rightarrow> u8 list) \<Rightarrow> 's \<Rightarrow> 'c \<Rightarrow> u8 list \<Rightarrow> bool" where
  "represents n f ok count state pend s0 c m \<longleftrightarrow>
     ok c \<and> count c = of_nat (length m) \<and> state c = absorb n f s0 m \<and> pend c = leftover n m"

locale hash_stream =
  fixes n lim :: nat
    and f :: "'s \<Rightarrow> u8 list \<Rightarrow> 's"
    and update :: "'c \<Rightarrow> u8 list \<Rightarrow> 'c option"
    and count :: "'c \<Rightarrow> u64"
    and state :: "'c \<Rightarrow> 's"
    and pend :: "'c \<Rightarrow> u8 list"
    and ok :: "'c \<Rightarrow> bool"
  assumes pos: "0 < n" "n dvd 2 ^ 64"
    and update_ok: "ok c \<Longrightarrow> length (pend c) = unat (count c) mod n \<Longrightarrow> length d \<le> lim \<Longrightarrow>
      \<exists>c'. update c d = Some c' \<and> ok c' \<and> count c' = count c + of_nat (length d) \<and>
           state c' = absorb n f (state c) (pend c @ d) \<and> pend c' = leftover n (pend c @ d)"
begin

abbreviation rep :: "'s \<Rightarrow> 'c \<Rightarrow> u8 list \<Rightarrow> bool" where
  "rep \<equiv> represents n f ok count state pend"

lemma count_mod: "rep s0 c m \<Longrightarrow> unat (count c) mod n = length m mod n"
  using pos(2) by (simp add: represents_def unsigned_of_nat take_bit_eq_mod mod_mod_cancel)

lemma start: "ok c \<Longrightarrow> count c = 0 \<Longrightarrow> pend c = [] \<Longrightarrow> rep (state c) c []"
  using pos(1) by (simp add: represents_def)

lemma rep_update:
  assumes "rep s0 c m" "length d \<le> lim"
  shows "\<exists>c'. update c d = Some c' \<and> rep s0 c' (m @ d)"
proof -
  have "length (pend c) = unat (count c) mod n"
    using assms(1) count_mod[OF assms(1)] by (simp add: represents_def)
  from update_ok[OF _ this assms(2)] assms(1) obtain c' where
    "update c d = Some c'" "ok c'" "count c' = count c + of_nat (length d)"
    "state c' = absorb n f (state c) (pend c @ d)" "pend c' = leftover n (pend c @ d)"
    by (auto simp: represents_def)
  then show ?thesis
    using assms(1) absorb_append[OF pos(1), of f s0 m d] leftover_append[OF pos(1), of m d]
    by (simp add: represents_def)
qed

lemma rep_update_all:
  "rep s0 c m \<Longrightarrow> \<forall>d\<in>set ds. length d \<le> lim \<Longrightarrow>
     \<exists>c'. update_all update c ds = Some c' \<and> rep s0 c' (m @ concat ds)"
proof (induction ds arbitrary: c m)
  case (Cons d ds)
  then obtain c1 where "update c d = Some c1" "rep s0 c1 (m @ d)"
    using rep_update[of s0 c m d] by auto
  then show ?case using Cons.IH[of c1 "m @ d"] Cons.prems(2) by simp
qed simp

end

text \<open>
  The end of a message: the byte 0x80, the loop \<open>pad\<close> that appends zero bytes until the count is \<open>L\<close> modulo the block
  size, and the length field. The loop ends because every round brings the count one byte closer.
\<close>

lemma zeros_left:
  "L < n \<Longrightarrow> (n + L - l mod n) mod n = (if l mod n \<le> L then L - l mod n else n + L - l mod n)" for n :: nat
proof (cases "l mod n \<le> L")
  case True
  assume "L < n"
  then have "L - l mod n < n" by simp
  moreover have "n + L - l mod n = n + (L - l mod n)" using True by simp
  ultimately show ?thesis using True by (simp only: mod_add_self1 mod_less if_True)
next
  case False
  assume "L < n"
  then show ?thesis using False mod_less_divisor[of n l] by simp
qed

lemma zeros_step:
  "L < n \<Longrightarrow> (n + L - l mod n) mod n = Suc k \<Longrightarrow> (n + L - Suc l mod n) mod n = k" for n :: nat
  using mod_less_divisor[of n l] zeros_left[of L n l] zeros_left[of L n "Suc l"]
  by (auto simp: mod_Suc split: if_splits)

locale hash_pad = hash_stream n lim f update count state pend ok
  for n lim and f :: "'s \<Rightarrow> u8 list \<Rightarrow> 's" and update :: "'c \<Rightarrow> u8 list \<Rightarrow> 'c option"
    and count :: "'c \<Rightarrow> u64" and state :: "'c \<Rightarrow> 's" and pend :: "'c \<Rightarrow> u8 list" and ok :: "'c \<Rightarrow> bool" +
  fixes pad :: "'c \<Rightarrow> 'c option" and L :: nat
  assumes L: "L < n" and lim_pos: "0 < lim"
    and pad_unfold: "pad c = (if unat (count c) mod n \<noteq> L then Option.bind (update c [0]) pad else Some c)"
begin

lemma rep_pad:
  assumes "rep s0 c m"
  shows "\<exists>c'. pad c = Some c' \<and> rep s0 c' (m @ replicate ((n + L - length m mod n) mod n) 0)"
  using assms
proof (induction "(n + L - length m mod n) mod n" arbitrary: c m)
  case 0
  then have "length m mod n = L"
    using zeros_left[OF L, of "length m"] mod_less_divisor[OF pos(1), of "length m"] by (simp split: if_splits)
  then show ?case using 0 count_mod[OF 0(2)] by (subst pad_unfold) simp
next
  case (Suc k)
  have "length m mod n \<noteq> L" using Suc(2) zeros_left[OF L, of "length m"] by (simp split: if_splits)
  then have p: "pad c = Option.bind (update c [0]) pad"
    using count_mod[OF Suc(3)] by (subst pad_unfold) simp
  obtain c1 where c1: "update c [0] = Some c1" "rep s0 c1 (m @ [0])"
    using rep_update[OF Suc(3), of "[0]"] lim_pos by auto
  have k: "k = (n + L - length (m @ [0 :: u8]) mod n) mod n" using Suc(2) zeros_step[OF L, of "length m" k] by simp
  have "replicate ((n + L - length m mod n) mod n) (0 :: u8) = [0] @ replicate k 0"
    using Suc(2)[symmetric] by simp
  then show ?case using Suc(1)[OF k c1(2)] p c1(1) k by simp
qed

lemma rep_final:
  assumes "rep s0 c m" "concat fields = enc (of_nat (8 * length m))" "\<forall>d\<in>set fields. length d \<le> lim"
  shows "\<exists>c1 c2 c3. update c [0x80] = Some c1 \<and> pad c1 = Some c2 \<and> update_all update c2 fields = Some c3 \<and>
     ok c3 \<and> state c3 = md_hash n L enc f s0 m"
proof -
  obtain c1 where c1: "update c [0x80] = Some c1" "rep s0 c1 (m @ [0x80])"
    using rep_update[OF assms(1), of "[0x80]"] lim_pos by auto
  obtain c2 where c2: "pad c1 = Some c2"
    "rep s0 c2 (m @ [0x80] @ replicate ((n + L - (length m + 1) mod n) mod n) 0)"
    using rep_pad[OF c1(2)] by auto
  obtain c3 where "update_all update c2 fields = Some c3" "rep s0 c3 (md_pad n L enc m)"
    using rep_update_all[OF c2(2) assms(3)] assms(2) by (auto simp: md_pad_def)
  then show ?thesis using c1(1) c2(1) by (auto simp: represents_def md_hash_def)
qed

lemma rep_pieces:
  "ok c \<Longrightarrow> count c = 0 \<Longrightarrow> pend c = [] \<Longrightarrow> \<forall>d\<in>set ds. length d \<le> lim \<Longrightarrow>
     \<exists>c'. update_all update c ds = Some c' \<and> rep (state c) c' (concat ds)"
  using rep_update_all[of "state c" c "[]" ds] start[of c] by simp

end

text \<open>The position in the buffer: the low bits of the count.\<close>

lemma unat_and_63 [simp]: "unat (w AND 63) = unat (w :: u64) mod 64"
proof -
  have "w AND 63 = take_bit 6 w" by (simp add: take_bit_eq_mask mask_eq_exp_minus_1)
  then show ?thesis by (simp add: take_bit_eq_mod unat_mod)
qed

lemma unat_and_127 [simp]: "unat (w AND 127) = unat (w :: u64) mod 128"
proof -
  have "w AND 127 = take_bit 7 w" by (simp add: take_bit_eq_mask mask_eq_exp_minus_1)
  then show ?thesis by (simp add: take_bit_eq_mod unat_mod)
qed

lemma unat_to_u32: "unat w < 2 ^ 32 \<Longrightarrow> unat (ucast (w :: u64) :: u32) = unat w"
  by (simp add: unsigned_ucast_eq take_bit_nat_eq_self)

lemma unat_position_64: "unat (ucast (w AND 63) :: u32) = unat (w :: u64) mod 64"
  using mod_less_divisor[of 64 "unat w"] by (subst unat_to_u32) simp_all

lemma unat_position_128: "unat (ucast (w AND 127) :: u32) = unat (w :: u64) mod 128"
  using mod_less_divisor[of 128 "unat w"] by (subst unat_to_u32) simp_all

lemma count_shift: "push_bit 3 (word_of_nat l :: u64) = word_of_nat (8 * l)"
  by (simp add: push_bit_eq_mult mult.commute)

lemma count_step: "n dvd 2 ^ 64 \<Longrightarrow> unat (c + word_of_nat l :: u64) mod n = (unat c mod n + l) mod n"
proof -
  assume n: "n dvd 2 ^ 64"
  have "unat (c + word_of_nat l) = (unat c + l) mod 2 ^ 64"
    by (simp add: unat_word_ariths unsigned_of_nat take_bit_eq_mod mod_add_right_eq)
  then show ?thesis by (simp only: mod_mod_cancel[OF n] mod_add_left_eq)
qed

section \<open>Rotations\<close>

text \<open>The macros \<open>rol\<close> and \<open>ror\<close> of the hash files, for both word sizes; they are the rotations of the word library.\<close>

definition rol :: "'a::len word \<Rightarrow> nat \<Rightarrow> 'a word" where
  "rol v n = push_bit n v OR drop_bit (LENGTH('a) - n) v"

definition ror :: "'a::len word \<Rightarrow> nat \<Rightarrow> 'a word" where
  "ror v n = drop_bit n v OR push_bit (LENGTH('a) - n) v"

lemma rol_rotl: "0 < n \<Longrightarrow> n < LENGTH('a) \<Longrightarrow> rol v n = word_rotl n (v :: 'a::len word)"
  by (rule bit_word_eqI) (auto simp: rol_def bit_simps mod_if not_le add.commute dest: bit_imp_le_length)

lemma ror_rotr: "0 < n \<Longrightarrow> n < LENGTH('a) \<Longrightarrow> ror v n = word_rotr n (v :: 'a::len word)"
  by (rule bit_word_eqI) (auto simp: ror_def bit_simps mod_if not_le add.commute dest: bit_imp_le_length)

section \<open>Unrolled rounds\<close>

text \<open>The Boolean functions of the rounds in the form of the code and in that of the standards.\<close>

lemma choose_eq: "(x AND (y XOR z)) XOR z = (x AND y) XOR (NOT x AND z)" for x :: "'a::len word"
  by (rule bit_word_eqI) (auto simp: bit_simps)

lemma majority_eq: "((x OR y) AND z) OR (x AND y) = (x AND y) XOR (x AND z) XOR (y AND z)" for x :: "'a::len word"
  by (rule bit_word_eqI) (auto simp: bit_simps)

lemma rol_ror: "n < LENGTH('a) \<Longrightarrow> rol v n = ror v (LENGTH('a) - n)" for v :: "'a::len word"
  by (simp add: rol_def ror_def or.commute)

lemma rol_rotr: "0 < n \<Longrightarrow> n < 32 \<Longrightarrow> rol v n = word_rotr (32 - n) v" for v :: u32
  using rol_ror[of n v] ror_rotr[of "32 - n" v] by simp

lemma absorb_inv: "P s \<Longrightarrow> (\<And>s b. P s \<Longrightarrow> P (f s b)) \<Longrightarrow> P (absorb n f s m)"
proof -
  assume "P s" "\<And>s b. P s \<Longrightarrow> P (f s b)"
  then have "P (foldl f s bs)" for bs by (induction bs arbitrary: s) simp_all
  then show ?thesis by (simp add: absorb_def)
qed

lemma map_nth_take: "n \<le> length xs \<Longrightarrow> map (\<lambda>i. g (xs ! i)) [0..<n] = map g (take n xs)"
  by (rule nth_equalityI) simp_all

text \<open>
  Unrolled code repeats a group of \<open>k\<close> rounds, after which every variable is back in its place: if a group is \<open>k\<close>
  rounds of a loop, the repetition is the loop. \<open>fold_agree\<close> exchanges the rounds under an invariant.
\<close>

lemma fold_groups:
  assumes "\<And>i s. G i s = fold r [i..<i + k] s"
  shows "fold G (map (\<lambda>j. i + k * j) [0..<n]) s = fold r [i..<i + k * n] s"
proof (induction n arbitrary: s)
  case (Suc n)
  have "[i..<i + k * Suc n] = [i..<i + k * n] @ [i + k * n..<i + k * n + k]"
    using upt_add_eq_append[of i "i + k * n" k] by (simp add: ac_simps)
  then show ?case using Suc assms by simp
qed simp

lemma fold_agree:
  assumes "P s" "\<And>i s. i \<in> set xs \<Longrightarrow> P s \<Longrightarrow> r i s = q i s \<and> P (q i s)"
  shows "fold r xs s = fold q xs s \<and> P (fold q xs s)"
  using assms by (induction xs arbitrary: s) auto

lemma upt_4: "[i..<i + 4] = [i, i + 1, i + 2, i + 3]"
  by (simp add: upt_rec)

lemma upt_5: "[i..<i + 5] = [i, i + 1, i + 2, i + 3, i + 4]"
  by (simp add: upt_rec)

lemma upt_8: "[i..<i + 8] = [i, i + 1, i + 2, i + 3, i + 4, i + 5, i + 6, i + 7]"
  by (simp add: upt_rec)

lemma fold_upt_join: "i \<le> j \<Longrightarrow> j \<le> k \<Longrightarrow> fold r [j..<k] (fold r [i..<j] s) = fold r [i..<k] s"
  using upt_add_eq_append[of i j "k - j"] by simp

lemma foldl_hom: "(\<And>s b. h (f s b) = g (h s) b) \<Longrightarrow> h (foldl f s xs) = foldl g (h s) xs"
  by (induction xs arbitrary: s) simp_all

lemma absorb_hom: "(\<And>s b. h (f s b) = g (h s) b) \<Longrightarrow> h (absorb n f s m) = absorb n g (h s) m"
  unfolding absorb_def by (rule foldl_hom)

end
