(* ===== verification/Md5.thy ===== *)
theory Md5
  imports Hash
begin

text \<open>
  libavutil/md5.c. The four words are kept in reverse order. The 64 steps are a loop (\<open>CONFIG_SMALL\<close>) or unrolled with
  the variables renamed; the update compresses whole blocks in place or, where the machine needs it, from a copy in the
  context. The digest is that of RFC 1321 in every build.
\<close>

section \<open>The transform\<close>

definition md5_S :: "nat list list" where
  "md5_S = [[7, 12, 17, 22], [5, 9, 14, 20], [4, 11, 16, 23], [6, 10, 15, 21]]"

definition md5_T :: "u32 list" where
  "md5_T =
    [0xD76AA478, 0xE8C7B756, 0x242070DB, 0xC1BDCEEE, 0xF57C0FAF, 0x4787C62A,
     0xA8304613, 0xFD469501, 0x698098D8, 0x8B44F7AF, 0xFFFF5BB1, 0x895CD7BE,
     0x6B901122, 0xFD987193, 0xA679438E, 0x49B40821, 0xF61E2562, 0xC040B340,
     0x265E5A51, 0xE9B6C7AA, 0xD62F105D, 0x02441453, 0xD8A1E681, 0xE7D3FBC8,
     0x21E1CDE6, 0xC33707D6, 0xF4D50D87, 0x455A14ED, 0xA9E3E905, 0xFCEFA3F8,
     0x676F02D9, 0x8D2A4C8A, 0xFFFA3942, 0x8771F681, 0x6D9D6122, 0xFDE5380C,
     0xA4BEEA44, 0x4BDECFA9, 0xF6BB4B60, 0xBEBFBC70, 0x289B7EC6, 0xEAA127FA,
     0xD4EF3085, 0x04881D05, 0xD9D4D039, 0xE6DB99E5, 0x1FA27CF8, 0xC4AC5665,
     0xF4292244, 0x432AFF97, 0xAB9423A7, 0xFC93A039, 0x655B59C3, 0x8F0CCC92,
     0xFFEFF47D, 0x85845DD1, 0x6FA87E4F, 0xFE2CE6E0, 0xA3014314, 0x4E0811A1,
     0xF7537E82, 0xBD3AF235, 0x2AD7D2BB, 0xEB86D391]"

text \<open>\<open>CORE\<close> returns the new value of its argument \<open>a\<close>.\<close>

definition CORE :: "u8 list \<Rightarrow> nat \<Rightarrow> u32 \<Rightarrow> u32 \<Rightarrow> u32 \<Rightarrow> u32 \<Rightarrow> u32" where
  "CORE X i a b c d =
     (let t = md5_S ! (i div 16) ! (i mod 4);
          a = a + md5_T ! i;
          a = (if i < 32 then
                 if i < 16 then a + ((d XOR (b AND (c XOR d))) + AV_RL32 (drop (4 * (i mod 16)) X))
                 else a + (((d AND b) OR (NOT d AND c)) + AV_RL32 (drop (4 * ((1 + 5 * i) mod 16)) X))
               else
                 if i < 48 then a + ((b XOR c XOR d) + AV_RL32 (drop (4 * ((5 + 3 * i) mod 16)) X))
                 else a + ((c XOR (b OR NOT d)) + AV_RL32 (drop (4 * ((7 * i) mod 16)) X)))
      in b + (push_bit t a OR drop_bit (32 - t) a))"

type_synonym md5_vars = "u32 \<times> u32 \<times> u32 \<times> u32"

definition md5_small_step :: "u8 list \<Rightarrow> nat \<Rightarrow> md5_vars \<Rightarrow> md5_vars" where
  "md5_small_step X i = (\<lambda>(a, b, c, d).
     (let a = CORE X i a b c d; t = d; d = c; c = b; b = a; a = t in (a, b, c, d)))"

definition CORE2 :: "u8 list \<Rightarrow> nat \<Rightarrow> md5_vars \<Rightarrow> md5_vars" where
  "CORE2 X i = (\<lambda>(a, b, c, d).
     (let a = CORE X i a b c d; d = CORE X (i + 1) d a b c;
          c = CORE X (i + 2) c d a b; b = CORE X (i + 3) b c d a
      in (a, b, c, d)))"

definition CORE4 :: "u8 list \<Rightarrow> nat \<Rightarrow> md5_vars \<Rightarrow> md5_vars" where
  "CORE4 X i vars = CORE2 X (i + 12) (CORE2 X (i + 8) (CORE2 X (i + 4) (CORE2 X i vars)))"

definition md5_block :: "bool \<Rightarrow> u32 list \<Rightarrow> u8 list \<Rightarrow> u32 list" where
  "md5_block small ABCD X =
     (let vars = (ABCD ! 3, ABCD ! 2, ABCD ! 1, ABCD ! 0);
          (a, b, c, d) =
            (if small then fold (md5_small_step X) [0..<64] vars
             else CORE4 X 48 (CORE4 X 32 (CORE4 X 16 (CORE4 X 0 vars))))
      in [ABCD ! 0 + d, ABCD ! 1 + c, ABCD ! 2 + b, ABCD ! 3 + a])"


section \<open>The context\<close>









section \<open>RFC 1321\<close>






section \<open>Both forms of the transform\<close>








section \<open>The context is a streaming hash\<close>








lemma length_md5_block [simp]: "length (md5_block small st X) = 4"
  by (simp add: md5_block_def Let_def split: prod.splits)









end
