(* ===== verification/Sha.thy ===== *)
theory Sha
  imports Hash
begin

text \<open>
  libavutil/sha.c: SHA-1, SHA-224 and SHA-256. Each transform exists as a loop (\<open>CONFIG_SMALL\<close>) and unrolled, with the
  variables renamed from round to round. Both are proved equal to the compression function of FIPS 180-4, and the
  context of the file is an instance of the streaming interface, so the digest is that of the standard.
\<close>

section \<open>SHA-1\<close>

type_synonym sha1_vars = "u32 list \<times> u32 \<times> u32 \<times> u32 \<times> u32 \<times> u32"



definition sha1_small_round :: "u8 list \<Rightarrow> nat \<Rightarrow> sha1_vars \<Rightarrow> sha1_vars" where
  "sha1_small_round buffer i = (\<lambda>(block, a, b, c, d, e).
     (let t = (if i < 16 then AV_RB32 (drop (4 * i) buffer)
               else rol (block ! (i - 3) XOR block ! (i - 8) XOR block ! (i - 14) XOR block ! (i - 16)) 1);
          block = block[i := t];
          t = t + (e + rol a 5);
          t = (if i < 40 then
                 if i < 20 then t + (((b AND (c XOR d)) XOR d) + 0x5A827999)
                 else t + ((b XOR c XOR d) + 0x6ED9EBA1)
               else
                 if i < 60 then t + ((((b OR c) AND d) OR (b AND c)) + 0x8F1BBCDC)
                 else t + ((b XOR c XOR d) + 0xCA62C1D6))
      in (block, t, a, rol b 30, c, d)))"










section \<open>SHA-256\<close>














section \<open>The context\<close>

record AVSHA =
  sha_digest_len :: u8
  sha_count :: u64
  sha_buffer :: "u8 list"
  sha_state :: "u32 list"
  sha_transform :: "u32 list \<Rightarrow> u8 list \<Rightarrow> u32 list"


definition av_sha_update :: "bool \<Rightarrow> AVSHA \<Rightarrow> u8 list \<Rightarrow> AVSHA option" where
  "av_sha_update small ctx data =
     (let j = ucast (sha_count ctx AND 63);
          ctx = ctx\<lparr>sha_count := sha_count ctx + of_nat (length data)\<rparr>
      in map_option (\<lambda>(st, buf). ctx\<lparr>sha_state := st, sha_buffer := buf\<rparr>)
           (buf_update small 64 (sha_transform ctx) (sha_buffer ctx) j (sha_state ctx) data))"



section \<open>The standard\<close>











section \<open>SHA-1: both forms of the transform\<close>









lemma sha1_small_length [simp]: "length (fst (sha1_small_round M i s)) = length (fst s)"
  by (cases s) (simp add: sha1_small_round_def Let_def)





section \<open>SHA-256: both forms of the transform\<close>











section \<open>The context is a streaming hash\<close>

definition sha_pend :: "AVSHA \<Rightarrow> u8 list" where
  "sha_pend c = take (unat (sha_count c) mod 64) (sha_buffer c)"

definition sha_ok :: "(u32 list \<Rightarrow> u8 list \<Rightarrow> u32 list) \<Rightarrow> u8 \<Rightarrow> AVSHA \<Rightarrow> bool" where
  "sha_ok f dl c \<longleftrightarrow> sha_transform c = f \<and> sha_digest_len c = dl \<and> length (sha_buffer c) = 64"

lemma sha_update_ok:
  assumes "sha_ok f dl c" "length d \<le> 2 ^ 32 - 64"
  shows "\<exists>c'. av_sha_update small c d = Some c' \<and> sha_ok f dl c' \<and> sha_count c' = sha_count c + of_nat (length d) \<and>
     sha_state c' = absorb 64 f (sha_state c) (sha_pend c @ d) \<and> sha_pend c' = leftover 64 (sha_pend c @ d)"
proof -
  let ?j = "ucast (sha_count c AND 63) :: u32"
  have j: "unat ?j = unat (sha_count c) mod 64" by (rule unat_position_64)
  from buf_update_ok[of 64 64 "sha_buffer c" ?j d small f "sha_state c"] obtain buf where
    "buf_update small 64 f (sha_buffer c) ?j (sha_state c) d = Some (absorb 64 f (sha_state c) (sha_pend c @ d), buf)"
    "length buf = 64" "take ((unat ?j + length d) mod 64) buf = leftover 64 (sha_pend c @ d)"
    using assms j by (auto simp: sha_ok_def sha_pend_def)
  then show ?thesis
    using assms(1) j count_step[of 64 "sha_count c" "length d"]
    by (simp add: av_sha_update_def sha_ok_def sha_pend_def Let_def)
qed












definition sha_ctx0 :: AVSHA where
  "sha_ctx0 = \<lparr>sha_digest_len = 0, sha_count = 0, sha_buffer = replicate 64 0, sha_state = replicate 8 0,
     sha_transform = (\<lambda>st _. st)\<rparr>"


text \<open>C37: The limit of one update of the unrolled build: up to \<open>2 ^ 32 - 64\<close> bytes it returns; a longer piece that makes
  \<open>j + len\<close> wrap is copied past the end of the buffer.\<close>

theorem sha_update_limit:
  assumes "length (sha_buffer ctx) = 64"
  shows "(length data \<le> 2 ^ 32 - 64 \<longrightarrow> (\<exists>c. av_sha_update small ctx data = Some c)) \<and>
     (length data < 2 ^ 32 \<and> 2 ^ 32 \<le> unat (sha_count ctx) mod 64 + length data \<longrightarrow>
        av_sha_update False ctx data = None)"
proof (intro conjI impI)
  have ok: "sha_ok (sha_transform ctx) (sha_digest_len ctx) ctx" using assms by (simp add: sha_ok_def)
  show "\<exists>c. av_sha_update small ctx data = Some c" if "length data \<le> 2 ^ 32 - 64"
    using sha_update_ok[OF ok that, of small] by blast
  have j: "unat (ucast (sha_count ctx AND 63) :: u32) = unat (sha_count ctx) mod 64" by (rule unat_position_64)
  show "av_sha_update False ctx data = None"
    if "length data < 2 ^ 32 \<and> 2 ^ 32 \<le> unat (sha_count ctx) mod 64 + length data"
    using buf_update_overrun[of "ucast (sha_count ctx AND 63)" "sha_buffer ctx" 64 data] that assms j
    by (simp add: av_sha_update_def Let_def)
qed

theorem sha_update_limit_witness:
  "(\<exists>c. av_sha_update True sha_ctx0 [1, 2, 3] = Some c) \<and>
   (\<exists>data. length data = 2 ^ 32 - 1 \<and> av_sha_update False (sha_ctx0\<lparr>sha_count := 1\<rparr>) data = None)"
proof
  show "\<exists>c. av_sha_update True sha_ctx0 [1, 2, 3] = Some c"
    using sha_update_limit[of sha_ctx0 "[1, 2, 3]" True] by (simp add: sha_ctx0_def)
  have "length (sha_buffer (sha_ctx0\<lparr>sha_count := 1\<rparr>)) = 64" by (simp add: sha_ctx0_def)
  from conjunct2[OF sha_update_limit[OF this, of "replicate (2 ^ 32 - 1) 0"]]
  have "av_sha_update False (sha_ctx0\<lparr>sha_count := 1\<rparr>) (replicate (2 ^ 32 - 1) 0) = None"
    by (simp only: length_replicate) (simp add: sha_ctx0_def)
  then show "\<exists>data. length data = 2 ^ 32 - 1 \<and> av_sha_update False (sha_ctx0\<lparr>sha_count := 1\<rparr>) data = None"
    by (intro exI conjI) (rule length_replicate)
qed

end
