(* ===== verification/Sha512.thy ===== *)
theory Sha512
  imports Sha
begin

text \<open>
  libavutil/sha512.c: SHA-384, SHA-512, SHA-512/224 and SHA-512/256, in the same two builds and with the same results as
  the theory of SHA-1 and SHA-256, on words of 64 bits. The length field of 16 bytes is written as two halves of which the first is always
  zero, and the digest of 224 bits ends within a word.
\<close>

section \<open>The transform\<close>














section \<open>The context\<close>






section \<open>The standard\<close>








section \<open>Both forms of the transform\<close>










section \<open>The context is a streaming hash\<close>















end
