(* ===== verification/Hmac.thy ===== *)
theory Hmac
  imports Md5 Sha512
begin

text \<open>
  libavutil/hmac.c: message authentication over MD5, SHA-1 and SHA-2 through a table of function pointers. The interface \<open>hash_ctx\<close> is
  what the code relies on of the hash behind the pointers; each of the six hashes is an interpretation.
\<close>

section \<open>The code\<close>


datatype AVHMACType = AV_HMAC_MD5 | AV_HMAC_SHA1 | AV_HMAC_SHA224 | AV_HMAC_SHA256 | AV_HMAC_SHA384 | AV_HMAC_SHA512






















section \<open>RFC 2104\<close>



section \<open>What the code relies on of a hash\<close>


section \<open>The six hashes\<close>






lemma hm_cases: "type = AV_HMAC_MD5 \<or> type \<in> {AV_HMAC_SHA1, AV_HMAC_SHA224, AV_HMAC_SHA256} \<or> type \<in> {AV_HMAC_SHA384, AV_HMAC_SHA512}"
  by (cases type) simp_all








section \<open>The code computes RFC 2104\<close>



end
