(* ===== verification/Ripemd.thy ===== *)
theory Ripemd
  imports Hash
begin

text \<open>
  libavutil/ripemd.c: RIPEMD-128, -160, -256 and -320. Two lines of rounds run beside each other; the long versions
  exchange a word of the lines after every 16 rounds. In the loops (\<open>CONFIG_SMALL\<close>) the variables move round by round, in the
  unrolled code they are renamed; as 16 is not a multiple of 5, the unrolled phases of RIPEMD-160 start at
  different variables and RIPEMD-320 exchanges different ones in the two builds.
\<close>

section \<open>Tables\<close>







section \<open>RIPEMD-128 and RIPEMD-256\<close>



















section \<open>RIPEMD-160 and RIPEMD-320\<close>






























section \<open>The context\<close>






section \<open>The published algorithm\<close>


















section \<open>The loops are the rounds\<close>






section \<open>The unrolled code is the loops\<close>
















section \<open>The transforms\<close>


















section \<open>The context is a streaming hash\<close>














end
