(* ===== verification/Adler32.thy ===== *)
theory Adler32
  imports Bytes
begin

text \<open>
  libavutil/adler32.c on a machine with 64-bit \<open>unsigned long\<close>. The sums are taken byte by byte, four bytes at a time while the second
  sum is small, or, in the build with fast 64-bit arithmetic, over up to 23 words of eight bytes in four lanes of 16
  bits each. All builds compute the sums modulo 65521.
\<close>

section \<open>The code\<close>

definition ADLER_BASE :: u64 where "ADLER_BASE = 65521"

definition DO1 :: "u8 \<Rightarrow> u64 \<times> u64 \<Rightarrow> u64 \<times> u64" where
  "DO1 b = (\<lambda>(s1, s2). (let s1 = s1 + ucast b; s2 = s2 + s1 in (s1, s2)))"

fun adler_do4 :: "u8 list \<Rightarrow> u64 \<times> u64 \<Rightarrow> u8 list \<times> u64 \<times> u64" where
  "adler_do4 data (s1, s2) =
     (if length data > 4 \<and> s2 < push_bit 31 1 then adler_do4 (drop 4 data) (fold DO1 (take 4 data) (s1, s2))
      else (data, s1, s2))"

text \<open>
  The eight-byte words: \<open>a1\<close> and \<open>b1\<close> hold the sums of the bytes in the even and odd lanes, \<open>a2\<close> and \<open>b2\<close> the sums of
  these sums. \<open>bigend\<close> is the byte order of \<open>AV_RN64\<close> and of the weights.
\<close>

definition AV_RN64 :: "bool \<Rightarrow> u8 list \<Rightarrow> u64" where
  "AV_RN64 bigend b = (if bigend then AV_RB64 b else AV_RL64 b)"

definition adler_word :: "u64 \<Rightarrow> u64 \<times> u64 \<times> u64 \<times> u64 \<Rightarrow> u64 \<times> u64 \<times> u64 \<times> u64" where
  "adler_word v = (\<lambda>(a1, a2, b1, b2).
     (let a2 = a2 + a1; b2 = b2 + b1;
          a1 = a1 + (v AND 0x00FF00FF00FF00FF); b1 = b1 + (drop_bit 8 v AND 0x00FF00FF00FF00FF)
      in (a1, a2, b1, b2)))"

definition adler_fast :: "bool \<Rightarrow> u8 list \<Rightarrow> u64 \<times> u64 \<Rightarrow> u64 \<times> u64" where
  "adler_fast bigend data = (\<lambda>(s1, s2).
     (let s2 = s2 + s1 * of_nat (length data);
          (a1, a2, b1, b2) = fold (\<lambda>k. adler_word (AV_RN64 bigend (drop (8 * k) data))) [0..<length data div 8] (0, 0, 0, 0);
          s1 = s1 + drop_bit 48 ((a1 + b1) * 0x1000100010001);
          s2 = s2 + (drop_bit 32 (((a2 AND 0xFFFF0000FFFF) + (b2 AND 0xFFFF0000FFFF) +
                       (drop_bit 16 a2 AND 0xFFFF0000FFFF) + (drop_bit 16 b2 AND 0xFFFF0000FFFF)) * 0x800000008) +
                     (if bigend then
                        2 * drop_bit 48 (b1 * 0x1000200030004) + drop_bit 48 (a1 * 0x1000100010001) +
                        2 * drop_bit 48 (a1 * 0x0000100020003)
                      else
                        2 * drop_bit 48 (a1 * 0x4000300020001) + drop_bit 48 (b1 * 0x1000100010001) +
                        2 * drop_bit 48 (b1 * 0x3000200010000)))
      in (s1, s2)))"

text \<open>\<open>fast\<close> is \<open>HAVE_FAST_64BIT && HAVE_FAST_UNALIGNED && !CONFIG_SMALL\<close>. A chunk leaves at least one byte, which the loop adds
  before it reduces the sums.\<close>

definition adler_chunk :: "bool \<Rightarrow> bool \<Rightarrow> u8 list \<Rightarrow> u64 \<times> u64 \<Rightarrow> u8 list \<times> u64 \<times> u64" where
  "adler_chunk fast bigend data s =
     (if fast then
        (let len2 = min ((length data - 1) div 8 * 8) (23 * 8)
         in if len2 \<noteq> 0 then (drop len2 data, adler_fast bigend (take len2 data) s) else (data, s))
      else adler_do4 data s)"

lemma adler_chunk_length: "length (fst (adler_chunk fast bigend data s)) \<le> length data"
proof -
  have "length (fst (adler_do4 data s)) \<le> length data"
  proof (induction data s rule: adler_do4.induct)
    case (1 data s1 s2)
    then show ?case by (subst adler_do4.simps) (auto simp del: adler_do4.simps)
  qed
  then show ?thesis by (simp add: adler_chunk_def Let_def)
qed

function adler_loop :: "bool \<Rightarrow> bool \<Rightarrow> u8 list \<Rightarrow> u64 \<times> u64 \<Rightarrow> u64 \<times> u64" where
  "adler_loop fast bigend data s =
     (if data = [] then s
      else (let (data, s) = adler_chunk fast bigend data s;
                (s1, s2) = DO1 (hd data) s
            in adler_loop fast bigend (tl data) (s1 mod ADLER_BASE, s2 mod ADLER_BASE)))"
  by auto
termination
proof (relation "measure (\<lambda>(fast, bigend, data, s). length data)", goal_cases)
  case (2 fast bigend data s c d s' t s1 s2)
  then have "length d \<le> length data" using adler_chunk_length[of fast bigend data s] by (metis fst_conv)
  then show ?case using 2 by (cases d) auto
qed simp

definition av_adler32_update :: "bool \<Rightarrow> bool \<Rightarrow> u64 \<Rightarrow> u8 list \<Rightarrow> u64" where
  "av_adler32_update fast bigend adler data =
     (let (s1, s2) = adler_loop fast bigend data (adler AND 0xFFFF, drop_bit 16 adler) in push_bit 16 s2 OR s1)"

declare adler_do4.simps [simp del] adler_loop.simps [simp del]

section \<open>The definition\<close>

text \<open>The two sums over natural numbers; the checksum is their residues.\<close>

definition adler_sums :: "nat list \<Rightarrow> nat \<times> nat \<Rightarrow> nat \<times> nat" where
  "adler_sums xs s = fold (\<lambda>x (a, b). (a + x, b + (a + x))) xs s"

definition adler_spec :: "u8 list \<Rightarrow> nat \<times> nat \<Rightarrow> nat \<times> nat" where
  "adler_spec data s = (let (a, b) = adler_sums (map unat data) s in (a mod 65521, b mod 65521))"

lemma adler_sums_simps [simp]:
  "adler_sums [] s = s" "adler_sums (x # xs) (a, b) = adler_sums xs (a + x, b + (a + x))"
  "adler_sums (xs @ ys) s = adler_sums ys (adler_sums xs s)"
  by (simp_all add: adler_sums_def)

text \<open>Both sums respect the modulus, so the residues can be taken at any time.\<close>

lemma adler_sums_mod:
  assumes "a mod m = a' mod m" "b mod m = b' mod m"
  shows "fst (adler_sums xs (a, b)) mod m = fst (adler_sums xs (a', b')) mod m \<and>
    snd (adler_sums xs (a, b)) mod m = snd (adler_sums xs (a', b')) mod m"
  using assms
proof (induction xs arbitrary: a a' b b')
  case (Cons x xs)
  have e: "(a + x) mod m = (a' + x) mod m" using Cons.prems(1) by (metis mod_add_left_eq)
  then have "(b + (a + x)) mod m = (b' + (a' + x)) mod m" using Cons.prems(2) by (metis mod_add_eq)
  from Cons.IH[OF e this] show ?case by (simp only: adler_sums_simps)
qed simp

section \<open>Lanes\<close>

definition pack :: "(nat \<Rightarrow> nat) \<Rightarrow> nat" where
  "pack f = f 0 + f 1 * 2 ^ 16 + f 2 * 2 ^ 32 + f 3 * 2 ^ 48"

lemma mask_lanes: "(0x00FF00FF00FF00FF :: u64) = mask 8 OR push_bit 16 (mask 8) OR push_bit 32 (mask 8) OR push_bit 48 (mask 8)"
  by (simp add: mask_eq_exp_minus_1)

lemma lanes_or:
  fixes p q r s :: u8
  shows "(ucast p OR push_bit 16 (ucast q) OR push_bit 32 (ucast r) OR push_bit 48 (ucast s) :: u64) =
    word_of_nat (unat p + unat q * 2 ^ 16 + unat r * 2 ^ 32 + unat s * 2 ^ 48)"
proof -
  have d: "a OR b = a + b" if "\<And>n. bit a n \<Longrightarrow> bit b n \<Longrightarrow> False" for a b :: u64
    using that by (metis disjunctive_add)
  have u: "ucast w = (of_nat (unat w) :: u64)" for w :: u8
    by simp
  have "(ucast p OR push_bit 16 (ucast q) OR push_bit 32 (ucast r) OR push_bit 48 (ucast s) :: u64) =
    ucast p + push_bit 16 (ucast q) + push_bit 32 (ucast r) + push_bit 48 (ucast s)"
    by (subst d, (auto simp: bit_simps dest!: byte_lt)[1])+ (simp add: add.assoc)
  then show ?thesis by (simp only: push_bit_eq_mult u of_nat_add of_nat_mult of_nat_power of_nat_numeral)
qed

lemma range_64:
  fixes n :: nat
  assumes "n < 64"
  obtains m where "m < 8" "n = m \<or> n = 8 + m \<or> n = 16 + m \<or> n = 24 + m \<or> n = 32 + m \<or> n = 40 + m \<or> n = 48 + m \<or> n = 56 + m"
proof
  show "n mod 8 < 8" by simp
  show "n = n mod 8 \<or> n = 8 + n mod 8 \<or> n = 16 + n mod 8 \<or> n = 24 + n mod 8 \<or> n = 32 + n mod 8 \<or> n = 40 + n mod 8 \<or>
    n = 48 + n mod 8 \<or> n = 56 + n mod 8" using assms by presburger
qed

lemma RL64_lanes:
  "AV_RL64 [p0, q0, p1, q1, p2, q2, p3, q3] AND 0x00FF00FF00FF00FF =
     ucast p0 OR push_bit 16 (ucast p1) OR push_bit 32 (ucast p2) OR push_bit 48 (ucast p3)" (is ?p)
  "drop_bit 8 (AV_RL64 [p0, q0, p1, q1, p2, q2, p3, q3]) AND 0x00FF00FF00FF00FF =
     ucast q0 OR push_bit 16 (ucast q1) OR push_bit 32 (ucast q2) OR push_bit 48 (ucast q3)" (is ?q)
proof -
  show ?p unfolding mask_lanes
  proof (rule bit_word_eqI)
    fix n :: nat
    assume "n < LENGTH(64)"
    then have "n < 64" by simp
    then show "bit (AV_RL64 [p0, q0, p1, q1, p2, q2, p3, q3] AND (mask 8 OR push_bit 16 (mask 8) OR push_bit 32 (mask 8) OR push_bit 48 (mask 8))) n =
      bit (ucast p0 OR push_bit 16 (ucast p1) OR push_bit 32 (ucast p2) OR push_bit 48 (ucast p3) :: u64) n"
      by (rule range_64, elim disjE) (simp_all add: AV_RL64_def AV_RL32_def bit_simps byte_bits)
  qed
  show ?q unfolding mask_lanes
  proof (rule bit_word_eqI)
    fix n :: nat
    assume "n < LENGTH(64)"
    then have "n < 64" by simp
    then show "bit (drop_bit 8 (AV_RL64 [p0, q0, p1, q1, p2, q2, p3, q3]) AND (mask 8 OR push_bit 16 (mask 8) OR push_bit 32 (mask 8) OR push_bit 48 (mask 8))) n =
      bit (ucast q0 OR push_bit 16 (ucast q1) OR push_bit 32 (ucast q2) OR push_bit 48 (ucast q3) :: u64) n"
      by (rule range_64, elim disjE) (simp_all add: AV_RL64_def AV_RL32_def bit_simps byte_bits)
  qed
qed

lemma RB64_RL64: "AV_RB64 [b0, b1, b2, b3, b4, b5, b6, b7] = AV_RL64 [b7, b6, b5, b4, b3, b2, b1, b0]"
  by (simp add: AV_RB64_def AV_RL64_def AV_RB32_def AV_RL32_def ac_simps)

text \<open>Lane \<open>i\<close> of the word \<open>k\<close>, for \<open>a1\<close> and for \<open>b1\<close>.\<close>

definition lane_a :: "bool \<Rightarrow> u8 list \<Rightarrow> nat \<Rightarrow> nat \<Rightarrow> nat" where
  "lane_a bigend d k i = unat (d ! (8 * k + (if bigend then 7 - 2 * i else 2 * i)))"

definition lane_b :: "bool \<Rightarrow> u8 list \<Rightarrow> nat \<Rightarrow> nat \<Rightarrow> nat" where
  "lane_b bigend d k i = unat (d ! (8 * k + (if bigend then 6 - 2 * i else 2 * i + 1)))"

lemma RN64_lanes:
  assumes "8 * k + 8 \<le> length d"
  shows "AV_RN64 bigend (drop (8 * k) d) AND 0x00FF00FF00FF00FF = word_of_nat (pack (lane_a bigend d k))"
    "drop_bit 8 (AV_RN64 bigend (drop (8 * k) d)) AND 0x00FF00FF00FF00FF = word_of_nat (pack (lane_b bigend d k))"
proof -
  define b where "b i = d ! (8 * k + i)" for i
  have e: "AV_RN64 bigend (drop (8 * k) d) = AV_RN64 bigend [b 0, b 1, b 2, b 3, b 4, b 5, b 6, b 7]"
    using assms by (cases bigend) (simp_all add: AV_RN64_def AV_RL64_def AV_RL32_def AV_RB64_def AV_RB32_def b_def add_ac)
  show "AV_RN64 bigend (drop (8 * k) d) AND 0x00FF00FF00FF00FF = word_of_nat (pack (lane_a bigend d k))"
    "drop_bit 8 (AV_RN64 bigend (drop (8 * k) d)) AND 0x00FF00FF00FF00FF = word_of_nat (pack (lane_b bigend d k))"
    unfolding e by (cases bigend; simp only: AV_RN64_def if_True if_False RB64_RL64 RL64_lanes lanes_or pack_def lane_a_def lane_b_def;
      simp add: b_def)+
qed

text \<open>The four sums after \<open>n\<close> words, as sums over naturals in each lane.\<close>

definition lsum :: "(nat \<Rightarrow> nat \<Rightarrow> nat) \<Rightarrow> nat \<Rightarrow> nat \<Rightarrow> nat" where
  "lsum x n i = (\<Sum>k<n. x k i)"

lemma lsum_simps [simp]: "lsum x 0 i = 0" "lsum x (Suc n) i = lsum x n i + x n i"
  by (simp_all add: lsum_def)

lemma pack_lsum: "word_of_nat (pack (lsum x (Suc n))) = (word_of_nat (pack (lsum x n)) + word_of_nat (pack (x n)) :: u64)"
  by (simp add: pack_def algebra_simps flip: of_nat_add)

lemma fold_words:
  assumes "8 * n \<le> length d"
  shows "fold (\<lambda>k. adler_word (AV_RN64 bigend (drop (8 * k) d))) [0..<n] (0, 0, 0, 0) =
    (word_of_nat (pack (lsum (lane_a bigend d) n)), word_of_nat (pack (lsum (lsum (lane_a bigend d)) n)),
     word_of_nat (pack (lsum (lane_b bigend d) n)), word_of_nat (pack (lsum (lsum (lane_b bigend d)) n)))"
  using assms
proof (induction n)
  case 0
  then show ?case by (simp add: pack_def)
next
  case (Suc n)
  then show ?case by (simp only: upt_Suc fold_append) (simp add: adler_word_def RN64_lanes pack_lsum del: lsum_simps)
qed

lemma lane_sums_le:
  assumes "\<And>k. x k i \<le> 255" "n \<le> 23"
  shows "lsum x n i \<le> 5865" "lsum (lsum x) n i \<le> 64515"
proof -
  have a: "lsum x m i \<le> 255 * m" for m
    by (induction m) (use assms(1) in \<open>auto simp: add_mono intro: order_trans[OF add_mono]\<close>)
  show "lsum x n i \<le> 5865" using a[of n] assms(2) by simp
  have "2 * lsum (lsum x) m i + 255 * m \<le> 255 * (m * m)" for m
  proof (induction m)
    case (Suc m)
    then show ?case using a[of m] by (simp add: algebra_simps)
  qed simp
  then have "2 * lsum (lsum x) n i \<le> 255 * (n * n) - 255 * n" by (metis le_diff_conv2 add_leD2 le_diff_conv)
  also have "\<dots> = 255 * (n * (n - 1))" by (simp add: diff_mult_distrib2)
  also have "\<dots> \<le> 255 * (23 * 22)" using assms(2) by (intro mult_le_mono) auto
  finally show "lsum (lsum x) n i \<le> 64515" by simp
qed

section \<open>Reading the lanes\<close>

lemma pack_lanes:
  assumes "\<forall>i<4. f i < 65536"
  shows "pack f mod 65536 = f 0" "pack f div 65536 mod 65536 = f 1" "pack f div 4294967296 mod 65536 = f 2"
    "pack f div 281474976710656 = f 3"
proof -
  have b: "f 0 < 65536" "f 1 < 65536" "f 2 < 65536" "f 3 < 65536" using assms by auto
  have m: "(r + 65536 * q) mod 65536 = r" and d: "(r + 65536 * q) div 65536 = q" if "r < 65536" for r q :: nat
    using that by (simp_all only: mod_mult_self2 div_mult_self2 mod_less div_less)
  have e: "pack f = f 0 + 65536 * (f 1 + 65536 * (f 2 + 65536 * f 3))" by (simp add: pack_def)
  show "pack f mod 65536 = f 0" unfolding e by (rule m) (rule b)
  have d1: "pack f div 65536 = f 1 + 65536 * (f 2 + 65536 * f 3)" unfolding e by (rule d) (rule b)
  show "pack f div 65536 mod 65536 = f 1" unfolding d1 by (rule m) (rule b)
  have d2: "pack f div 4294967296 = f 2 + 65536 * f 3"
    using div_mult2_eq[of "pack f" 65536 65536] d[OF b(2), of "f 2 + 65536 * f 3"] by (simp only: d1) simp
  show "pack f div 4294967296 mod 65536 = f 2" unfolding d2 by (rule m) (rule b)
  show "pack f div 281474976710656 = f 3"
    using div_mult2_eq[of "pack f" 4294967296 65536] d[OF b(3), of "f 3"] by (simp only: d2) simp
qed

lemma pack_lt: "\<forall>i<4. f i < 65536 \<Longrightarrow> pack f < 18446744073709551616"
proof -
  assume a: "\<forall>i<4. f i < 65536"
  have "f 0 < 65536" "f 1 < 65536" "f 2 < 65536" "f 3 < 65536" using a by auto
  then show ?thesis by (simp add: pack_def)
qed

definition conv :: "(nat \<Rightarrow> nat) \<Rightarrow> (nat \<Rightarrow> nat) \<Rightarrow> nat \<Rightarrow> nat" where
  "conv f c n = (\<Sum>i\<le>n. f i * c (n - i))"

lemma conv_simps:
  "conv f c 0 = f 0 * c 0" "conv f c 1 = f 0 * c 1 + f 1 * c 0" "conv f c 2 = f 0 * c 2 + f 1 * c 1 + f 2 * c 0"
  "conv f c 3 = f 0 * c 3 + f 1 * c 2 + f 2 * c 1 + f 3 * c 0"
  by (simp_all add: conv_def numeral_eq_Suc)

lemma pack_mult: "\<exists>r. pack f * pack c = pack (conv f c) + 18446744073709551616 * r"
proof -
  have "pack f * pack c = pack (conv f c) + 18446744073709551616 *
    (f 1 * c 3 + f 2 * c 2 + f 3 * c 1 + (f 2 * c 3 + f 3 * c 2) * 65536 + f 3 * c 3 * 4294967296)"
    unfolding pack_def conv_simps by (simp add: algebra_simps)
  then show ?thesis by blast
qed

lemma top_lane:
  assumes f: "\<And>i. i < 4 \<Longrightarrow> f i \<le> M" and M: "M * (c 0 + c 1 + c 2 + c 3) < 65536"
  shows "unat (drop_bit 48 (word_of_nat (pack f) * word_of_nat (pack c) :: u64)) = f 0 * c 3 + f 1 * c 2 + f 2 * c 1 + f 3 * c 0"
proof -
  have le: "f i * c j \<le> M * c j" if "i < 4" for i j using f[OF that] by simp
  have t: "\<forall>i<4. conv f c i < 65536"
  proof (intro allI impI)
    fix i :: nat
    assume "i < 4"
    then have "i = 0 \<or> i = 1 \<or> i = 2 \<or> i = 3" by auto
    then show "conv f c i < 65536"
      using M le[of 0 0] le[of 0 1] le[of 0 2] le[of 0 3] le[of 1 0] le[of 1 1] le[of 1 2] le[of 2 0] le[of 2 1] le[of 3 0]
      unfolding distrib_left by (elim disjE) (simp_all only: conv_simps, linarith+)
  qed
  obtain r where r: "pack f * pack c = pack (conv f c) + 18446744073709551616 * r" using pack_mult by blast
  have "unat (word_of_nat (pack f) * word_of_nat (pack c) :: u64) = (pack f * pack c) mod 18446744073709551616"
    by (simp add: unat_of_nat flip: of_nat_mult)
  also have "\<dots> = pack (conv f c)" using pack_lt[OF t] by (simp only: r mod_mult_self2 mod_less)
  finally have e: "unat (word_of_nat (pack f) * word_of_nat (pack c) :: u64) = pack (conv f c)" .
  have "pack (conv f c) div 281474976710656 = conv f c 3" by (rule pack_lanes(4)) (rule t)
  then show ?thesis unfolding unat_drop_bit_eq e by (simp add: drop_bit_eq_div[where ?'a = nat] conv_simps)
qed

lemma word_of_nat_unat_eqI: "unat w = n \<Longrightarrow> w = word_of_nat n"
  by auto

lemma and_lanes32: "unat ((w :: u64) AND 0xFFFF0000FFFF) = unat w mod 65536 + 4294967296 * (unat w div 4294967296 mod 65536)"
proof -
  have c: "(0xFFFF0000FFFF :: u64) = mask 16 OR push_bit 32 (mask 16)" by (simp add: mask_eq_exp_minus_1)
  have "w AND 0xFFFF0000FFFF = take_bit 16 w OR push_bit 32 (take_bit 16 (drop_bit 32 w))"
    unfolding c by (rule bit_word_eqI) (auto simp: bit_simps)
  also have "\<dots> = take_bit 16 w + push_bit 32 (take_bit 16 (drop_bit 32 w))"
    by (rule disjunctive_add[symmetric]) (auto simp: bit_simps)
  also have "take_bit 16 w = word_of_nat (unat w mod 65536)"
    by (rule word_of_nat_unat_eqI) (simp add: unsigned_take_bit_eq take_bit_eq_mod[where ?'a = nat])
  also have "take_bit 16 (drop_bit 32 w) = word_of_nat (unat w div 4294967296 mod 65536)"
    by (rule word_of_nat_unat_eqI) (simp add: unsigned_take_bit_eq unat_drop_bit_eq take_bit_eq_mod[where ?'a = nat] drop_bit_eq_div[where ?'a = nat])
  finally have e: "w AND 0xFFFF0000FFFF = of_nat (unat w mod 65536 + 4294967296 * (unat w div 4294967296 mod 65536))"
    by (simp add: push_bit_eq_mult mult.commute)
  have "unat w mod 65536 < 65536" "unat w div 4294967296 mod 65536 < 65536" by auto
  then show ?thesis unfolding e by (subst unat_of_nat) (simp del: of_nat_add of_nat_mult of_nat_mod)
qed

lemma unat64_exact: "k < 18446744073709551616 \<Longrightarrow> unat (word_of_nat k :: u64) = k"
  by (simp add: unsigned_of_nat take_bit_nat_eq_self)

lemma mid_lanes:
  assumes f: "\<And>i. i < 4 \<Longrightarrow> f i \<le> 64515" and g: "\<And>i. i < 4 \<Longrightarrow> g i \<le> 64515"
  defines "p \<equiv> word_of_nat (pack f)" and "q \<equiv> word_of_nat (pack g)"
  shows "unat (drop_bit 32 (((p AND 0xFFFF0000FFFF) + (q AND 0xFFFF0000FFFF) + (drop_bit 16 p AND 0xFFFF0000FFFF) +
      (drop_bit 16 q AND 0xFFFF0000FFFF)) * 0x800000008 :: u64)) =
    8 * (f 0 + f 1 + f 2 + f 3 + g 0 + g 1 + g 2 + g 3)"
proof -
  have "f i < 65536 \<and> g i < 65536" if "i < 4" for i using f[OF that] g[OF that] by simp
  then have f': "\<forall>i<4. f i < 65536" and g': "\<forall>i<4. g i < 65536" by blast+
  have up: "unat p = pack f" and uq: "unat q = pack g"
    unfolding p_def q_def using pack_lt[OF f'] pack_lt[OF g'] by (simp_all add: unat_of_nat)
  have sh: "x div 65536 div 4294967296 = x div 281474976710656" for x :: nat by (simp add: div_mult2_eq[symmetric])
  have m: "f 3 mod 65536 = f 3" "g 3 mod 65536 = g 3" using f' g' by auto
  have dp: "unat (drop_bit 16 w) = unat w div 65536" for w :: u64
    by (simp add: unat_drop_bit_eq drop_bit_eq_div[where ?'a = nat])
  have a: "p AND 0xFFFF0000FFFF = word_of_nat (f 0 + 4294967296 * f 2)" "q AND 0xFFFF0000FFFF = word_of_nat (g 0 + 4294967296 * g 2)"
    "drop_bit 16 p AND 0xFFFF0000FFFF = word_of_nat (f 1 + 4294967296 * f 3)"
    "drop_bit 16 q AND 0xFFFF0000FFFF = word_of_nat (g 1 + 4294967296 * g 3)"
    by (rule word_of_nat_unat_eqI, simp only: and_lanes32 up uq dp pack_lanes[OF f'] pack_lanes[OF g'] sh m)+
  define x y where "x = f 0 + f 1 + g 0 + g 1" and "y = f 2 + f 3 + g 2 + g 3"
  have "x \<le> 258060" "y \<le> 258060" unfolding x_def y_def using f[of 0] f[of 1] f[of 2] f[of 3] g[of 0] g[of 1] g[of 2] g[of 3] by linarith+
  then have l: "8 * x < 4294967296" "8 * x + 4294967296 * (8 * (x + y)) < 18446744073709551616" by simp_all
  have "((p AND 0xFFFF0000FFFF) + (q AND 0xFFFF0000FFFF) + (drop_bit 16 p AND 0xFFFF0000FFFF) + (drop_bit 16 q AND 0xFFFF0000FFFF)) * 0x800000008
      = (word_of_nat ((x + 4294967296 * y) * 34359738376) :: u64)"
    unfolding a x_def y_def by (simp add: algebra_simps)
  also have "\<dots> = word_of_nat (8 * x + 4294967296 * (8 * (x + y)) + 18446744073709551616 * (8 * y))"
    by (rule arg_cong[where f = word_of_nat]) simp
  also have "\<dots> = word_of_nat (8 * x + 4294967296 * (8 * (x + y)))"
  proof -
    have "word_of_nat 18446744073709551616 = (0 :: u64)" by simp
    then show ?thesis by (simp only: of_nat_add of_nat_mult mult_zero_left add_0_right)
  qed
  finally have e: "((p AND 0xFFFF0000FFFF) + (q AND 0xFFFF0000FFFF) + (drop_bit 16 p AND 0xFFFF0000FFFF) +
      (drop_bit 16 q AND 0xFFFF0000FFFF)) * 0x800000008 = (word_of_nat (8 * x + 4294967296 * (8 * (x + y))) :: u64)" .
  have "(8 * x + 4294967296 * (8 * (x + y))) div 4294967296 = 8 * (x + y)"
    using l(1) by (simp only: div_mult_self2 div_less)
  then show ?thesis unfolding e unat_drop_bit_eq unat64_exact[OF l(2)] by (simp add: drop_bit_eq_div x_def y_def)
qed

section \<open>The lanes hold the two sums\<close>

text \<open>The weights of the lanes in the second sum.\<close>

definition weighted :: "bool \<Rightarrow> (nat \<Rightarrow> nat) \<Rightarrow> (nat \<Rightarrow> nat) \<Rightarrow> nat" where
  "weighted bigend f g = (if bigend
     then 2 * (g 0 * 1 + g 1 * 2 + g 2 * 3 + g 3 * 4) + (f 0 + f 1 + f 2 + f 3) + 2 * (f 1 * 1 + f 2 * 2 + f 3 * 3)
     else 2 * (f 0 * 4 + f 1 * 3 + f 2 * 2 + f 3 * 1) + (g 0 + g 1 + g 2 + g 3) + 2 * (g 0 * 3 + g 1 * 2 + g 2 * 1))"

definition total :: "(nat \<Rightarrow> nat) \<Rightarrow> nat" where "total f = f 0 + f 1 + f 2 + f 3"

lemma take_8:
  assumes "8 * n + 8 \<le> length d"
  shows "take (8 * n + 8) d = take (8 * n) d @ map ((!) d) [8 * n, 8 * n + 1, 8 * n + 2, 8 * n + 3, 8 * n + 4, 8 * n + 5, 8 * n + 6, 8 * n + 7]"
  using assms by (simp add: take_Suc_conv_app_nth numeral_eq_Suc)

lemma adler_sums_lanes:
  fixes bigend d
  defines "x \<equiv> lane_a bigend d" and "y \<equiv> lane_b bigend d"
  assumes "8 * n \<le> length d"
  shows "adler_sums (map unat (take (8 * n) d)) (a, b) =
    (a + total (lsum x n) + total (lsum y n),
     b + 8 * n * a + 8 * (total (lsum (lsum x) n) + total (lsum (lsum y) n)) + weighted bigend (lsum x n) (lsum y n))"
  using assms(3)
proof (induction n)
  case 0
  then show ?case by (simp add: total_def weighted_def)
next
  case (Suc n)
  have t: "take (8 * Suc n) d = take (8 * n) d @ map ((!) d) [8 * n, 8 * n + 1, 8 * n + 2, 8 * n + 3, 8 * n + 4, 8 * n + 5, 8 * n + 6, 8 * n + 7]"
    using take_8[of n d] Suc.prems by (simp add: add.commute)
  have bytes: "map (\<lambda>i. unat (d ! i)) [8 * n, 8 * n + 1, 8 * n + 2, 8 * n + 3, 8 * n + 4, 8 * n + 5, 8 * n + 6, 8 * n + 7] =
    (if bigend then [y n 3, x n 3, y n 2, x n 2, y n 1, x n 1, y n 0, x n 0]
     else [x n 0, y n 0, x n 1, y n 1, x n 2, y n 2, x n 3, y n 3])"
    by (simp add: x_def y_def lane_a_def lane_b_def)
  have "adler_sums (map unat (take (8 * Suc n) d)) (a, b) =
    adler_sums (if bigend then [y n 3, x n 3, y n 2, x n 2, y n 1, x n 1, y n 0, x n 0]
     else [x n 0, y n 0, x n 1, y n 1, x n 2, y n 2, x n 3, y n 3]) (adler_sums (map unat (take (8 * n) d)) (a, b))"
    unfolding t bytes[symmetric] by simp
  also have "\<dots> = (a + total (lsum x (Suc n)) + total (lsum y (Suc n)),
     b + 8 * Suc n * a + 8 * (total (lsum (lsum x) (Suc n)) + total (lsum (lsum y) (Suc n))) + weighted bigend (lsum x (Suc n)) (lsum y (Suc n)))"
    using Suc by (cases bigend) (simp_all add: total_def weighted_def algebra_simps)
  finally show ?case .
qed

lemma adler_fast_sums:
  assumes s: "unat s1 < 2 ^ 16" "unat s2 < 2 ^ 32" and n: "length d = 8 * n" "n \<le> 23"
  shows "map_prod unat unat (adler_fast bigend d (s1, s2)) = adler_sums (map unat d) (unat s1, unat s2)"
proof -
  define x y where "x = lane_a bigend d" and "y = lane_b bigend d"
  define f g f2 g2 where "f = lsum x n" and "g = lsum y n" and "f2 = lsum (lsum x) n" and "g2 = lsum (lsum y) n"
  have "unat w \<le> 255" for w :: u8 using unsigned_less[of w, where 'a = nat] by simp
  then have "x k i \<le> 255" "y k i \<le> 255" for k i by (auto simp: x_def y_def lane_a_def lane_b_def)
  then have le: "f i \<le> 5865" "g i \<le> 5865" "f2 i \<le> 64515" "g2 i \<le> 64515" for i
    using lane_sums_le[of x i n] lane_sums_le[of y i n] n by (auto simp: f_def g_def f2_def g2_def)
  have fold: "fold (\<lambda>k. adler_word (AV_RN64 bigend (drop (8 * k) d))) [0..<length d div 8] (0, 0, 0, 0) =
      (word_of_nat (pack f), word_of_nat (pack f2), word_of_nat (pack g), word_of_nat (pack g2))"
    using fold_words[of n d bigend] n by (simp add: f_def g_def f2_def g2_def x_def y_def)
  have ones: "drop_bit 48 (word_of_nat (pack h) * 0x1000100010001) = (word_of_nat (total h) :: u64)" if "\<And>i. h i \<le> 11730" for h
    using top_lane[of h 11730 "\<lambda>_. 1"] that by (intro word_of_nat_unat_eqI) (simp add: pack_def total_def)
  have fg: "drop_bit 48 ((word_of_nat (pack f) + word_of_nat (pack g)) * 0x1000100010001) = (word_of_nat (total f + total g) :: u64)"
  proof -
    have "pack f + pack g = pack (\<lambda>i. f i + g i)" by (simp add: pack_def algebra_simps)
    then have "word_of_nat (pack f) + word_of_nat (pack g) = (word_of_nat (pack (\<lambda>i. f i + g i)) :: u64)" by (simp flip: of_nat_add)
    moreover have "f i + g i \<le> 11730" for i using le(1)[of i] le(2)[of i] by simp
    ultimately show ?thesis using ones[of "\<lambda>i. f i + g i"] by (simp add: total_def)
  qed
  have w: "drop_bit 48 (word_of_nat (pack h) * word_of_nat (c0 + c1 * 65536 + c2 * 4294967296 + c3 * 281474976710656)) =
      (word_of_nat (h 0 * c3 + h 1 * c2 + h 2 * c1 + h 3 * c0) :: u64)"
    if "\<And>i. h i \<le> 5865" "c0 + c1 + c2 + c3 \<le> 10" for h c0 c1 c2 c3
  proof -
    have "5865 * (c0 + c1 + c2 + c3) < 65536" using that(2) by simp
    then show ?thesis using top_lane[of h 5865 "(!) [c0, c1, c2, c3]"] that(1)
      by (intro word_of_nat_unat_eqI) (simp add: pack_def)
  qed
  define m where "m = (if bigend
    then 2 * drop_bit 48 (word_of_nat (pack g) * 0x1000200030004) + drop_bit 48 (word_of_nat (pack f) * 0x1000100010001) +
      2 * drop_bit 48 (word_of_nat (pack f) * 0x0000100020003)
    else 2 * drop_bit 48 (word_of_nat (pack f) * 0x4000300020001) + drop_bit 48 (word_of_nat (pack g) * 0x1000100010001) +
      2 * drop_bit 48 (word_of_nat (pack g) * 0x3000200010000) :: u64)"
  have fi: "f i \<le> 11730" and gi: "g i \<le> 11730" for i using le(1)[of i] le(2)[of i] by simp_all
  have m: "m = word_of_nat (weighted bigend f g)"
    using w[of g 4 3 2 1] w[of f 3 2 1 0] w[of f 1 2 3 4] w[of g 0 1 2 3] ones[of f, OF fi] ones[of g, OF gi] le
    by (simp add: m_def weighted_def total_def add_ac)
  have mid: "drop_bit 32 (((word_of_nat (pack f2) AND 0xFFFF0000FFFF) + (word_of_nat (pack g2) AND 0xFFFF0000FFFF) +
      (drop_bit 16 (word_of_nat (pack f2)) AND 0xFFFF0000FFFF) + (drop_bit 16 (word_of_nat (pack g2)) AND 0xFFFF0000FFFF)) * 0x800000008) =
      (word_of_nat (8 * (total f2 + total g2)) :: u64)"
    using mid_lanes[of f2 g2] le by (intro word_of_nat_unat_eqI) (simp only: total_def add_ac)
  have fast: "adler_fast bigend d (s1, s2) = (s1 + word_of_nat (total f + total g),
    s2 + s1 * word_of_nat (8 * n) + (word_of_nat (8 * (total f2 + total g2)) + m))"
    unfolding adler_fast_def split_conv Let_def fold unfolding fg mid m_def[symmetric] n(1) ..
  define a b c where "a = unat s1" and "b = unat s2" and "c = 8 * n * a"
  have "s1 = word_of_nat a" "s2 = word_of_nat b" by (simp_all add: a_def b_def)
  then have fast: "adler_fast bigend d (s1, s2) = (word_of_nat (a + total f + total g),
    word_of_nat (b + c + 8 * (total f2 + total g2) + weighted bigend f g))"
    unfolding fast m c_def by (simp add: algebra_simps)
  have t: "total f \<le> 23460" "total g \<le> 23460" "total f2 \<le> 258060" "total g2 \<le> 258060"
    using le[of 0] le[of 1] le[of 2] le[of 3] unfolding total_def by linarith+
  have wt: "weighted bigend f g \<le> 8 * (total f + total g)" unfolding weighted_def total_def by (cases bigend) simp_all
  have "c \<le> 8 * 23 * 65536" unfolding c_def using n(2) s(1) by (intro mult_le_mono) (simp_all add: a_def)
  then have "c \<le> 12058624" by simp
  moreover have "a < 65536" "b < 4294967296" using s by (simp_all add: a_def b_def)
  ultimately have lt: "b + c + 8 * (total f2 + total g2) + weighted bigend f g < 18446744073709551616"
    "a + total f + total g < 18446744073709551616" using t wt by simp_all
  have "adler_sums (map unat d) (a, b) = (a + total f + total g, b + c + 8 * (total f2 + total g2) + weighted bigend f g)"
    using adler_sums_lanes[where n = n and d = d and bigend = bigend and a = a and b = b] n
    by (simp add: c_def f_def g_def f2_def g2_def x_def y_def)
  then show ?thesis unfolding fast map_prod_simp unat64_exact[OF lt(1)] unat64_exact[OF lt(2)] by (simp only: a_def b_def)
qed

section \<open>The loop\<close>

lemma DO1_sums:
  assumes "unat s1 < 2 ^ 60" "unat s2 < 2 ^ 62"
  shows "map_prod unat unat (DO1 x (s1, s2)) = adler_sums [unat x] (unat s1, unat s2)"
proof -
  have x: "unat (ucast x :: u64) = unat x" "unat x < 256" using unsigned_less[of x, where 'a = nat]
    by (simp_all add: unsigned_ucast_eq take_bit_nat_eq_self)
  have a: "unat (s1 + ucast x) = unat s1 + unat x" using assms x by (subst unat_add_lem[THEN iffD1]) auto
  have "unat (s2 + (s1 + ucast x)) = unat s2 + unat (s1 + ucast x)" using assms x a by (subst unat_add_lem[THEN iffD1]) auto
  then show ?thesis by (simp add: DO1_def Let_def a)
qed

lemma byte_le: "unat (x :: u8) \<le> 255"
  using unsigned_less[of x, where 'a = nat] by simp

lemma adler_sums_le:
  assumes "\<forall>x\<in>set xs. x \<le> 255"
  shows "fst (adler_sums xs (a, b)) \<le> a + 255 * length xs \<and> snd (adler_sums xs (a, b)) \<le> b + length xs * (a + 255 * length xs)"
  using assms
proof (induction xs arbitrary: a b)
  case (Cons x xs)
  have "fst (adler_sums xs (a + x, b + (a + x))) \<le> a + x + 255 * length xs \<and>
    snd (adler_sums xs (a + x, b + (a + x))) \<le> b + (a + x) + length xs * (a + x + 255 * length xs)"
    using Cons by simp
  moreover have "length xs * (a + x + 255 * length xs) \<le> length xs * (a + 255 + 255 * length xs)" "x \<le> 255"
    using Cons.prems by (auto intro: mult_le_mono)
  ultimately show ?case unfolding adler_sums_simps list.size add_Suc_right add_0_right mult_Suc_right mult_Suc add.assoc[symmetric]
    by (intro conjI; linarith)
qed simp

text \<open>Four bytes from sums that leave room for them.\<close>

lemma fold_DO1_4:
  assumes "unat s1 < 2 ^ 58" "unat s2 < 2 ^ 31"
  shows "\<exists>t1 t2. fold DO1 [w, x, y, z] (s1, s2) = (t1, t2) \<and> adler_sums (map unat [w, x, y, z]) (unat s1, unat s2) = (unat t1, unat t2) \<and>
    unat t1 \<le> unat s1 + 1020 \<and> unat t2 < 2 ^ 60 + 2 ^ 59"
proof -
  have step: "\<exists>t1 t2. DO1 x (s1, s2) = (t1, t2) \<and> unat t1 = unat s1 + unat x \<and> unat t2 = unat s2 + (unat s1 + unat x)"
    if "unat s1 < 2 ^ 60" "unat s2 < 2 ^ 62" for s1 s2 x
    using DO1_sums[OF that, of x] by (cases "DO1 x (s1, s2)") simp
  note b = byte_le[of w] byte_le[of x] byte_le[of y] byte_le[of z]
  obtain a1 a2 where a: "DO1 w (s1, s2) = (a1, a2)" "unat a1 = unat s1 + unat w" "unat a2 = unat s2 + (unat s1 + unat w)"
    using step[of s1 s2 w] assms by auto
  obtain b1 b2 where b': "DO1 x (a1, a2) = (b1, b2)" "unat b1 = unat a1 + unat x" "unat b2 = unat a2 + (unat a1 + unat x)"
    using step[of a1 a2 x] assms a(2,3) b by auto
  obtain c1 c2 where c: "DO1 y (b1, b2) = (c1, c2)" "unat c1 = unat b1 + unat y" "unat c2 = unat b2 + (unat b1 + unat y)"
    using step[of b1 b2 y] assms a(2,3) b'(2,3) b by auto
  obtain d1 d2 where d: "DO1 z (c1, c2) = (d1, d2)" "unat d1 = unat c1 + unat z" "unat d2 = unat c2 + (unat c1 + unat z)"
    using step[of c1 c2 z] assms a(2,3) b'(2,3) c(2,3) b by auto
  have "unat d1 \<le> unat s1 + 1020" "unat d2 < 2 ^ 60 + 2 ^ 59"
    using assms b unfolding d(2,3) c(2,3) b'(2,3) a(2,3) by simp_all
  then show ?thesis by (auto simp: a b' c d)
qed

lemma adler_do4_sums:
  assumes "data \<noteq> []" "unat s1 + 255 * length data < 2 ^ 57" "unat s2 < 2 ^ 61"
  shows "\<exists>pre d t1 t2. adler_do4 data (s1, s2) = (d, t1, t2) \<and> data = pre @ d \<and> d \<noteq> [] \<and>
    adler_sums (map unat pre) (unat s1, unat s2) = (unat t1, unat t2) \<and> unat t1 < 2 ^ 57 \<and> unat t2 < 2 ^ 61"
  using assms
proof (induction "length data" arbitrary: data s1 s2 rule: less_induct)
  case less
  show ?case
  proof (cases "length data > 4 \<and> s2 < push_bit 31 1")
    case True
    then obtain w x y z v d where data: "data = [w, x, y, z] @ v # d"
      by (auto simp: numeral_eq_Suc Suc_less_eq2 length_Suc_conv neq_Nil_conv dest!: Suc_lessD)
    have s2: "unat s2 < 2 ^ 31" using True by (simp add: word_less_nat_alt push_bit_eq_mult)
    obtain t1 t2 where t: "fold DO1 [w, x, y, z] (s1, s2) = (t1, t2)"
        "adler_sums (map unat [w, x, y, z]) (unat s1, unat s2) = (unat t1, unat t2)"
        "unat t1 \<le> unat s1 + 1020" "unat t2 < 2 ^ 60 + 2 ^ 59"
      using fold_DO1_4[of s1 s2 w x y z] s2 less.prems(2) by auto
    have step: "adler_do4 data (s1, s2) = adler_do4 (v # d) (t1, t2)"
      using True t(1) by (subst adler_do4.simps) (simp add: data)
    have "unat t1 + 255 * length (v # d) < 2 ^ 57" using t(3) less.prems(2) by (simp add: data)
    with less.hyps[of "v # d" t1 t2] t(4) obtain pre d' r1 r2 where r: "adler_do4 (v # d) (t1, t2) = (d', r1, r2)"
        "v # d = pre @ d'" "d' \<noteq> []" "adler_sums (map unat pre) (unat t1, unat t2) = (unat r1, unat r2)"
        "unat r1 < 2 ^ 57" "unat r2 < 2 ^ 61"
      by (auto simp: data)
    have "adler_sums (map unat ([w, x, y, z] @ pre)) (unat s1, unat s2) = (unat r1, unat r2)"
      by (simp only: map_append adler_sums_simps(3) t(2) r(4))
    moreover have "data = ([w, x, y, z] @ pre) @ d'" by (simp add: data r(2))
    ultimately show ?thesis unfolding step r(1) using r(3,5,6) by blast
  next
    case False
    then show ?thesis using less.prems by (subst adler_do4.simps) (auto intro!: exI[of _ "[]"])
  qed
qed

lemma adler_chunk_sums:
  assumes "data \<noteq> []" "unat s1 < 2 ^ 16" "unat s2 < 2 ^ 32" "length data < 2 ^ 48"
  shows "\<exists>pre d t1 t2. adler_chunk fast bigend data (s1, s2) = (d, t1, t2) \<and> data = pre @ d \<and> d \<noteq> [] \<and>
    adler_sums (map unat pre) (unat s1, unat s2) = (unat t1, unat t2) \<and> unat t1 < 2 ^ 57 \<and> unat t2 < 2 ^ 61"
proof (cases fast)
  case True
  define n where "n = min ((length data - 1) div 8) 23"
  have n: "n \<le> 23" "8 * n < length data" using assms(1) by (cases data; simp add: n_def min_def; linarith)+
  have len2: "min ((length data - 1) div 8 * 8) (23 * 8) = 8 * n" by (auto simp: n_def)
  show ?thesis
  proof (cases "n = 0")
    case False
    obtain t1 t2 where t: "adler_fast bigend (take (8 * n) data) (s1, s2) = (t1, t2)" by fastforce
    then have e: "adler_sums (map unat (take (8 * n) data)) (unat s1, unat s2) = (unat t1, unat t2)"
      using adler_fast_sums[of s1 s2 "take (8 * n) data" n bigend] assms n by simp
    have "unat x \<le> 255" for x :: u8 by (rule byte_le)
    then have "unat t1 \<le> unat s1 + 255 * (8 * n)" "unat t2 \<le> unat s2 + 8 * n * (unat s1 + 255 * (8 * n))"
      using adler_sums_le[of "map unat (take (8 * n) data)" "unat s1" "unat s2"] e n by auto
    moreover have "8 * n * (unat s1 + 255 * (8 * n)) \<le> 184 * (65536 + 46920)"
      using assms n by (intro mult_le_mono add_mono) auto
    ultimately have "unat t1 < 2 ^ 57" "unat t2 < 2 ^ 61" using assms n by simp_all
    moreover have "adler_chunk fast bigend data (s1, s2) = (drop (8 * n) data, t1, t2)"
      using False by (simp only: adler_chunk_def True if_True Let_def len2 t) simp
    moreover have "drop (8 * n) data \<noteq> []" using n by simp
    ultimately show ?thesis using e append_take_drop_id[of "8 * n" data] by metis
  next
    case True
    then have "adler_chunk fast bigend data (s1, s2) = (data, s1, s2)"
      using \<open>fast\<close> by (simp only: adler_chunk_def if_True Let_def len2) simp
    then show ?thesis using assms by (auto intro!: exI[of _ "[]"])
  qed
next
  case False
  then show ?thesis using adler_do4_sums[of data s1 s2] assms by (simp add: adler_chunk_def)
qed

lemma adler_loop_sums:
  assumes "data \<noteq> []" "unat s1 < 2 ^ 16" "unat s2 < 2 ^ 32" "length data < 2 ^ 48"
  shows "map_prod unat unat (adler_loop fast bigend data (s1, s2)) = adler_spec data (unat s1, unat s2)"
  using assms
proof (induction "length data" arbitrary: data s1 s2 rule: less_induct)
  case less
  obtain pre d t1 t2 where c: "adler_chunk fast bigend data (s1, s2) = (d, t1, t2)" "data = pre @ d" "d \<noteq> []"
      "adler_sums (map unat pre) (unat s1, unat s2) = (unat t1, unat t2)" "unat t1 < 2 ^ 57" "unat t2 < 2 ^ 61"
    using adler_chunk_sums[OF less.prems, of fast bigend] by blast
  obtain x rest where d: "d = x # rest" using c(3) by (cases d) auto
  obtain r1 r2 where r: "DO1 x (t1, t2) = (r1, r2)" by fastforce
  have ur: "unat r1 = unat t1 + unat x" "unat r2 = unat t2 + (unat t1 + unat x)"
    using DO1_sums[of t1 t2 x] c(5,6) r by simp_all
  define m1 m2 where "m1 = r1 mod ADLER_BASE" and "m2 = r2 mod ADLER_BASE"
  have um: "unat m1 = unat r1 mod 65521" "unat m2 = unat r2 mod 65521"
    by (simp_all add: m1_def m2_def ADLER_BASE_def unat_mod)
  have step: "adler_loop fast bigend data (s1, s2) = adler_loop fast bigend rest (m1, m2)"
    using less.prems(1) by (subst adler_loop.simps) (simp add: c(1) d r Let_def m1_def m2_def)
  have sums: "adler_sums (map unat data) (unat s1, unat s2) = adler_sums (map unat rest) (unat r1, unat r2)"
    by (simp add: c(2,4) d ur)
  have spec: "adler_spec data (unat s1, unat s2) = adler_spec rest (unat m1, unat m2)"
    using adler_sums_mod[of "unat r1" 65521 "unat m1" "unat r2" "unat m2" "map unat rest"]
    unfolding adler_spec_def sums by (simp add: um case_prod_unfold Let_def)
  show ?case
  proof (cases "rest = []")
    case True
    then show ?thesis unfolding step spec by (subst adler_loop.simps) (simp add: adler_spec_def um)
  next
    case False
    have "unat m1 < 65521" "unat m2 < 65521" by (simp_all add: um)
    then have "unat m1 < 2 ^ 16" "unat m2 < 2 ^ 32" by simp_all
    then show ?thesis unfolding step spec using less.hyps[of rest m1 m2] False less.prems(4) by (simp add: c(2) d)
  qed
qed

section \<open>The checksum\<close>

lemma and_FFFF: "x AND 0xFFFF = take_bit 16 (x :: u64)"
  by (simp add: take_bit_eq_mask mask_eq_exp_minus_1)

lemma adler32_empty: "av_adler32_update fast bigend adler [] = adler"
proof -
  have "push_bit 16 (drop_bit 16 adler) OR take_bit 16 adler = adler"
    by (rule bit_word_eqI) (auto simp: bit_simps)
  then show ?thesis by (simp add: av_adler32_update_def adler_loop.simps and_FFFF)
qed

lemma join_16:
  assumes "unat (a :: u64) < 65536" "unat b < 65536"
  shows "unat (push_bit 16 b OR a) = 65536 * unat b + unat a"
proof -
  have "a = take_bit 16 a" using assms(1) by (simp add: word_unat_eq_iff unsigned_take_bit_eq take_bit_nat_eq_self)
  then have "push_bit 16 b OR a = push_bit 16 b OR take_bit 16 a" by simp
  also have "\<dots> = push_bit 16 b + take_bit 16 a"
    by (rule disjunctive_add[symmetric]) (auto simp: bit_simps)
  also have "\<dots> = push_bit 16 b + a" using \<open>a = take_bit 16 a\<close> by simp
  also have "\<dots> = word_of_nat (65536 * unat b + unat a)" by (simp add: push_bit_eq_mult)
  finally show ?thesis using assms unat64_exact[of "65536 * unat b + unat a"] by simp
qed

text \<open>C38: the checksum update computes Adler-32: for every nonempty input and every 32-bit starting value, in both byte orders
and both in the build that sums 16-bit lanes of 64-bit words and in the byte loop, the result holds the two sums of the
definition modulo 65521, none of the intermediate sums having wrapped.\<close>
theorem adler32_exact:
  assumes "data \<noteq> []" "length data < 2 ^ 48" "adler < 2 ^ 32"
  shows "unat (av_adler32_update fast bigend adler data) =
    (let (a, b) = adler_sums (map unat data) (unat adler mod 65536, unat adler div 65536) in 65536 * (b mod 65521) + a mod 65521)"
proof -
  obtain t1 t2 where t: "adler_loop fast bigend data (adler AND 0xFFFF, drop_bit 16 adler) = (t1, t2)" by fastforce
  have s1: "unat (adler AND 0xFFFF) = unat adler mod 65536"
    by (simp add: and_FFFF unsigned_take_bit_eq take_bit_eq_mod[where ?'a = nat])
  have s2: "unat (drop_bit 16 adler) = unat adler div 65536" by (simp add: unat_drop_bit_eq drop_bit_eq_div[where ?'a = nat])
  have "map_prod unat unat (t1, t2) = adler_spec data (unat adler mod 65536, unat adler div 65536)"
    using adler_loop_sums[of data "adler AND 0xFFFF" "drop_bit 16 adler" fast bigend] assms
    by (simp add: t s1 s2 word_less_nat_alt)
  then have e: "unat t1 = fst (adler_sums (map unat data) (unat adler mod 65536, unat adler div 65536)) mod 65521"
      "unat t2 = snd (adler_sums (map unat data) (unat adler mod 65536, unat adler div 65536)) mod 65521"
    by (simp_all add: adler_spec_def case_prod_unfold Let_def)
  then have "unat t1 < 65536" "unat t2 < 65536" by simp_all
  then show ?thesis by (simp add: av_adler32_update_def t join_16 e case_prod_unfold Let_def)
qed

lemma adler32_exact_witness:
  "unat (av_adler32_update True False 1 [97, 98, 99, 100, 101, 102, 103, 104, 105, 106]) = 0x158603f8"
  using adler32_exact[of "[97, 98, 99, 100, 101, 102, 103, 104, 105, 106]" 1 True False] by simp

end
