(* ===== verification/Crc.thy ===== *)
theory Crc
  imports Bytes
begin

text \<open>
  libavutil/crc.c: tables for cyclic redundancy checks of 8 to 32 bits, with the least or the most significant bit first, and the
  check itself, byte by byte or by four bytes at once. The checks with the most significant bit first work on values in reversed byte
  order, so one loop serves both.
\<close>

section \<open>The code\<close>

definition AV_BSWAP16C :: "u32 \<Rightarrow> u32" where
  "AV_BSWAP16C x = (push_bit 8 x AND 0xff00) OR (drop_bit 8 x AND 0x00ff)"

definition av_bswap32 :: "u32 \<Rightarrow> u32" where
  "av_bswap32 x = push_bit 16 (AV_BSWAP16C x) OR AV_BSWAP16C (drop_bit 16 x)"

definition crc_step_le :: "u32 \<Rightarrow> u32 \<Rightarrow> u32" where
  "crc_step_le poly c = drop_bit 1 c XOR (poly AND (- (c AND 1)))"

definition crc_step_be :: "u32 \<Rightarrow> u32 \<Rightarrow> u32" where
  "crc_step_be poly c = push_bit 1 c XOR (poly AND signed_drop_bit 31 c)"

definition crc_entry :: "bool \<Rightarrow> int \<Rightarrow> u32 \<Rightarrow> nat \<Rightarrow> u32" where
  "crc_entry le bits poly i =
     (if le then (crc_step_le poly ^^ 8) (word_of_nat i)
      else av_bswap32 ((crc_step_be (push_bit (nat (32 - bits)) poly) ^^ 8) (push_bit 24 (word_of_nat i))))"

definition crc_extend :: "nat \<Rightarrow> nat \<Rightarrow> u32 list \<Rightarrow> u32 list" where
  "crc_extend i j ctx = ctx[256 * (j + 1) + i := drop_bit 8 (ctx ! (256 * j + i)) XOR ctx ! unat (ctx ! (256 * j + i) AND 0xFF)]"

text \<open>\<open>small\<close> is \<open>CONFIG_SMALL\<close>; the table \<open>ctx\<close> has \<open>ctx_size\<close> bytes, four for each entry.\<close>

definition av_crc_init :: "bool \<Rightarrow> u32 list \<Rightarrow> bool \<Rightarrow> int \<Rightarrow> u32 \<Rightarrow> int \<Rightarrow> int \<times> u32 list" where
  "av_crc_init small ctx le bits poly ctx_size =
     (if bits < 8 \<or> bits > 32 \<or> uint poly \<ge> 2 ^ nat bits then (EINVAL, ctx)
      else if ctx_size \<noteq> 4 * 257 \<and> ctx_size \<noteq> 4 * 1024 then (EINVAL, ctx)
      else
        (let ctx = fold (\<lambda>i ctx. ctx[i := crc_entry le bits poly i]) [0..<256] ctx;
             ctx = ctx[256 := 1];
             ctx = (if \<not> small \<and> ctx_size \<ge> 4 * 1024
                    then fold (\<lambda>i. fold (crc_extend i) [0..<3]) [0..<256] ctx else ctx)
         in (0, ctx)))"

definition crc_byte :: "u32 list \<Rightarrow> u8 \<Rightarrow> u32 \<Rightarrow> u32" where
  "crc_byte ctx b crc = ctx ! unat (ucast crc XOR b) XOR drop_bit 8 crc"

text \<open>Up to the next address that is a multiple of four, then words, then the rest.\<close>

fun crc_align :: "u32 list \<Rightarrow> nat \<Rightarrow> u32 \<Rightarrow> u8 list \<Rightarrow> u32 \<times> u8 list" where
  "crc_align ctx addr crc [] = (crc, [])"
| "crc_align ctx addr crc (b # bs) =
     (if addr mod 4 \<noteq> 0 then crc_align ctx (addr + 1) (crc_byte ctx b crc) bs else (crc, b # bs))"

fun crc_words :: "u32 list \<Rightarrow> u32 \<Rightarrow> u8 list \<Rightarrow> u32 \<times> u8 list" where
  "crc_words ctx crc (b0 # b1 # b2 # b3 # bs) =
     (let crc = crc XOR AV_RL32 [b0, b1, b2, b3]
      in crc_words ctx (ctx ! (3 * 256 + unat (crc AND 0xFF)) XOR ctx ! (2 * 256 + unat (drop_bit 8 crc AND 0xFF)) XOR
           ctx ! (1 * 256 + unat (drop_bit 16 crc AND 0xFF)) XOR ctx ! (0 * 256 + unat (drop_bit 24 crc))) bs)"
| "crc_words ctx crc bs = (crc, bs)"

definition av_crc :: "bool \<Rightarrow> nat \<Rightarrow> u32 list \<Rightarrow> u32 \<Rightarrow> u8 list \<Rightarrow> u32" where
  "av_crc small addr ctx crc buffer =
     (let (crc, buffer) = (if \<not> small \<and> ctx ! 256 = 0
             then (let (crc, buffer) = crc_align ctx addr crc buffer in crc_words ctx crc buffer) else (crc, buffer))
      in fold (crc_byte ctx) buffer crc)"

text \<open>The tables of the build with \<open>CONFIG_HARDCODED_TABLES\<close>.\<close>

definition table_8_ATM :: "u32 list" where
  "table_8_ATM = [
    0x0, 0x7, 0xE, 0x9, 0x1C, 0x1B, 0x12, 0x15,
    0x38, 0x3F, 0x36, 0x31, 0x24, 0x23, 0x2A, 0x2D,
    0x70, 0x77, 0x7E, 0x79, 0x6C, 0x6B, 0x62, 0x65,
    0x48, 0x4F, 0x46, 0x41, 0x54, 0x53, 0x5A, 0x5D,
    0xE0, 0xE7, 0xEE, 0xE9, 0xFC, 0xFB, 0xF2, 0xF5,
    0xD8, 0xDF, 0xD6, 0xD1, 0xC4, 0xC3, 0xCA, 0xCD,
    0x90, 0x97, 0x9E, 0x99, 0x8C, 0x8B, 0x82, 0x85,
    0xA8, 0xAF, 0xA6, 0xA1, 0xB4, 0xB3, 0xBA, 0xBD,
    0xC7, 0xC0, 0xC9, 0xCE, 0xDB, 0xDC, 0xD5, 0xD2,
    0xFF, 0xF8, 0xF1, 0xF6, 0xE3, 0xE4, 0xED, 0xEA,
    0xB7, 0xB0, 0xB9, 0xBE, 0xAB, 0xAC, 0xA5, 0xA2,
    0x8F, 0x88, 0x81, 0x86, 0x93, 0x94, 0x9D, 0x9A,
    0x27, 0x20, 0x29, 0x2E, 0x3B, 0x3C, 0x35, 0x32,
    0x1F, 0x18, 0x11, 0x16, 0x3, 0x4, 0xD, 0xA,
    0x57, 0x50, 0x59, 0x5E, 0x4B, 0x4C, 0x45, 0x42,
    0x6F, 0x68, 0x61, 0x66, 0x73, 0x74, 0x7D, 0x7A,
    0x89, 0x8E, 0x87, 0x80, 0x95, 0x92, 0x9B, 0x9C,
    0xB1, 0xB6, 0xBF, 0xB8, 0xAD, 0xAA, 0xA3, 0xA4,
    0xF9, 0xFE, 0xF7, 0xF0, 0xE5, 0xE2, 0xEB, 0xEC,
    0xC1, 0xC6, 0xCF, 0xC8, 0xDD, 0xDA, 0xD3, 0xD4,
    0x69, 0x6E, 0x67, 0x60, 0x75, 0x72, 0x7B, 0x7C,
    0x51, 0x56, 0x5F, 0x58, 0x4D, 0x4A, 0x43, 0x44,
    0x19, 0x1E, 0x17, 0x10, 0x5, 0x2, 0xB, 0xC,
    0x21, 0x26, 0x2F, 0x28, 0x3D, 0x3A, 0x33, 0x34,
    0x4E, 0x49, 0x40, 0x47, 0x52, 0x55, 0x5C, 0x5B,
    0x76, 0x71, 0x78, 0x7F, 0x6A, 0x6D, 0x64, 0x63,
    0x3E, 0x39, 0x30, 0x37, 0x22, 0x25, 0x2C, 0x2B,
    0x6, 0x1, 0x8, 0xF, 0x1A, 0x1D, 0x14, 0x13,
    0xAE, 0xA9, 0xA0, 0xA7, 0xB2, 0xB5, 0xBC, 0xBB,
    0x96, 0x91, 0x98, 0x9F, 0x8A, 0x8D, 0x84, 0x83,
    0xDE, 0xD9, 0xD0, 0xD7, 0xC2, 0xC5, 0xCC, 0xCB,
    0xE6, 0xE1, 0xE8, 0xEF, 0xFA, 0xFD, 0xF4, 0xF3,
    0x1]"

definition table_8_EBU :: "u32 list" where
  "table_8_EBU = [
    0x0, 0x1D, 0x3A, 0x27, 0x74, 0x69, 0x4E, 0x53,
    0xE8, 0xF5, 0xD2, 0xCF, 0x9C, 0x81, 0xA6, 0xBB,
    0xCD, 0xD0, 0xF7, 0xEA, 0xB9, 0xA4, 0x83, 0x9E,
    0x25, 0x38, 0x1F, 0x2, 0x51, 0x4C, 0x6B, 0x76,
    0x87, 0x9A, 0xBD, 0xA0, 0xF3, 0xEE, 0xC9, 0xD4,
    0x6F, 0x72, 0x55, 0x48, 0x1B, 0x6, 0x21, 0x3C,
    0x4A, 0x57, 0x70, 0x6D, 0x3E, 0x23, 0x4, 0x19,
    0xA2, 0xBF, 0x98, 0x85, 0xD6, 0xCB, 0xEC, 0xF1,
    0x13, 0xE, 0x29, 0x34, 0x67, 0x7A, 0x5D, 0x40,
    0xFB, 0xE6, 0xC1, 0xDC, 0x8F, 0x92, 0xB5, 0xA8,
    0xDE, 0xC3, 0xE4, 0xF9, 0xAA, 0xB7, 0x90, 0x8D,
    0x36, 0x2B, 0xC, 0x11, 0x42, 0x5F, 0x78, 0x65,
    0x94, 0x89, 0xAE, 0xB3, 0xE0, 0xFD, 0xDA, 0xC7,
    0x7C, 0x61, 0x46, 0x5B, 0x8, 0x15, 0x32, 0x2F,
    0x59, 0x44, 0x63, 0x7E, 0x2D, 0x30, 0x17, 0xA,
    0xB1, 0xAC, 0x8B, 0x96, 0xC5, 0xD8, 0xFF, 0xE2,
    0x26, 0x3B, 0x1C, 0x1, 0x52, 0x4F, 0x68, 0x75,
    0xCE, 0xD3, 0xF4, 0xE9, 0xBA, 0xA7, 0x80, 0x9D,
    0xEB, 0xF6, 0xD1, 0xCC, 0x9F, 0x82, 0xA5, 0xB8,
    0x3, 0x1E, 0x39, 0x24, 0x77, 0x6A, 0x4D, 0x50,
    0xA1, 0xBC, 0x9B, 0x86, 0xD5, 0xC8, 0xEF, 0xF2,
    0x49, 0x54, 0x73, 0x6E, 0x3D, 0x20, 0x7, 0x1A,
    0x6C, 0x71, 0x56, 0x4B, 0x18, 0x5, 0x22, 0x3F,
    0x84, 0x99, 0xBE, 0xA3, 0xF0, 0xED, 0xCA, 0xD7,
    0x35, 0x28, 0xF, 0x12, 0x41, 0x5C, 0x7B, 0x66,
    0xDD, 0xC0, 0xE7, 0xFA, 0xA9, 0xB4, 0x93, 0x8E,
    0xF8, 0xE5, 0xC2, 0xDF, 0x8C, 0x91, 0xB6, 0xAB,
    0x10, 0xD, 0x2A, 0x37, 0x64, 0x79, 0x5E, 0x43,
    0xB2, 0xAF, 0x88, 0x95, 0xC6, 0xDB, 0xFC, 0xE1,
    0x5A, 0x47, 0x60, 0x7D, 0x2E, 0x33, 0x14, 0x9,
    0x7F, 0x62, 0x45, 0x58, 0xB, 0x16, 0x31, 0x2C,
    0x97, 0x8A, 0xAD, 0xB0, 0xE3, 0xFE, 0xD9, 0xC4,
    0x1]"

definition table_16_ANSI :: "u32 list" where
  "table_16_ANSI = [
    0x0, 0x580, 0xF80, 0xA00, 0x1B80, 0x1E00, 0x1400, 0x1180,
    0x3380, 0x3600, 0x3C00, 0x3980, 0x2800, 0x2D80, 0x2780, 0x2200,
    0x6380, 0x6600, 0x6C00, 0x6980, 0x7800, 0x7D80, 0x7780, 0x7200,
    0x5000, 0x5580, 0x5F80, 0x5A00, 0x4B80, 0x4E00, 0x4400, 0x4180,
    0xC380, 0xC600, 0xCC00, 0xC980, 0xD800, 0xDD80, 0xD780, 0xD200,
    0xF000, 0xF580, 0xFF80, 0xFA00, 0xEB80, 0xEE00, 0xE400, 0xE180,
    0xA000, 0xA580, 0xAF80, 0xAA00, 0xBB80, 0xBE00, 0xB400, 0xB180,
    0x9380, 0x9600, 0x9C00, 0x9980, 0x8800, 0x8D80, 0x8780, 0x8200,
    0x8381, 0x8601, 0x8C01, 0x8981, 0x9801, 0x9D81, 0x9781, 0x9201,
    0xB001, 0xB581, 0xBF81, 0xBA01, 0xAB81, 0xAE01, 0xA401, 0xA181,
    0xE001, 0xE581, 0xEF81, 0xEA01, 0xFB81, 0xFE01, 0xF401, 0xF181,
    0xD381, 0xD601, 0xDC01, 0xD981, 0xC801, 0xCD81, 0xC781, 0xC201,
    0x4001, 0x4581, 0x4F81, 0x4A01, 0x5B81, 0x5E01, 0x5401, 0x5181,
    0x7381, 0x7601, 0x7C01, 0x7981, 0x6801, 0x6D81, 0x6781, 0x6201,
    0x2381, 0x2601, 0x2C01, 0x2981, 0x3801, 0x3D81, 0x3781, 0x3201,
    0x1001, 0x1581, 0x1F81, 0x1A01, 0xB81, 0xE01, 0x401, 0x181,
    0x383, 0x603, 0xC03, 0x983, 0x1803, 0x1D83, 0x1783, 0x1203,
    0x3003, 0x3583, 0x3F83, 0x3A03, 0x2B83, 0x2E03, 0x2403, 0x2183,
    0x6003, 0x6583, 0x6F83, 0x6A03, 0x7B83, 0x7E03, 0x7403, 0x7183,
    0x5383, 0x5603, 0x5C03, 0x5983, 0x4803, 0x4D83, 0x4783, 0x4203,
    0xC003, 0xC583, 0xCF83, 0xCA03, 0xDB83, 0xDE03, 0xD403, 0xD183,
    0xF383, 0xF603, 0xFC03, 0xF983, 0xE803, 0xED83, 0xE783, 0xE203,
    0xA383, 0xA603, 0xAC03, 0xA983, 0xB803, 0xBD83, 0xB783, 0xB203,
    0x9003, 0x9583, 0x9F83, 0x9A03, 0x8B83, 0x8E03, 0x8403, 0x8183,
    0x8002, 0x8582, 0x8F82, 0x8A02, 0x9B82, 0x9E02, 0x9402, 0x9182,
    0xB382, 0xB602, 0xBC02, 0xB982, 0xA802, 0xAD82, 0xA782, 0xA202,
    0xE382, 0xE602, 0xEC02, 0xE982, 0xF802, 0xFD82, 0xF782, 0xF202,
    0xD002, 0xD582, 0xDF82, 0xDA02, 0xCB82, 0xCE02, 0xC402, 0xC182,
    0x4382, 0x4602, 0x4C02, 0x4982, 0x5802, 0x5D82, 0x5782, 0x5202,
    0x7002, 0x7582, 0x7F82, 0x7A02, 0x6B82, 0x6E02, 0x6402, 0x6182,
    0x2002, 0x2582, 0x2F82, 0x2A02, 0x3B82, 0x3E02, 0x3402, 0x3182,
    0x1382, 0x1602, 0x1C02, 0x1982, 0x802, 0xD82, 0x782, 0x202,
    0x1]"

definition table_16_CCITT :: "u32 list" where
  "table_16_CCITT = [
    0x0, 0x2110, 0x4220, 0x6330, 0x8440, 0xA550, 0xC660, 0xE770,
    0x881, 0x2991, 0x4AA1, 0x6BB1, 0x8CC1, 0xADD1, 0xCEE1, 0xEFF1,
    0x3112, 0x1002, 0x7332, 0x5222, 0xB552, 0x9442, 0xF772, 0xD662,
    0x3993, 0x1883, 0x7BB3, 0x5AA3, 0xBDD3, 0x9CC3, 0xFFF3, 0xDEE3,
    0x6224, 0x4334, 0x2004, 0x114, 0xE664, 0xC774, 0xA444, 0x8554,
    0x6AA5, 0x4BB5, 0x2885, 0x995, 0xEEE5, 0xCFF5, 0xACC5, 0x8DD5,
    0x5336, 0x7226, 0x1116, 0x3006, 0xD776, 0xF666, 0x9556, 0xB446,
    0x5BB7, 0x7AA7, 0x1997, 0x3887, 0xDFF7, 0xFEE7, 0x9DD7, 0xBCC7,
    0xC448, 0xE558, 0x8668, 0xA778, 0x4008, 0x6118, 0x228, 0x2338,
    0xCCC9, 0xEDD9, 0x8EE9, 0xAFF9, 0x4889, 0x6999, 0xAA9, 0x2BB9,
    0xF55A, 0xD44A, 0xB77A, 0x966A, 0x711A, 0x500A, 0x333A, 0x122A,
    0xFDDB, 0xDCCB, 0xBFFB, 0x9EEB, 0x799B, 0x588B, 0x3BBB, 0x1AAB,
    0xA66C, 0x877C, 0xE44C, 0xC55C, 0x222C, 0x33C, 0x600C, 0x411C,
    0xAEED, 0x8FFD, 0xECCD, 0xCDDD, 0x2AAD, 0xBBD, 0x688D, 0x499D,
    0x977E, 0xB66E, 0xD55E, 0xF44E, 0x133E, 0x322E, 0x511E, 0x700E,
    0x9FFF, 0xBEEF, 0xDDDF, 0xFCCF, 0x1BBF, 0x3AAF, 0x599F, 0x788F,
    0x8891, 0xA981, 0xCAB1, 0xEBA1, 0xCD1, 0x2DC1, 0x4EF1, 0x6FE1,
    0x8010, 0xA100, 0xC230, 0xE320, 0x450, 0x2540, 0x4670, 0x6760,
    0xB983, 0x9893, 0xFBA3, 0xDAB3, 0x3DC3, 0x1CD3, 0x7FE3, 0x5EF3,
    0xB102, 0x9012, 0xF322, 0xD232, 0x3542, 0x1452, 0x7762, 0x5672,
    0xEAB5, 0xCBA5, 0xA895, 0x8985, 0x6EF5, 0x4FE5, 0x2CD5, 0xDC5,
    0xE234, 0xC324, 0xA014, 0x8104, 0x6674, 0x4764, 0x2454, 0x544,
    0xDBA7, 0xFAB7, 0x9987, 0xB897, 0x5FE7, 0x7EF7, 0x1DC7, 0x3CD7,
    0xD326, 0xF236, 0x9106, 0xB016, 0x5766, 0x7676, 0x1546, 0x3456,
    0x4CD9, 0x6DC9, 0xEF9, 0x2FE9, 0xC899, 0xE989, 0x8AB9, 0xABA9,
    0x4458, 0x6548, 0x678, 0x2768, 0xC018, 0xE108, 0x8238, 0xA328,
    0x7DCB, 0x5CDB, 0x3FEB, 0x1EFB, 0xF98B, 0xD89B, 0xBBAB, 0x9ABB,
    0x754A, 0x545A, 0x376A, 0x167A, 0xF10A, 0xD01A, 0xB32A, 0x923A,
    0x2EFD, 0xFED, 0x6CDD, 0x4DCD, 0xAABD, 0x8BAD, 0xE89D, 0xC98D,
    0x267C, 0x76C, 0x645C, 0x454C, 0xA23C, 0x832C, 0xE01C, 0xC10C,
    0x1FEF, 0x3EFF, 0x5DCF, 0x7CDF, 0x9BAF, 0xBABF, 0xD98F, 0xF89F,
    0x176E, 0x367E, 0x554E, 0x745E, 0x932E, 0xB23E, 0xD10E, 0xF01E,
    0x1]"

definition table_24_IEEE :: "u32 list" where
  "table_24_IEEE = [
    0x0, 0xFB4C86, 0xDD58A, 0xF6990C, 0xE1E693, 0x1AAA15, 0xEC3319, 0x177F9F,
    0x3981A1, 0xC2CD27, 0x34542B, 0xCF18AD, 0xD86732, 0x232BB4, 0xD5B2B8, 0x2EFE3E,
    0x894EC5, 0x720243, 0x849B4F, 0x7FD7C9, 0x68A856, 0x93E4D0, 0x657DDC, 0x9E315A,
    0xB0CF64, 0x4B83E2, 0xBD1AEE, 0x465668, 0x5129F7, 0xAA6571, 0x5CFC7D, 0xA7B0FB,
    0xE9D10C, 0x129D8A, 0xE40486, 0x1F4800, 0x8379F, 0xF37B19, 0x5E215, 0xFEAE93,
    0xD050AD, 0x2B1C2B, 0xDD8527, 0x26C9A1, 0x31B63E, 0xCAFAB8, 0x3C63B4, 0xC72F32,
    0x609FC9, 0x9BD34F, 0x6D4A43, 0x9606C5, 0x81795A, 0x7A35DC, 0x8CACD0, 0x77E056,
    0x591E68, 0xA252EE, 0x54CBE2, 0xAF8764, 0xB8F8FB, 0x43B47D, 0xB52D71, 0x4E61F7,
    0xD2A319, 0x29EF9F, 0xDF7693, 0x243A15, 0x33458A, 0xC8090C, 0x3E9000, 0xC5DC86,
    0xEB22B8, 0x106E3E, 0xE6F732, 0x1DBBB4, 0xAC42B, 0xF188AD, 0x711A1, 0xFC5D27,
    0x5BEDDC, 0xA0A15A, 0x563856, 0xAD74D0, 0xBA0B4F, 0x4147C9, 0xB7DEC5, 0x4C9243,
    0x626C7D, 0x9920FB, 0x6FB9F7, 0x94F571, 0x838AEE, 0x78C668, 0x8E5F64, 0x7513E2,
    0x3B7215, 0xC03E93, 0x36A79F, 0xCDEB19, 0xDA9486, 0x21D800, 0xD7410C, 0x2C0D8A,
    0x2F3B4, 0xF9BF32, 0xF263E, 0xF46AB8, 0xE31527, 0x1859A1, 0xEEC0AD, 0x158C2B,
    0xB23CD0, 0x497056, 0xBFE95A, 0x44A5DC, 0x53DA43, 0xA896C5, 0x5E0FC9, 0xA5434F,
    0x8BBD71, 0x70F1F7, 0x8668FB, 0x7D247D, 0x6A5BE2, 0x911764, 0x678E68, 0x9CC2EE,
    0xA44733, 0x5F0BB5, 0xA992B9, 0x52DE3F, 0x45A1A0, 0xBEED26, 0x48742A, 0xB338AC,
    0x9DC692, 0x668A14, 0x901318, 0x6B5F9E, 0x7C2001, 0x876C87, 0x71F58B, 0x8AB90D,
    0x2D09F6, 0xD64570, 0x20DC7C, 0xDB90FA, 0xCCEF65, 0x37A3E3, 0xC13AEF, 0x3A7669,
    0x148857, 0xEFC4D1, 0x195DDD, 0xE2115B, 0xF56EC4, 0xE2242, 0xF8BB4E, 0x3F7C8,
    0x4D963F, 0xB6DAB9, 0x4043B5, 0xBB0F33, 0xAC70AC, 0x573C2A, 0xA1A526, 0x5AE9A0,
    0x74179E, 0x8F5B18, 0x79C214, 0x828E92, 0x95F10D, 0x6EBD8B, 0x982487, 0x636801,
    0xC4D8FA, 0x3F947C, 0xC90D70, 0x3241F6, 0x253E69, 0xDE72EF, 0x28EBE3, 0xD3A765,
    0xFD595B, 0x615DD, 0xF08CD1, 0xBC057, 0x1CBFC8, 0xE7F34E, 0x116A42, 0xEA26C4,
    0x76E42A, 0x8DA8AC, 0x7B31A0, 0x807D26, 0x9702B9, 0x6C4E3F, 0x9AD733, 0x619BB5,
    0x4F658B, 0xB4290D, 0x42B001, 0xB9FC87, 0xAE8318, 0x55CF9E, 0xA35692, 0x581A14,
    0xFFAAEF, 0x4E669, 0xF27F65, 0x933E3, 0x1E4C7C, 0xE500FA, 0x1399F6, 0xE8D570,
    0xC62B4E, 0x3D67C8, 0xCBFEC4, 0x30B242, 0x27CDDD, 0xDC815B, 0x2A1857, 0xD154D1,
    0x9F3526, 0x6479A0, 0x92E0AC, 0x69AC2A, 0x7ED3B5, 0x859F33, 0x73063F, 0x884AB9,
    0xA6B487, 0x5DF801, 0xAB610D, 0x502D8B, 0x475214, 0xBC1E92, 0x4A879E, 0xB1CB18,
    0x167BE3, 0xED3765, 0x1BAE69, 0xE0E2EF, 0xF79D70, 0xCD1F6, 0xFA48FA, 0x1047C,
    0x2FFA42, 0xD4B6C4, 0x222FC8, 0xD9634E, 0xCE1CD1, 0x355057, 0xC3C95B, 0x3885DD,
    0x1]"

definition table_32_IEEE :: "u32 list" where
  "table_32_IEEE = [
    0x0, 0xB71DC104, 0x6E3B8209, 0xD926430D, 0xDC760413, 0x6B6BC517, 0xB24D861A, 0x550471E,
    0xB8ED0826, 0xFF0C922, 0xD6D68A2F, 0x61CB4B2B, 0x649B0C35, 0xD386CD31, 0xAA08E3C, 0xBDBD4F38,
    0x70DB114C, 0xC7C6D048, 0x1EE09345, 0xA9FD5241, 0xACAD155F, 0x1BB0D45B, 0xC2969756, 0x758B5652,
    0xC836196A, 0x7F2BD86E, 0xA60D9B63, 0x11105A67, 0x14401D79, 0xA35DDC7D, 0x7A7B9F70, 0xCD665E74,
    0xE0B62398, 0x57ABE29C, 0x8E8DA191, 0x39906095, 0x3CC0278B, 0x8BDDE68F, 0x52FBA582, 0xE5E66486,
    0x585B2BBE, 0xEF46EABA, 0x3660A9B7, 0x817D68B3, 0x842D2FAD, 0x3330EEA9, 0xEA16ADA4, 0x5D0B6CA0,
    0x906D32D4, 0x2770F3D0, 0xFE56B0DD, 0x494B71D9, 0x4C1B36C7, 0xFB06F7C3, 0x2220B4CE, 0x953D75CA,
    0x28803AF2, 0x9F9DFBF6, 0x46BBB8FB, 0xF1A679FF, 0xF4F63EE1, 0x43EBFFE5, 0x9ACDBCE8, 0x2DD07DEC,
    0x77708634, 0xC06D4730, 0x194B043D, 0xAE56C539, 0xAB068227, 0x1C1B4323, 0xC53D002E, 0x7220C12A,
    0xCF9D8E12, 0x78804F16, 0xA1A60C1B, 0x16BBCD1F, 0x13EB8A01, 0xA4F64B05, 0x7DD00808, 0xCACDC90C,
    0x7AB9778, 0xB0B6567C, 0x69901571, 0xDE8DD475, 0xDBDD936B, 0x6CC0526F, 0xB5E61162, 0x2FBD066,
    0xBF469F5E, 0x85B5E5A, 0xD17D1D57, 0x6660DC53, 0x63309B4D, 0xD42D5A49, 0xD0B1944, 0xBA16D840,
    0x97C6A5AC, 0x20DB64A8, 0xF9FD27A5, 0x4EE0E6A1, 0x4BB0A1BF, 0xFCAD60BB, 0x258B23B6, 0x9296E2B2,
    0x2F2BAD8A, 0x98366C8E, 0x41102F83, 0xF60DEE87, 0xF35DA999, 0x4440689D, 0x9D662B90, 0x2A7BEA94,
    0xE71DB4E0, 0x500075E4, 0x892636E9, 0x3E3BF7ED, 0x3B6BB0F3, 0x8C7671F7, 0x555032FA, 0xE24DF3FE,
    0x5FF0BCC6, 0xE8ED7DC2, 0x31CB3ECF, 0x86D6FFCB, 0x8386B8D5, 0x349B79D1, 0xEDBD3ADC, 0x5AA0FBD8,
    0xEEE00C69, 0x59FDCD6D, 0x80DB8E60, 0x37C64F64, 0x3296087A, 0x858BC97E, 0x5CAD8A73, 0xEBB04B77,
    0x560D044F, 0xE110C54B, 0x38368646, 0x8F2B4742, 0x8A7B005C, 0x3D66C158, 0xE4408255, 0x535D4351,
    0x9E3B1D25, 0x2926DC21, 0xF0009F2C, 0x471D5E28, 0x424D1936, 0xF550D832, 0x2C769B3F, 0x9B6B5A3B,
    0x26D61503, 0x91CBD407, 0x48ED970A, 0xFFF0560E, 0xFAA01110, 0x4DBDD014, 0x949B9319, 0x2386521D,
    0xE562FF1, 0xB94BEEF5, 0x606DADF8, 0xD7706CFC, 0xD2202BE2, 0x653DEAE6, 0xBC1BA9EB, 0xB0668EF,
    0xB6BB27D7, 0x1A6E6D3, 0xD880A5DE, 0x6F9D64DA, 0x6ACD23C4, 0xDDD0E2C0, 0x4F6A1CD, 0xB3EB60C9,
    0x7E8D3EBD, 0xC990FFB9, 0x10B6BCB4, 0xA7AB7DB0, 0xA2FB3AAE, 0x15E6FBAA, 0xCCC0B8A7, 0x7BDD79A3,
    0xC660369B, 0x717DF79F, 0xA85BB492, 0x1F467596, 0x1A163288, 0xAD0BF38C, 0x742DB081, 0xC3307185,
    0x99908A5D, 0x2E8D4B59, 0xF7AB0854, 0x40B6C950, 0x45E68E4E, 0xF2FB4F4A, 0x2BDD0C47, 0x9CC0CD43,
    0x217D827B, 0x9660437F, 0x4F460072, 0xF85BC176, 0xFD0B8668, 0x4A16476C, 0x93300461, 0x242DC565,
    0xE94B9B11, 0x5E565A15, 0x87701918, 0x306DD81C, 0x353D9F02, 0x82205E06, 0x5B061D0B, 0xEC1BDC0F,
    0x51A69337, 0xE6BB5233, 0x3F9D113E, 0x8880D03A, 0x8DD09724, 0x3ACD5620, 0xE3EB152D, 0x54F6D429,
    0x7926A9C5, 0xCE3B68C1, 0x171D2BCC, 0xA000EAC8, 0xA550ADD6, 0x124D6CD2, 0xCB6B2FDF, 0x7C76EEDB,
    0xC1CBA1E3, 0x76D660E7, 0xAFF023EA, 0x18EDE2EE, 0x1DBDA5F0, 0xAAA064F4, 0x738627F9, 0xC49BE6FD,
    0x9FDB889, 0xBEE0798D, 0x67C63A80, 0xD0DBFB84, 0xD58BBC9A, 0x62967D9E, 0xBBB03E93, 0xCADFF97,
    0xB110B0AF, 0x60D71AB, 0xDF2B32A6, 0x6836F3A2, 0x6D66B4BC, 0xDA7B75B8, 0x35D36B5, 0xB440F7B1,
    0x1]"

definition table_32_IEEE_LE :: "u32 list" where
  "table_32_IEEE_LE = [
    0x0, 0x77073096, 0xEE0E612C, 0x990951BA, 0x76DC419, 0x706AF48F, 0xE963A535, 0x9E6495A3,
    0xEDB8832, 0x79DCB8A4, 0xE0D5E91E, 0x97D2D988, 0x9B64C2B, 0x7EB17CBD, 0xE7B82D07, 0x90BF1D91,
    0x1DB71064, 0x6AB020F2, 0xF3B97148, 0x84BE41DE, 0x1ADAD47D, 0x6DDDE4EB, 0xF4D4B551, 0x83D385C7,
    0x136C9856, 0x646BA8C0, 0xFD62F97A, 0x8A65C9EC, 0x14015C4F, 0x63066CD9, 0xFA0F3D63, 0x8D080DF5,
    0x3B6E20C8, 0x4C69105E, 0xD56041E4, 0xA2677172, 0x3C03E4D1, 0x4B04D447, 0xD20D85FD, 0xA50AB56B,
    0x35B5A8FA, 0x42B2986C, 0xDBBBC9D6, 0xACBCF940, 0x32D86CE3, 0x45DF5C75, 0xDCD60DCF, 0xABD13D59,
    0x26D930AC, 0x51DE003A, 0xC8D75180, 0xBFD06116, 0x21B4F4B5, 0x56B3C423, 0xCFBA9599, 0xB8BDA50F,
    0x2802B89E, 0x5F058808, 0xC60CD9B2, 0xB10BE924, 0x2F6F7C87, 0x58684C11, 0xC1611DAB, 0xB6662D3D,
    0x76DC4190, 0x1DB7106, 0x98D220BC, 0xEFD5102A, 0x71B18589, 0x6B6B51F, 0x9FBFE4A5, 0xE8B8D433,
    0x7807C9A2, 0xF00F934, 0x9609A88E, 0xE10E9818, 0x7F6A0DBB, 0x86D3D2D, 0x91646C97, 0xE6635C01,
    0x6B6B51F4, 0x1C6C6162, 0x856530D8, 0xF262004E, 0x6C0695ED, 0x1B01A57B, 0x8208F4C1, 0xF50FC457,
    0x65B0D9C6, 0x12B7E950, 0x8BBEB8EA, 0xFCB9887C, 0x62DD1DDF, 0x15DA2D49, 0x8CD37CF3, 0xFBD44C65,
    0x4DB26158, 0x3AB551CE, 0xA3BC0074, 0xD4BB30E2, 0x4ADFA541, 0x3DD895D7, 0xA4D1C46D, 0xD3D6F4FB,
    0x4369E96A, 0x346ED9FC, 0xAD678846, 0xDA60B8D0, 0x44042D73, 0x33031DE5, 0xAA0A4C5F, 0xDD0D7CC9,
    0x5005713C, 0x270241AA, 0xBE0B1010, 0xC90C2086, 0x5768B525, 0x206F85B3, 0xB966D409, 0xCE61E49F,
    0x5EDEF90E, 0x29D9C998, 0xB0D09822, 0xC7D7A8B4, 0x59B33D17, 0x2EB40D81, 0xB7BD5C3B, 0xC0BA6CAD,
    0xEDB88320, 0x9ABFB3B6, 0x3B6E20C, 0x74B1D29A, 0xEAD54739, 0x9DD277AF, 0x4DB2615, 0x73DC1683,
    0xE3630B12, 0x94643B84, 0xD6D6A3E, 0x7A6A5AA8, 0xE40ECF0B, 0x9309FF9D, 0xA00AE27, 0x7D079EB1,
    0xF00F9344, 0x8708A3D2, 0x1E01F268, 0x6906C2FE, 0xF762575D, 0x806567CB, 0x196C3671, 0x6E6B06E7,
    0xFED41B76, 0x89D32BE0, 0x10DA7A5A, 0x67DD4ACC, 0xF9B9DF6F, 0x8EBEEFF9, 0x17B7BE43, 0x60B08ED5,
    0xD6D6A3E8, 0xA1D1937E, 0x38D8C2C4, 0x4FDFF252, 0xD1BB67F1, 0xA6BC5767, 0x3FB506DD, 0x48B2364B,
    0xD80D2BDA, 0xAF0A1B4C, 0x36034AF6, 0x41047A60, 0xDF60EFC3, 0xA867DF55, 0x316E8EEF, 0x4669BE79,
    0xCB61B38C, 0xBC66831A, 0x256FD2A0, 0x5268E236, 0xCC0C7795, 0xBB0B4703, 0x220216B9, 0x5505262F,
    0xC5BA3BBE, 0xB2BD0B28, 0x2BB45A92, 0x5CB36A04, 0xC2D7FFA7, 0xB5D0CF31, 0x2CD99E8B, 0x5BDEAE1D,
    0x9B64C2B0, 0xEC63F226, 0x756AA39C, 0x26D930A, 0x9C0906A9, 0xEB0E363F, 0x72076785, 0x5005713,
    0x95BF4A82, 0xE2B87A14, 0x7BB12BAE, 0xCB61B38, 0x92D28E9B, 0xE5D5BE0D, 0x7CDCEFB7, 0xBDBDF21,
    0x86D3D2D4, 0xF1D4E242, 0x68DDB3F8, 0x1FDA836E, 0x81BE16CD, 0xF6B9265B, 0x6FB077E1, 0x18B74777,
    0x88085AE6, 0xFF0F6A70, 0x66063BCA, 0x11010B5C, 0x8F659EFF, 0xF862AE69, 0x616BFFD3, 0x166CCF45,
    0xA00AE278, 0xD70DD2EE, 0x4E048354, 0x3903B3C2, 0xA7672661, 0xD06016F7, 0x4969474D, 0x3E6E77DB,
    0xAED16A4A, 0xD9D65ADC, 0x40DF0B66, 0x37D83BF0, 0xA9BCAE53, 0xDEBB9EC5, 0x47B2CF7F, 0x30B5FFE9,
    0xBDBDF21C, 0xCABAC28A, 0x53B39330, 0x24B4A3A6, 0xBAD03605, 0xCDD70693, 0x54DE5729, 0x23D967BF,
    0xB3667A2E, 0xC4614AB8, 0x5D681B02, 0x2A6F2B94, 0xB40BBE37, 0xC30C8EA1, 0x5A05DF1B, 0x2D02EF8D,
    0x1]"

definition table_16_ANSI_LE :: "u32 list" where
  "table_16_ANSI_LE = [
    0x0, 0xC0C1, 0xC181, 0x140, 0xC301, 0x3C0, 0x280, 0xC241,
    0xC601, 0x6C0, 0x780, 0xC741, 0x500, 0xC5C1, 0xC481, 0x440,
    0xCC01, 0xCC0, 0xD80, 0xCD41, 0xF00, 0xCFC1, 0xCE81, 0xE40,
    0xA00, 0xCAC1, 0xCB81, 0xB40, 0xC901, 0x9C0, 0x880, 0xC841,
    0xD801, 0x18C0, 0x1980, 0xD941, 0x1B00, 0xDBC1, 0xDA81, 0x1A40,
    0x1E00, 0xDEC1, 0xDF81, 0x1F40, 0xDD01, 0x1DC0, 0x1C80, 0xDC41,
    0x1400, 0xD4C1, 0xD581, 0x1540, 0xD701, 0x17C0, 0x1680, 0xD641,
    0xD201, 0x12C0, 0x1380, 0xD341, 0x1100, 0xD1C1, 0xD081, 0x1040,
    0xF001, 0x30C0, 0x3180, 0xF141, 0x3300, 0xF3C1, 0xF281, 0x3240,
    0x3600, 0xF6C1, 0xF781, 0x3740, 0xF501, 0x35C0, 0x3480, 0xF441,
    0x3C00, 0xFCC1, 0xFD81, 0x3D40, 0xFF01, 0x3FC0, 0x3E80, 0xFE41,
    0xFA01, 0x3AC0, 0x3B80, 0xFB41, 0x3900, 0xF9C1, 0xF881, 0x3840,
    0x2800, 0xE8C1, 0xE981, 0x2940, 0xEB01, 0x2BC0, 0x2A80, 0xEA41,
    0xEE01, 0x2EC0, 0x2F80, 0xEF41, 0x2D00, 0xEDC1, 0xEC81, 0x2C40,
    0xE401, 0x24C0, 0x2580, 0xE541, 0x2700, 0xE7C1, 0xE681, 0x2640,
    0x2200, 0xE2C1, 0xE381, 0x2340, 0xE101, 0x21C0, 0x2080, 0xE041,
    0xA001, 0x60C0, 0x6180, 0xA141, 0x6300, 0xA3C1, 0xA281, 0x6240,
    0x6600, 0xA6C1, 0xA781, 0x6740, 0xA501, 0x65C0, 0x6480, 0xA441,
    0x6C00, 0xACC1, 0xAD81, 0x6D40, 0xAF01, 0x6FC0, 0x6E80, 0xAE41,
    0xAA01, 0x6AC0, 0x6B80, 0xAB41, 0x6900, 0xA9C1, 0xA881, 0x6840,
    0x7800, 0xB8C1, 0xB981, 0x7940, 0xBB01, 0x7BC0, 0x7A80, 0xBA41,
    0xBE01, 0x7EC0, 0x7F80, 0xBF41, 0x7D00, 0xBDC1, 0xBC81, 0x7C40,
    0xB401, 0x74C0, 0x7580, 0xB541, 0x7700, 0xB7C1, 0xB681, 0x7640,
    0x7200, 0xB2C1, 0xB381, 0x7340, 0xB101, 0x71C0, 0x7080, 0xB041,
    0x5000, 0x90C1, 0x9181, 0x5140, 0x9301, 0x53C0, 0x5280, 0x9241,
    0x9601, 0x56C0, 0x5780, 0x9741, 0x5500, 0x95C1, 0x9481, 0x5440,
    0x9C01, 0x5CC0, 0x5D80, 0x9D41, 0x5F00, 0x9FC1, 0x9E81, 0x5E40,
    0x5A00, 0x9AC1, 0x9B81, 0x5B40, 0x9901, 0x59C0, 0x5880, 0x9841,
    0x8801, 0x48C0, 0x4980, 0x8941, 0x4B00, 0x8BC1, 0x8A81, 0x4A40,
    0x4E00, 0x8EC1, 0x8F81, 0x4F40, 0x8D01, 0x4DC0, 0x4C80, 0x8C41,
    0x4400, 0x84C1, 0x8581, 0x4540, 0x8701, 0x47C0, 0x4680, 0x8641,
    0x8201, 0x42C0, 0x4380, 0x8341, 0x4100, 0x81C1, 0x8081, 0x4040,
    0x1]"

datatype AVCRCId = AV_CRC_8_ATM | AV_CRC_16_ANSI | AV_CRC_16_CCITT | AV_CRC_32_IEEE | AV_CRC_32_IEEE_LE | AV_CRC_16_ANSI_LE
  | AV_CRC_24_IEEE | AV_CRC_8_EBU

fun hardcoded_table :: "AVCRCId \<Rightarrow> u32 list" where
  "hardcoded_table AV_CRC_8_ATM = table_8_ATM"
| "hardcoded_table AV_CRC_8_EBU = table_8_EBU"
| "hardcoded_table AV_CRC_16_ANSI = table_16_ANSI"
| "hardcoded_table AV_CRC_16_CCITT = table_16_CCITT"
| "hardcoded_table AV_CRC_24_IEEE = table_24_IEEE"
| "hardcoded_table AV_CRC_32_IEEE = table_32_IEEE"
| "hardcoded_table AV_CRC_32_IEEE_LE = table_32_IEEE_LE"
| "hardcoded_table AV_CRC_16_ANSI_LE = table_16_ANSI_LE"

text \<open>The arguments each table is generated with: bit order, width and polynomial.\<close>

fun crc_params :: "AVCRCId \<Rightarrow> bool \<times> int \<times> u32" where
  "crc_params AV_CRC_8_ATM = (False, 8, 0x07)"
| "crc_params AV_CRC_8_EBU = (False, 8, 0x1D)"
| "crc_params AV_CRC_16_ANSI = (False, 16, 0x8005)"
| "crc_params AV_CRC_16_CCITT = (False, 16, 0x1021)"
| "crc_params AV_CRC_24_IEEE = (False, 24, 0x864CFB)"
| "crc_params AV_CRC_32_IEEE = (False, 32, 0x04C11DB7)"
| "crc_params AV_CRC_32_IEEE_LE = (True, 32, 0xEDB88320)"
| "crc_params AV_CRC_16_ANSI_LE = (True, 16, 0xA001)"

definition CRC_TABLE_SIZE :: "bool \<Rightarrow> nat" where "CRC_TABLE_SIZE small = (if small then 257 else 1024)"

text \<open>The table of an identifier: hardcoded, or generated once in zeroed memory with an assertion that it succeeds.\<close>

definition av_crc_get_table :: "bool \<Rightarrow> bool \<Rightarrow> AVCRCId \<Rightarrow> u32 list option" where
  "av_crc_get_table hardcoded small crc_id =
     (if hardcoded then Some (hardcoded_table crc_id)
      else
        (let (le, bits, poly) = crc_params crc_id;
             (ret, ctx) = av_crc_init small (replicate (CRC_TABLE_SIZE small) 0) le bits poly (4 * int (CRC_TABLE_SIZE small))
         in if ret \<ge> 0 then Some ctx else None))"

section \<open>The definition\<close>

text \<open>Eight bits at a time, with the least or with the most significant bit first.\<close>

definition crc_le :: "u32 \<Rightarrow> u32 \<Rightarrow> u32" where
  "crc_le poly = crc_step_le poly ^^ 8"

definition crc_be :: "u32 \<Rightarrow> u32 \<Rightarrow> u32" where
  "crc_be poly c = av_bswap32 ((crc_step_be poly ^^ 8) (av_bswap32 c))"

definition crc_bits :: "(u32 \<Rightarrow> u32) \<Rightarrow> u8 list \<Rightarrow> u32 \<Rightarrow> u32" where
  "crc_bits L = fold (\<lambda>b c. L (c XOR ucast b))"

lemma range_32:
  fixes n :: nat
  assumes "n < 32"
  obtains m where "m < 8" "n = m \<or> n = 8 + m \<or> n = 16 + m \<or> n = 24 + m"
proof
  show "n mod 8 < 8" by simp
  show "n = n mod 8 \<or> n = 8 + n mod 8 \<or> n = 16 + n mod 8 \<or> n = 24 + n mod 8" using assms by presburger
qed

lemma and_FF: "x AND 0xFF = take_bit 8 (x :: u32)"
  by (simp add: take_bit_eq_mask mask_eq_exp_minus_1)

text \<open>What the table rests on: eight steps are linear, and move the upper bytes down when the lowest one is zero.\<close>

locale crc_step =
  fixes L :: "u32 \<Rightarrow> u32"
  assumes linear: "L (x XOR y) = L x XOR L y"
    and shift: "take_bit 8 x = 0 \<Longrightarrow> L x = drop_bit 8 x"
begin

lemma split_byte: "L x = L (take_bit 8 x) XOR drop_bit 8 x"
proof -
  have x: "x = take_bit 8 x XOR push_bit 8 (drop_bit 8 x)"
    by (rule bit_word_eqI) (auto simp: bit_simps)
  have "L (push_bit 8 (drop_bit 8 x)) = drop_bit 8 x"
  proof -
    have "drop_bit 8 (push_bit 8 (drop_bit 8 x)) = drop_bit 8 x" by (rule bit_word_eqI) (auto simp: bit_simps dest: word_lt)
    then show ?thesis using shift[of "push_bit 8 (drop_bit 8 x)"] by (simp add: take_bit_push_bit)
  qed
  then show ?thesis using linear[of "take_bit 8 x" "push_bit 8 (drop_bit 8 x)"] x by simp
qed

lemma byte_step: "L (c XOR ucast b) = L (ucast (ucast c XOR b :: u8)) XOR drop_bit 8 c"
proof -
  have "take_bit 8 (c XOR ucast b) = ucast (ucast c XOR b :: u8)" by (rule bit_word_eqI) (auto simp: bit_simps dest: byte_lt)
  moreover have "drop_bit 8 (c XOR ucast b) = drop_bit 8 c" by (rule bit_word_eqI) (auto simp: bit_simps dest: byte_lt)
  ultimately show ?thesis using split_byte[of "c XOR ucast b"] by simp
qed

text \<open>A byte of the message before or after eight steps.\<close>

lemma absorb_byte: "k \<ge> 8 \<Longrightarrow> k \<le> 24 \<Longrightarrow> L c XOR push_bit (k - 8) (ucast (b :: u8)) = L (c XOR push_bit k (ucast b))"
proof -
  assume k: "k \<ge> 8" "k \<le> 24"
  have "take_bit 8 (push_bit k (ucast b)) = (0 :: u32)" using k by (intro bit_word_eqI) (auto simp: bit_simps)
  moreover have "drop_bit 8 (push_bit k (ucast b)) = (push_bit (k - 8) (ucast b) :: u32)"
  proof (rule bit_word_eqI)
    fix n :: nat
    have "k \<le> 8 + n \<Longrightarrow> bit b (8 + n - k) \<Longrightarrow> n < 24" using k byte_lt[of b "8 + n - k"] by linarith
    moreover have "8 + n - k = n - (k - 8)" "k \<le> 8 + n \<longleftrightarrow> k - 8 \<le> n" using k by auto
    ultimately show "n < LENGTH(32) \<Longrightarrow> bit (drop_bit 8 (push_bit k (ucast b) :: u32)) n = bit (push_bit (k - 8) (ucast b) :: u32) n"
      by (auto simp: bit_simps)
  qed
  ultimately show ?thesis using shift[of "push_bit k (ucast b)"] by (simp add: linear)
qed

lemma four_bytes: "L (L (L (L (c XOR ucast b0) XOR ucast b1) XOR ucast b2) XOR ucast b3) = (L ^^ 4) (c XOR AV_RL32 [b0, b1, b2, b3])"
proof -
  have w: "AV_RL32 [b0, b1, b2, b3] = ucast b0 XOR push_bit 8 (ucast b1) XOR push_bit 16 (ucast b2) XOR push_bit 24 (ucast b3)"
  proof (rule bit_word_eqI)
    fix n :: nat
    assume "n < LENGTH(32)"
    then have "n < 32" by simp
    then show "bit (AV_RL32 [b0, b1, b2, b3]) n = bit (ucast b0 XOR push_bit 8 (ucast b1) XOR push_bit 16 (ucast b2) XOR push_bit 24 (ucast b3) :: u32) n"
      by (rule range_32, elim disjE) (simp_all add: AV_RL32_def bit_simps byte_bits)
  qed
  have "L x XOR ucast b = L (x XOR push_bit 8 (ucast b))" "L x XOR push_bit 8 (ucast b) = L (x XOR push_bit 16 (ucast b))"
    "L x XOR push_bit 16 (ucast b) = L (x XOR push_bit 24 (ucast b))" for x and b :: u8
    using absorb_byte[of 8 x b] absorb_byte[of 16 x b] absorb_byte[of 24 x b] by simp_all
  then show ?thesis by (simp add: w xor.assoc numeral_eq_Suc)
qed

lemma spread: "(L ^^ 4) w = (L ^^ 4) (w AND 0xFF) XOR (L ^^ 3) (drop_bit 8 w AND 0xFF) XOR (L ^^ 2) (drop_bit 16 w AND 0xFF) XOR L (drop_bit 24 w)"
proof -
  have d: "drop_bit 8 (drop_bit k w) = drop_bit (8 + k) w" for k by (rule bit_word_eqI) (auto simp: bit_simps)
  have l: "L w = L (take_bit 8 w) XOR drop_bit 8 w" "L (drop_bit 8 w) = L (take_bit 8 (drop_bit 8 w)) XOR drop_bit 16 w"
    "L (drop_bit 16 w) = L (take_bit 8 (drop_bit 16 w)) XOR drop_bit 24 w"
    using split_byte[of w] split_byte[of "drop_bit 8 w"] split_byte[of "drop_bit 16 w"] d by simp_all
  have p: "(L ^^ 4) x = L (L (L (L x)))" "(L ^^ 3) x = L (L (L x))" "(L ^^ 2) x = L (L x)" for x
    by (simp_all add: numeral_eq_Suc)
  have "L (L (L (L w))) = L (L (L (L (take_bit 8 w)))) XOR L (L (L (drop_bit 8 w)))" by (subst l(1)) (simp only: linear)
  also have "L (L (L (drop_bit 8 w))) = L (L (L (take_bit 8 (drop_bit 8 w)))) XOR L (L (drop_bit 16 w))" by (subst l(2)) (simp only: linear)
  also have "L (L (drop_bit 16 w)) = L (L (take_bit 8 (drop_bit 16 w))) XOR L (drop_bit 24 w)" by (subst l(3)) (simp only: linear)
  finally show ?thesis by (simp only: and_FF p xor.assoc)
qed

text \<open>The tables.\<close>

definition table1 :: "u32 list \<Rightarrow> bool" where
  "table1 ctx \<longleftrightarrow> (\<forall>i<256. ctx ! i = L (word_of_nat i))"

definition table4 :: "u32 list \<Rightarrow> bool" where
  "table4 ctx \<longleftrightarrow> (\<forall>j<4. \<forall>i<256. ctx ! (256 * j + i) = (L ^^ (j + 1)) (word_of_nat i))"

lemma table4_1: "table4 ctx \<Longrightarrow> table1 ctx"
  by (force simp: table4_def table1_def)

lemma crc_byte_L: "table1 ctx \<Longrightarrow> crc_byte ctx b c = L (c XOR ucast b)"
  using unsigned_less[of "ucast c XOR b :: u8", where 'a = nat] by (simp add: crc_byte_def table1_def byte_step)

lemma fold_bytes: "table1 ctx \<Longrightarrow> fold (crc_byte ctx) bs c = crc_bits L bs c"
  by (induction bs arbitrary: c) (auto simp: crc_bits_def crc_byte_L)

lemma align_bits: "table1 ctx \<Longrightarrow> crc_align ctx addr c bs = (c', bs') \<Longrightarrow> crc_bits L bs' c' = crc_bits L bs c"
  by (induction ctx addr c bs rule: crc_align.induct) (auto simp: crc_bits_def crc_byte_L split: if_splits)

lemma words_bits: "table4 ctx \<Longrightarrow> crc_words ctx c bs = (c', bs') \<Longrightarrow> crc_bits L bs' c' = crc_bits L bs c"
proof (induction ctx c bs rule: crc_words.induct)
  case (1 ctx c b0 b1 b2 b3 bs)
  define w where "w = c XOR AV_RL32 [b0, b1, b2, b3]"
  have t: "ctx ! (256 * j + unat x) = (L ^^ (j + 1)) x" if "j < 4" "unat x < 256" for j x
    using 1(2) that by (simp add: table4_def)
  have m: "unat (x AND 0xFF) < 256" for x :: u32
    using take_bit_nat_less_exp[of 8 "unat x"] by (simp add: and_FF unsigned_take_bit_eq)
  have d: "unat (drop_bit 24 w) < 256"
    using unsigned_less[of w, where 'a = nat] by (simp add: unat_drop_bit_eq drop_bit_eq_div[where ?'a = nat] div_less_iff_less_mult)
  have p4: "(L ^^ 4) x = L (L (L (L x)))" for x by (simp add: numeral_eq_Suc)
  have "ctx ! (3 * 256 + unat (w AND 0xFF)) XOR ctx ! (2 * 256 + unat (drop_bit 8 w AND 0xFF)) XOR
      ctx ! (1 * 256 + unat (drop_bit 16 w AND 0xFF)) XOR ctx ! (0 * 256 + unat (drop_bit 24 w)) = (L ^^ 4) w"
    unfolding spread[of w] using t[of 3, OF _ m] t[of 2, OF _ m] t[of 1, OF _ m] t[of 0, OF _ d] by (simp add: numeral_2_eq_2 numeral_3_eq_3 p4)
  then show ?case using 1 four_bytes[of c b0 b1 b2 b3] by (simp add: crc_bits_def w_def Let_def)
qed auto

end

section \<open>The steps\<close>

lemma step_le_alt: "crc_step_le poly c = drop_bit 1 c XOR (if bit c 0 then poly else 0)"
  by (auto simp: crc_step_le_def and_one_eq bit_0 odd_iff_mod_2_eq_one)

lemma step_be_alt: "crc_step_be poly c = push_bit 1 c XOR (if bit c 31 then poly else 0)"
proof -
  have "signed_drop_bit 31 c = (if bit c 31 then -1 else 0)"
  proof (rule bit_word_eqI)
    show "bit (signed_drop_bit 31 c) n = bit (if bit c 31 then -1 else 0 :: u32) n" if "n < LENGTH(32)" for n
      using that by (cases "n = 0") (simp_all add: bit_signed_drop_bit_iff)
  qed
  then show ?thesis by (simp add: crc_step_be_def)
qed

lemma steps_linear:
  "(crc_step_le poly ^^ n) (x XOR y) = (crc_step_le poly ^^ n) x XOR (crc_step_le poly ^^ n) y"
  "(crc_step_be poly ^^ n) (x XOR y) = (crc_step_be poly ^^ n) x XOR (crc_step_be poly ^^ n) y"
proof -
  have le: "crc_step_le poly (x XOR y) = crc_step_le poly x XOR crc_step_le poly y" for x y
    by (auto simp: step_le_alt bit_simps intro!: bit_word_eqI)
  show "(crc_step_le poly ^^ n) (x XOR y) = (crc_step_le poly ^^ n) x XOR (crc_step_le poly ^^ n) y"
    by (induction n) (simp_all add: le)
  have be: "crc_step_be poly (x XOR y) = crc_step_be poly x XOR crc_step_be poly y" for x y
    by (auto simp: step_be_alt bit_simps intro!: bit_word_eqI)
  show "(crc_step_be poly ^^ n) (x XOR y) = (crc_step_be poly ^^ n) x XOR (crc_step_be poly ^^ n) y"
    by (induction n) (simp_all add: be)
qed

lemma steps_shift:
  "(\<forall>j<n. \<not> bit x j) \<Longrightarrow> (crc_step_le poly ^^ n) x = drop_bit n x"
  "n \<le> 32 \<Longrightarrow> (\<forall>j<n. \<not> bit x (31 - j)) \<Longrightarrow> (crc_step_be poly ^^ n) x = push_bit n x"
proof -
  show "(\<forall>j<n. \<not> bit x j) \<Longrightarrow> (crc_step_le poly ^^ n) x = drop_bit n x"
  proof (induction n)
    case (Suc n)
    then show ?case by (auto simp: step_le_alt bit_simps intro!: bit_word_eqI)
  qed simp
  show "n \<le> 32 \<Longrightarrow> (\<forall>j<n. \<not> bit x (31 - j)) \<Longrightarrow> (crc_step_be poly ^^ n) x = push_bit n x"
  proof (induction n)
    case (Suc n)
    then have "\<not> bit (push_bit n x) 31" by (auto simp: bit_simps)
    then have "crc_step_be poly (push_bit n x) = push_bit (Suc n) x" by (simp only: step_be_alt if_False xor.right_neutral push_bit_push_bit) simp
    then show ?case using Suc by simp
  qed simp
qed

section \<open>Reversing the bytes\<close>

lemma bswap_bits: "m < 8 \<Longrightarrow> bit (av_bswap32 x) m = bit x (24 + m)" "m < 8 \<Longrightarrow> bit (av_bswap32 x) (8 + m) = bit x (16 + m)"
  "m < 8 \<Longrightarrow> bit (av_bswap32 x) (16 + m) = bit x (8 + m)" "m < 8 \<Longrightarrow> bit (av_bswap32 x) (24 + m) = bit x m"
proof -
  have m: "(0xff00 :: u32) = push_bit 8 (mask 8)" "(0x00ff :: u32) = mask 8" by (simp_all add: mask_eq_exp_minus_1)
  show "m < 8 \<Longrightarrow> bit (av_bswap32 x) m = bit x (24 + m)" "m < 8 \<Longrightarrow> bit (av_bswap32 x) (8 + m) = bit x (16 + m)"
    "m < 8 \<Longrightarrow> bit (av_bswap32 x) (16 + m) = bit x (8 + m)" "m < 8 \<Longrightarrow> bit (av_bswap32 x) (24 + m) = bit x m"
    unfolding av_bswap32_def AV_BSWAP16C_def m by (simp_all add: bit_simps)
qed

lemma bswap_bswap [simp]: "av_bswap32 (av_bswap32 x) = x"
  by (rule bit_word_eqI, simp, rule range_32, assumption, elim disjE) (simp_all add: bswap_bits)

lemma bswap_xor: "av_bswap32 (x XOR y) = av_bswap32 x XOR av_bswap32 y"
  by (rule bit_word_eqI, simp, rule range_32, assumption, elim disjE) (simp_all add: bswap_bits bit_simps)

lemma word_high [simp]: "32 \<le> n \<Longrightarrow> \<not> bit (x :: u32) n"
  using word_lt[of x n] by auto

lemma bswap_push: "av_bswap32 (push_bit 8 (av_bswap32 x)) = drop_bit 8 x"
  by (rule bit_word_eqI, simp, rule range_32, assumption, elim disjE) (simp_all add: bswap_bits bit_simps)

interpretation crc_le: crc_step "crc_le poly" for poly
proof
  show "crc_le poly (x XOR y) = crc_le poly x XOR crc_le poly y" for x y by (simp add: crc_le_def steps_linear)
  show "crc_le poly x = drop_bit 8 x" if "take_bit 8 x = 0" for x
  proof -
    have "\<not> bit x j" if "j < 8" for j using arg_cong[OF \<open>take_bit 8 x = 0\<close>, of "\<lambda>w. bit w j"] that by (simp add: bit_simps)
    then show ?thesis by (simp add: crc_le_def steps_shift)
  qed
qed

interpretation crc_be: crc_step "crc_be poly" for poly
proof
  show "crc_be poly (x XOR y) = crc_be poly x XOR crc_be poly y" for x y by (simp add: crc_be_def bswap_xor steps_linear)
  show "crc_be poly x = drop_bit 8 x" if "take_bit 8 x = 0" for x
  proof -
    have z: "\<not> bit x j" if "j < 8" for j using arg_cong[OF \<open>take_bit 8 x = 0\<close>, of "\<lambda>w. bit w j"] that by (simp add: bit_simps)
    have "\<not> bit (av_bswap32 x) (31 - j)" if "j < 8" for j
      using bswap_bits(4)[of "7 - j" x] z[of "7 - j"] that by simp
    then show ?thesis by (simp add: crc_be_def steps_shift bswap_push)
  qed
qed

section \<open>The generated tables\<close>

lemma fold_fill:
  fixes f :: "nat \<Rightarrow> 'a"
  assumes "n \<le> length ctx"
  shows "length (fold (\<lambda>i ctx. ctx[i := f i]) [0..<n] ctx) = length ctx"
    "k < length ctx \<Longrightarrow> fold (\<lambda>i ctx. ctx[i := f i]) [0..<n] ctx ! k = (if k < n then f k else ctx ! k)"
proof -
  show l: "length (fold (\<lambda>i ctx. ctx[i := f i]) [0..<n] ctx) = length ctx" for n
    by (induction n) simp_all
  show "k < length ctx \<Longrightarrow> fold (\<lambda>i ctx. ctx[i := f i]) [0..<n] ctx ! k = (if k < n then f k else ctx ! k)"
    using assms by (induction n) (auto simp: l nth_list_update less_Suc_eq)
qed

text \<open>What eight steps from a table entry are, for both bit orders.\<close>

definition crc_fun :: "bool \<Rightarrow> int \<Rightarrow> u32 \<Rightarrow> u32 \<Rightarrow> u32" where
  "crc_fun le bits poly = (if le then crc_le poly else crc_be (push_bit (nat (32 - bits)) poly))"

interpretation crc_any: crc_step "crc_fun le bits poly" for le bits poly
  by (cases le) (simp_all add: crc_fun_def crc_le.crc_step_axioms crc_be.crc_step_axioms)

lemma bswap_byte: "av_bswap32 (ucast (b :: u8)) = push_bit 24 (ucast b)"
  by (rule bit_word_eqI, simp, rule range_32, assumption, elim disjE) (simp_all add: bswap_bits bit_simps byte_bits)

lemma crc_entry_fun: "i < 256 \<Longrightarrow> crc_entry le bits poly i = crc_fun le bits poly (word_of_nat i)"
proof -
  assume "i < 256"
  then have "ucast (word_of_nat i :: u8) = (word_of_nat i :: u32)"
    by (simp add: word_eq_iff_unsigned unsigned_ucast_eq unsigned_of_nat take_bit_nat_eq_self)
  then have "push_bit 24 (word_of_nat i) = av_bswap32 (word_of_nat i)" using bswap_byte[of "word_of_nat i"] by simp
  then show ?thesis by (simp add: crc_entry_def crc_fun_def crc_le_def crc_be_def)
qed

lemma xor_add: "(\<forall>k. \<not> bit a k \<or> \<not> bit b k) \<Longrightarrow> a XOR b = a + (b :: u32)"
  by (subst disjunctive_add) (auto simp: bit_simps intro!: bit_word_eqI)

fun span :: "u32 list \<Rightarrow> u32 list" where
  "span [] = [0]"
| "span (b # bs) = (let t = span bs in t @ map ((XOR) b) t)"

context crc_step
begin

lemma extend_step:
  assumes "table1 ctx" "length ctx = 1024" "i < 256" "j < 3"
  shows "crc_extend i j ctx = ctx[256 * (j + 1) + i := L (ctx ! (256 * j + i))]"
proof -
  have "L x = drop_bit 8 x XOR ctx ! unat (x AND 0xFF)" for x
  proof -
    have "unat (take_bit 8 x) < 256" using take_bit_nat_less_exp[of 8 "unat x"] by (simp add: unsigned_take_bit_eq)
    then have "ctx ! unat (x AND 0xFF) = L (take_bit 8 x)" using assms(1) by (simp add: table1_def and_FF)
    then show ?thesis using split_byte[of x] by (simp add: xor.commute)
  qed
  then show ?thesis by (simp add: crc_extend_def)
qed

lemma extend_row:
  assumes t: "table1 ctx" "length ctx = 1024" and i: "i < 256"
  shows "fold (crc_extend i) [0..<3] ctx =
    ctx[256 + i := L (ctx ! i), 512 + i := L (L (ctx ! i)), 768 + i := L (L (L (ctx ! i)))]"
proof -
  have keep: "table1 (c[256 * (j + 1) + i := v]) \<and> length (c[256 * (j + 1) + i := v]) = 1024"
    if "table1 c" "length c = 1024" for c j v
    using that by (simp add: table1_def)
  have e: "[0..<3] = [0, 1, 2::nat]" by (simp add: upt_rec)
  show ?thesis unfolding e
    using t i keep[OF t, of 0] keep[of "ctx[256 + i := L (ctx ! i)]" 1]
    by (simp add: extend_step)
qed

lemma extend_table:
  assumes "table1 ctx" "length ctx = 1024"
  shows "table4 (fold (\<lambda>i. fold (crc_extend i) [0..<3]) [0..<256] ctx)"
proof -
  define E where "E n = fold (\<lambda>i. fold (crc_extend i) [0..<3]) [0..<n] ctx" for n
  have "n \<le> 256 \<Longrightarrow> table1 (E n) \<and> length (E n) = 1024 \<and>
      (\<forall>i<n. E n ! (256 + i) = L (L (word_of_nat i)) \<and> E n ! (512 + i) = L (L (L (word_of_nat i))) \<and>
        E n ! (768 + i) = L (L (L (L (word_of_nat i)))))" for n
  proof (induction n)
    case 0
    then show ?case using assms by (simp add: E_def)
  next
    case (Suc n)
    then have IH: "table1 (E n)" "length (E n) = 1024" and n: "n < 256" by simp_all
    have e: "E (Suc n) = (E n)[256 + n := L (E n ! n), 512 + n := L (L (E n ! n)), 768 + n := L (L (L (E n ! n)))]"
      using extend_row[OF IH n] by (simp add: E_def)
    have "E n ! n = L (word_of_nat n)" using IH n by (simp add: table1_def)
    then show ?case using Suc IH n unfolding e by (auto simp: table1_def nth_list_update less_Suc_eq)
  qed
  from this[of 256] have t: "table1 (E 256)" "length (E 256) = 1024"
    "\<forall>i<256. E 256 ! (256 + i) = L (L (word_of_nat i)) \<and> E 256 ! (512 + i) = L (L (L (word_of_nat i))) \<and>
        E 256 ! (768 + i) = L (L (L (L (word_of_nat i))))" by auto
  have "E 256 ! (256 * j + i) = (L ^^ (j + 1)) (word_of_nat i)" if "j < 4" "i < 256" for j i
  proof -
    have "j = 0 \<or> j = 1 \<or> j = 2 \<or> j = 3" using that(1) by auto
    then show ?thesis using t that(2) by (elim disjE) (simp_all add: table1_def numeral_2_eq_2 numeral_3_eq_3)
  qed
  then show ?thesis by (simp add: E_def table4_def)
qed

text \<open>A table of a linear function is spanned by its values on the eight bits.\<close>

lemma span_table: "n \<le> 8 \<Longrightarrow> span (map (\<lambda>k. L (2 ^ k)) (rev [0..<n])) = map (\<lambda>i. L (word_of_nat i)) [0..<2 ^ n]"
proof (induction n)
  case 0
  have "L 0 = 0" using shift[of 0] by simp
  then show ?case by simp
next
  case (Suc n)
  have x: "L (2 ^ n) XOR L (word_of_nat i) = L (word_of_nat (i + 2 ^ n))" if "i < 2 ^ n" for i
  proof -
    have "\<not> bit i n" using that by (metis bit_take_bit_iff less_irrefl take_bit_nat_eq_self)
    then have "\<not> bit (word_of_nat i :: u32) n" by (simp add: bit_of_nat_iff)
    then have "(2 ^ n :: u32) XOR word_of_nat i = word_of_nat i + 2 ^ n"
      using xor_add[of "2 ^ n" "word_of_nat i"] by (auto simp: bit_exp_iff add.commute)
    then show ?thesis by (simp flip: linear)
  qed
  have "[0..<2 ^ Suc n] = [0..<2 ^ n] @ map (\<lambda>i. i + 2 ^ n) [0..<2 ^ n]"
    unfolding map_add_upt using upt_add_eq_append[of 0 "2 ^ n" "2 ^ n"] by (simp add: mult_2)
  then have "map (\<lambda>i. L (word_of_nat i)) [0..<2 ^ Suc n] =
      map (\<lambda>i. L (word_of_nat i)) [0..<2 ^ n] @ map (\<lambda>i. L (word_of_nat (i + 2 ^ n))) [0..<2 ^ n]"
    by (simp only: map_append map_map o_def)
  also have "map (\<lambda>i. L (word_of_nat (i + 2 ^ n))) [0..<2 ^ n] = map ((XOR) (L (2 ^ n))) (map (\<lambda>i. L (word_of_nat i)) [0..<2 ^ n])"
    unfolding map_map by (rule map_cong[OF refl]) (simp only: atLeastLessThan_iff set_upt x o_def)
  finally show ?case using Suc by (simp add: Let_def)
qed

end

lemma pow8: "(f ^^ 8) x = f (f (f (f (f (f (f (f x)))))))"
  by (simp add: numeral_eq_Suc)

lemmas basis_simps = crc_entry_def pow8 step_le_alt step_be_alt av_bswap32_def AV_BSWAP16C_def

lemma basis:
  "map (crc_entry False 8 0x7) [128, 64, 32, 16, 8, 4, 2, 1] = [0x89, 0xC7, 0xE0, 0x70, 0x38, 0x1C, 0xE, 0x7]"
  "map (crc_entry False 8 0x1D) [128, 64, 32, 16, 8, 4, 2, 1] = [0x26, 0x13, 0x87, 0xCD, 0xE8, 0x74, 0x3A, 0x1D]"
  "map (crc_entry False 16 0x8005) [128, 64, 32, 16, 8, 4, 2, 1] = [0x383, 0x8381, 0xC380, 0x6380, 0x3380, 0x1B80, 0xF80, 0x580]"
  "map (crc_entry False 16 0x1021) [128, 64, 32, 16, 8, 4, 2, 1] = [0x8891, 0xC448, 0x6224, 0x3112, 0x881, 0x8440, 0x4220, 0x2110]"
  "map (crc_entry False 24 0x864CFB) [128, 64, 32, 16, 8, 4, 2, 1] = [0xA44733, 0xD2A319, 0xE9D10C, 0x894EC5, 0x3981A1, 0xE1E693, 0xDD58A, 0xFB4C86]"
  "map (crc_entry False 32 0x4C11DB7) [128, 64, 32, 16, 8, 4, 2, 1] = [0xEEE00C69, 0x77708634, 0xE0B62398, 0x70DB114C, 0xB8ED0826, 0xDC760413, 0x6E3B8209, 0xB71DC104]"
  "map (crc_entry True 32 0xEDB88320) [128, 64, 32, 16, 8, 4, 2, 1] = [0xEDB88320, 0x76DC4190, 0x3B6E20C8, 0x1DB71064, 0xEDB8832, 0x76DC419, 0xEE0E612C, 0x77073096]"
  "map (crc_entry True 16 0xA001) [128, 64, 32, 16, 8, 4, 2, 1] = [0xA001, 0xF001, 0xD801, 0xCC01, 0xC601, 0xC301, 0xC181, 0xC0C1]"
  by (simp_all add: basis_simps)

lemma spans:
  "table_8_ATM = span [0x89, 0xC7, 0xE0, 0x70, 0x38, 0x1C, 0xE, 0x7] @ [1]"
  "table_8_EBU = span [0x26, 0x13, 0x87, 0xCD, 0xE8, 0x74, 0x3A, 0x1D] @ [1]"
  "table_16_ANSI = span [0x383, 0x8381, 0xC380, 0x6380, 0x3380, 0x1B80, 0xF80, 0x580] @ [1]"
  "table_16_CCITT = span [0x8891, 0xC448, 0x6224, 0x3112, 0x881, 0x8440, 0x4220, 0x2110] @ [1]"
  "table_24_IEEE = span [0xA44733, 0xD2A319, 0xE9D10C, 0x894EC5, 0x3981A1, 0xE1E693, 0xDD58A, 0xFB4C86] @ [1]"
  "table_32_IEEE = span [0xEEE00C69, 0x77708634, 0xE0B62398, 0x70DB114C, 0xB8ED0826, 0xDC760413, 0x6E3B8209, 0xB71DC104] @ [1]"
  "table_32_IEEE_LE = span [0xEDB88320, 0x76DC4190, 0x3B6E20C8, 0x1DB71064, 0xEDB8832, 0x76DC419, 0xEE0E612C, 0x77073096] @ [1]"
  "table_16_ANSI_LE = span [0xA001, 0xF001, 0xD801, 0xCC01, 0xC601, 0xC301, 0xC181, 0xC0C1] @ [1]"
  by (simp_all add: Let_def table_8_ATM_def table_8_EBU_def table_16_ANSI_def table_16_CCITT_def table_24_IEEE_def table_32_IEEE_def table_32_IEEE_LE_def
    table_16_ANSI_LE_def)


text \<open>The hardcoded tables are the generated ones of 257 entries.\<close>

lemma hardcoded_generated:
  "(le, bits, poly) = crc_params crc_id \<Longrightarrow> hardcoded_table crc_id = map (crc_fun le bits poly \<circ> word_of_nat) [0..<256] @ [1]"
proof -
  have b: "map (\<lambda>k. crc_fun le bits poly (2 ^ k)) (rev [0..<8]) = map (crc_entry le bits poly) [128, 64, 32, 16, 8, 4, 2, 1]" for le bits poly
    by (simp add: crc_entry_fun upt_rec)
  have s: "span (map (crc_entry le bits poly) [128, 64, 32, 16, 8, 4, 2, 1]) = map (crc_fun le bits poly \<circ> word_of_nat) [0..<256]" for le bits poly
    using crc_any.span_table[of 8 le bits poly] unfolding b by (simp only: o_def order_refl) simp
  show "(le, bits, poly) = crc_params crc_id \<Longrightarrow> hardcoded_table crc_id = map (crc_fun le bits poly \<circ> word_of_nat) [0..<256] @ [1]"
    by (cases crc_id) (simp_all only: hardcoded_table.simps crc_params.simps spans basis[symmetric] s prod.inject)
qed

section \<open>The generated tables\<close>

lemma av_crc_init_ok:
  fixes le small :: bool
  assumes v: "8 \<le> bits" "bits \<le> 32" "uint poly < 2 ^ nat bits" and n: "length mem = 257 \<or> length mem = 1024"
  defines "t \<equiv> av_crc_init small mem le bits poly (4 * int (length mem))"
  shows "fst t = 0 \<and> crc_any.table1 le bits poly (snd t) \<and>
    (if small \<or> length mem = 257 then snd t ! 256 = 1 else crc_any.table4 le bits poly (snd t))"
proof -
  define c where "c = (fold (\<lambda>i ctx. ctx[i := crc_entry le bits poly i]) [0..<256] mem)[256 := 1]"
  have l: "length c = length mem" using n by (auto simp: c_def fold_fill)
  have t1: "crc_any.table1 le bits poly c" and c1: "c ! 256 = 1"
    using n by (auto simp: crc_any.table1_def c_def fold_fill crc_entry_fun)
  have t: "t = (0, if \<not> small \<and> 4 * int (length mem) \<ge> 4 * 1024 then fold (\<lambda>i. fold (crc_extend i) [0..<3]) [0..<256] c else c)"
    using v n unfolding t_def av_crc_init_def c_def Let_def by auto
  show ?thesis
  proof (cases "small \<or> length mem = 257")
    case True
    then show ?thesis using t1 c1 by (auto simp: t)
  next
    case False
    then have "crc_any.table4 le bits poly (fold (\<lambda>i. fold (crc_extend i) [0..<3]) [0..<256] c)"
      using crc_any.extend_table[OF t1] l n by simp
    moreover from this have "crc_any.table1 le bits poly (fold (\<lambda>i. fold (crc_extend i) [0..<3]) [0..<256] c)"
      by (rule crc_any.table4_1)
    ultimately show ?thesis using False n by (auto simp: t)
  qed
qed

lemma av_crc_bits:
  assumes "crc_any.table1 le bits poly ctx" "\<not> small \<and> ctx ! 256 = 0 \<Longrightarrow> crc_any.table4 le bits poly ctx"
  shows "av_crc small addr ctx crc data = crc_bits (crc_fun le bits poly) data crc"
proof (cases "\<not> small \<and> ctx ! 256 = 0")
  case True
  obtain c1 d1 where a: "crc_align ctx addr crc data = (c1, d1)" by fastforce
  obtain c2 d2 where w: "crc_words ctx c1 d1 = (c2, d2)" by fastforce
  have "av_crc small addr ctx crc data = crc_bits (crc_fun le bits poly) d2 c2"
    using True by (simp add: av_crc_def a w crc_any.fold_bytes[OF assms(1)])
  then show ?thesis using crc_any.words_bits[OF assms(2)[OF True] w] crc_any.align_bits[OF assms(1) a] by simp
next
  case False
  then have "av_crc small addr ctx crc data = fold (crc_byte ctx) data crc" by (simp add: av_crc_def) fastforce
  then show ?thesis by (simp add: crc_any.fold_bytes[OF assms(1)])
qed

section \<open>The check\<close>

text \<open>The shift register with feedback, one bit at a time.\<close>

definition lfsr_le :: "u32 \<Rightarrow> u32 \<Rightarrow> u32" where
  "lfsr_le poly c = (if bit c 0 then drop_bit 1 c XOR poly else drop_bit 1 c)"

definition lfsr_be :: "u32 \<Rightarrow> u32 \<Rightarrow> u32" where
  "lfsr_be poly c = (if bit c 31 then push_bit 1 c XOR poly else push_bit 1 c)"

definition crc_spec :: "bool \<Rightarrow> int \<Rightarrow> u32 \<Rightarrow> u8 list \<Rightarrow> u32 \<Rightarrow> u32" where
  "crc_spec le bits poly data crc =
     (if le then fold (\<lambda>b c. (lfsr_le poly ^^ 8) (c XOR ucast b)) data crc
      else av_bswap32 (fold (\<lambda>b c. (lfsr_be (push_bit (nat (32 - bits)) poly) ^^ 8) (c XOR push_bit 24 (ucast b))) data (av_bswap32 crc)))"

lemma crc_bits_spec: "crc_bits (crc_fun le bits poly) data crc = crc_spec le bits poly data crc"
proof -
  have s: "crc_step_le p = lfsr_le p" "crc_step_be p = lfsr_be p" for p
    by (simp_all add: fun_eq_iff step_le_alt step_be_alt lfsr_le_def lfsr_be_def)
  have "fold (\<lambda>b c. crc_be p (c XOR ucast b)) data crc =
    av_bswap32 (fold (\<lambda>b c. (lfsr_be p ^^ 8) (c XOR push_bit 24 (ucast b))) data (av_bswap32 crc))" for p
    by (induction data arbitrary: crc) (simp_all add: crc_be_def bswap_xor bswap_byte s)
  then show ?thesis by (simp add: crc_bits_def crc_spec_def crc_fun_def crc_le_def s)
qed

text \<open>A generated table makes the check: for every width from 8 to 32 bits, every polynomial of that width, both bit orders and both
table sizes, the initialisation succeeds, and the check over any data at any address, byte by byte or by words of four bytes, is
the shift register of the polynomial.\<close>
theorem crc_init_correct:
  assumes "8 \<le> bits" "bits \<le> 32" "uint poly < 2 ^ nat bits" and "length mem = 257 \<or> length mem = 1024"
  shows "\<exists>ctx. av_crc_init small mem le bits poly (4 * int (length mem)) = (0, ctx) \<and>
    av_crc small addr ctx crc data = crc_spec le bits poly data crc"
proof -
  let ?t = "av_crc_init small mem le bits poly (4 * int (length mem))"
  note t = av_crc_init_ok[OF assms, of small le]
  then have "av_crc small addr (snd ?t) crc data = crc_bits (crc_fun le bits poly) data crc"
    by (intro av_crc_bits) (auto split: if_splits)
  then show ?thesis using t by (intro exI[of _ "snd ?t"]) (auto simp: crc_bits_spec prod_eq_iff)
qed

lemma crc_init_correct_witness:
  "\<exists>ctx. av_crc_init False (replicate 1024 0) True 32 0xEDB88320 4096 = (0, ctx) \<and>
    av_crc False 3 ctx 0 [1, 2, 3, 4, 5, 6] = crc_spec True 32 0xEDB88320 [1, 2, 3, 4, 5, 6] 0"
  using crc_init_correct[of 32 "0xEDB88320" "replicate 1024 0" False True 3 0 "[1, 2, 3, 4, 5, 6]"] by simp

text \<open>C39: the eight standard checks agree in every build: whether the table is hardcoded or generated on first use, with or without
\<open>CONFIG_SMALL\<close>, \<open>av_crc_get_table\<close> returns a table with which \<open>av_crc\<close> is the shift register of the polynomial.\<close>
theorem crc_get_table_correct:
  "\<exists>ctx. av_crc_get_table hardcoded small crc_id = Some ctx \<and>
    (\<forall>addr crc data. av_crc small addr ctx crc data =
       (let (le, bits, poly) = crc_params crc_id in crc_spec le bits poly data crc))"
proof -
  obtain le bits poly where p: "crc_params crc_id = (le, bits, poly)" by (cases "crc_params crc_id")
  have v: "8 \<le> bits" "bits \<le> 32" "uint poly < 2 ^ nat bits" using p by (cases crc_id; auto)+
  show ?thesis
  proof (cases hardcoded)
    case True
    have h: "hardcoded_table crc_id = map (crc_fun le bits poly \<circ> word_of_nat) [0..<256] @ [1]"
      by (rule hardcoded_generated) (simp add: p)
    have "crc_any.table1 le bits poly (hardcoded_table crc_id)" "hardcoded_table crc_id ! 256 = 1"
      by (simp_all add: h crc_any.table1_def nth_append)
    then have "av_crc small addr (hardcoded_table crc_id) crc data = crc_bits (crc_fun le bits poly) data crc" for addr crc data
      by (intro av_crc_bits) auto
    then show ?thesis using True by (simp add: av_crc_get_table_def p crc_bits_spec)
  next
    case False
    define mem where "mem = replicate (CRC_TABLE_SIZE small) (0 :: u32)"
    have m: "length mem = 257 \<or> length mem = 1024" "length mem = CRC_TABLE_SIZE small" by (auto simp: mem_def CRC_TABLE_SIZE_def)
    let ?t = "av_crc_init small mem le bits poly (4 * int (length mem))"
    note t = av_crc_init_ok[OF v m(1), of small le]
    have "av_crc small addr (snd ?t) crc data = crc_bits (crc_fun le bits poly) data crc" for addr crc data
      using t by (intro av_crc_bits) (auto split: if_splits)
    moreover have "av_crc_get_table hardcoded small crc_id = Some (snd ?t)"
      using False t by (simp add: av_crc_get_table_def p mem_def case_prod_unfold)
    ultimately show ?thesis by (simp add: p crc_bits_spec)
  qed
qed

end
