(* ===== verification/Spec2Isabelle.thy ===== *)
theory Spec2Isabelle
  imports TfEnc TfVid Twofish Blowfish Cast5 Des Tea Base64 AVTree Rational Golomb Hmac Ripemd Adler32 Crc
begin

text \<open>
  A verification library for FFmpeg with the Thinkforce hardware codecs.

  The repository is FFmpeg with a pair of codec wrappers for a video accelerator. The wrappers are its own part: the
  encoder libavcodec/tfenc.c and the decoder libavcodec/tfvid.c talk to a vendor library that answers from another
  thread through callbacks, and they share the key frame detection of libavcodec/tfcodec.c. They rest on libavutil: the
  circular buffer of fifo.c holds the decoded frames and the pending timestamps, mathematics.c and rational.c convert
  timestamps. The library models the wrappers with everything below them, and then the parts of libavutil and
  libavcodec that other code relies on most: integer primitives, bit-level input and output, the block ciphers, Base64
  and the balanced tree with the syncpoint index of the NUT demuxer on it.

  Representation. Fixed-width code on bits uses words (\<open>u8\<close>, \<open>u32\<close>, \<open>u64\<close>); arithmetic code uses \<open>int\<close> with the
  conversions of C written out (\<open>s32\<close>, \<open>u32_of\<close> and so on), so that wrap-around and overflow are visible. An object
  behind a pointer is a list; an access outside it, a use after free and a failed assertion are \<open>None\<close>. Error codes are
  values of the result. Loops are recursive functions; where the code gives no bound they are partial functions, \<open>None\<close>
  also stands for not ending, and a theorem says that they do end.

  Theories, from the bottom:

  \<^item> Prelude: C integers, error codes, bounded accesses, the size checks of the allocator (mem.c), helper lemmas.
  \<^item> Queues: the interface \<open>byte_queue\<close> between the circular buffer and its clients. Fifo: every operation of fifo.c,
    with the simulation by a list of bytes, and the interpretation of the interface.
  \<^item> Mathematics: mathematics.c. The rescaling is exact rounding; comparison of timestamps is exact; the binary gcd ends.
    IntMath: intmath.h and the primitives of common.h against their mathematical definitions. Rational: rational.c;
    reduction gives the best approximation within the bound.
  \<^item> TfCodec: the two scanners of tfcodec.c against a definition of Annex B streams.
  \<^item> Frames: the fields of frames that the wrappers use. TfEnc: tfenc.c as an interleaving of callbacks and calls,
    with a specification by two queues that it simulates. TfVid: tfvid.c with the steps of the callback and the calls
    interleaved freely; conservation of frames, end of stream, flushing.
  \<^item> Bytes: multi-byte accesses. Ciphers: the interface \<open>block_cipher\<close> and the modes ECB and CBC proved once from it.
    Tea, Twofish, Blowfish, Cast5, Des: the ciphers, each an interpretation of the interface; for Des also the
    equivalence of its composed tables with the S-boxes.
  \<^item> Hash: the specification of a hash function by chaining over the blocks of the padded message, the buffered update of
    sha.c, sha512.c and ripemd.c, and the interfaces \<open>hash_stream\<close> and \<open>hash_pad\<close>, from which follows that a digest does not
    depend on how the message was cut. Sha, Sha512, Md5, Ripemd: the functions, each an interpretation; the loops
    and the unrolled code are both the compression function of the standard.
  \<^item> Base64: encoder and decoder with their labels as exits. AVTree: tree.c as one function that inserts and removes,
    its invariants (order and balance), and the index of nut.c.
  \<^item> PutBits, GetBits: the bit writer and reader as the string of bits written so far and left to read; the interfaces
    \<open>bit_writer\<close> and \<open>bit_reader\<close>, whose clients write and read sequences of fields. Golomb: the Exp-Golomb and
    Golomb-Rice codes of golomb.h, each an interpretation of \<open>bit_code\<close>, from which the round trip of lists of values follows.

  Bounds. The only fuel is in loops whose number of rounds is fixed by the width of a word (the multiplication in the
  Twofish field, the continued fractions of \<open>av_reduce\<close>, the alignment of \<open>ff_copy_bits\<close>): the theorems hold for the
  whole range of their arguments, so the fuel is never used up. Sizes are bounded by the types of the code.

  Environment. The vendor library, the system allocator, the callbacks given to the buffer and the comparison given to
  the tree are parameters. What the theorems ask of them is in their hypotheses: an allocator that returns memory of the
  size asked for, a library that calls back with one buffer per frame and ends with an empty one, a comparison that
  orders the elements.

  Not modelled. The formatted output and the logging, which change no state; the generic layers of libavcodec around the
  wrappers (their order of calls is the admissibility condition of the encoder and decoder properties); the software
  codecs, containers, protocols, filters, scaling, resampling and devices, which are signal processing and input and
  output in shared memory; the variants in assembly and for other processors; the little-endian and cached forms of the
  bit reader and writer and the interleaved Golomb codes; conversions to and from floating point. Still planned: the remaining ciphers, dictionaries and string buffers, and the parsing of H.264 and HEVC
  units on top of the bit reader.
\<close>

end
